(* ===== verification/Prelude.thy ===== *)
theory Prelude
  imports Main "HOL-Library.Word" "HOL-Library.Signed_Division"
begin

text \<open>
  What every component shares: the error codes the C++ code returns through
  \<^verbatim>\<open>std::expected<T, std::errc>\<close>, the result type that carries them, the two
  machine-integer views of the code (\<^verbatim>\<open>std::int64_t\<close> as \<open>int\<close> with the
  narrowing cast written out, \<^verbatim>\<open>std::uint64_t\<close> as \<open>64 word\<close>), and generic
  facts about association lists, sums and folds.
\<close>

section \<open>Collections of facts\<close>

named_theorems fixed_defs \<open>definitions of the fixed-point arithmetic\<close>
named_theorems book_simps \<open>what the book operations do to a lookup\<close>

section \<open>Error values\<close>

text \<open>The \<^verbatim>\<open>std::errc\<close> codes the sources construct.\<close>

datatype errc =
    invalid_argument
  | result_out_of_range
  | argument_out_of_domain
  | not_enough_memory
  | bad_message
  | io_error

text \<open>\<^verbatim>\<open>std::expected<T, std::errc>\<close>: \<open>Inl\<close> is \<^verbatim>\<open>std::unexpected\<close>.\<close>

type_synonym 'a expected = "errc + 'a"

abbreviation is_ok :: "'e + 'a \<Rightarrow> bool" where
  "is_ok r \<equiv> (\<exists>x. r = Inr x)"

section \<open>Machine integers\<close>

type_synonym u64 = "64 word"

definition i64_max :: int where "i64_max = 9223372036854775807"

definition i64_min :: int where "i64_min = - 9223372036854775808"

definition i128_max :: int where "i128_max = 170141183460469231731687303715884105727"

definition i128_min :: int where "i128_min = - 170141183460469231731687303715884105728"

text \<open>The values a \<^verbatim>\<open>std::int64_t\<close>, and a \<^verbatim>\<open>__int128\<close>, can hold.\<close>

definition fits_i64 :: "int \<Rightarrow> bool" where
  "fits_i64 x \<longleftrightarrow> i64_min \<le> x \<and> x \<le> i64_max"

definition fits_i128 :: "int \<Rightarrow> bool" where
  "fits_i128 x \<longleftrightarrow> i128_min \<le> x \<and> x \<le> i128_max"

lemmas i64_defs = fits_i64_def i64_max_def i64_min_def

lemmas i128_defs = fits_i128_def i128_max_def i128_min_def

text \<open>
  \<^verbatim>\<open>static_cast<std::int64_t>(v)\<close> of a wider value: reduction modulo \<open>2 ^ 64\<close> into the
  two's-complement range (defined behaviour since C++20).
\<close>

definition wrap64 :: "int \<Rightarrow> int" where
  "wrap64 v = (v + 9223372036854775808) mod 18446744073709551616 - 9223372036854775808"

lemma wrap64_id [simp]: "fits_i64 v \<Longrightarrow> wrap64 v = v"
  by (simp add: wrap64_def i64_defs)

lemma fits_i64_wrap64 [simp]: "fits_i64 (wrap64 v)"
proof -
  have "(v + 9223372036854775808) mod 18446744073709551616 < 18446744073709551616"
    by simp
  then show ?thesis by (simp add: wrap64_def i64_defs)
qed

lemma wrap64_cong: "wrap64 v mod 18446744073709551616 = v mod 18446744073709551616"
  by (simp add: wrap64_def mod_diff_left_eq)

lemma fits_i64_fits_i128: "fits_i64 a \<Longrightarrow> fits_i128 a"
  by (simp add: i64_defs i128_defs)

lemma fits_i64_mult_fits_i128:
  assumes "fits_i64 a" "fits_i64 b"
  shows "fits_i128 (a * b)"
proof -
  have "\<bar>a\<bar> \<le> 9223372036854775808" "\<bar>b\<bar> \<le> 9223372036854775808"
    using assms by (auto simp: i64_defs)
  then have "\<bar>a\<bar> * \<bar>b\<bar> \<le> 9223372036854775808 * 9223372036854775808"
    by (intro mult_mono) auto
  then have "\<bar>a * b\<bar> \<le> 85070591730234615865843651857942052864"
    by (simp add: abs_mult)
  then show ?thesis by (simp add: i128_defs abs_le_iff)
qed

section \<open>Association lists\<close>

lemma map_of_filter_neq:
  "map_of (filter (\<lambda>(a, b). a \<noteq> k) m) = (map_of m)(k := None)"
  by (induction m) (auto simp: fun_eq_iff)

lemma map_of_eq_None_fst: "map_of m k = None \<longleftrightarrow> k \<notin> fst ` set m"
  by (rule map_of_eq_None_iff)

lemma map_of_append_option:
  "map_of (xs @ ys) k = (case map_of xs k of Some v \<Rightarrow> Some v | None \<Rightarrow> map_of ys k)"
  by (simp add: map_add_def split: option.split)

lemma map_of_rev_distinct:
  assumes "distinct (map fst m)"
  shows "map_of (rev m) = map_of m"
proof
  fix k
  show "map_of (rev m) k = map_of m k"
  proof (cases "map_of m k")
    case None
    then have "map_of (rev m) k = None" by (simp add: map_of_eq_None_iff)
    with None show ?thesis by simp
  next
    case (Some v)
    with assms have "map_of (rev m) k = Some v" by (simp add: rev_map [symmetric])
    with Some show ?thesis by simp
  qed
qed

section \<open>Sums over a finite type\<close>

lemma sum_UNIV_update:
  fixes f :: "'a::finite \<Rightarrow> int"
  shows "(\<Sum>v\<in>UNIV. (f(w := x)) v) = (\<Sum>v\<in>UNIV. f v) - f w + x"
proof -
  have "(\<Sum>v\<in>UNIV. (f(w := x)) v) = x + (\<Sum>v\<in>UNIV - {w}. (f(w := x)) v)"
    by (subst sum.remove [of UNIV w]) auto
  also have "(\<Sum>v\<in>UNIV - {w}. (f(w := x)) v) = (\<Sum>v\<in>UNIV - {w}. f v)"
    by (intro sum.cong) auto
  also have "\<dots> = (\<Sum>v\<in>UNIV. f v) - f w"
    by (subst sum.remove [of UNIV w f]) auto
  finally show ?thesis by simp
qed

section \<open>Runs\<close>

text \<open>A predicate that holds before, between and after the steps of a run.\<close>

fun along :: "('s \<Rightarrow> bool) \<Rightarrow> ('s \<Rightarrow> 'm \<Rightarrow> 's) \<Rightarrow> 's \<Rightarrow> 'm list \<Rightarrow> bool" where
  "along P f s [] \<longleftrightarrow> P s"
| "along P f s (m # ms) \<longleftrightarrow> P s \<and> along P f (f s m) ms"

lemma along_start: "along P f s ms \<Longrightarrow> P s"
  by (cases ms) auto

lemma along_end: "along P f s ms \<Longrightarrow> P (foldl f s ms)"
  by (induction ms arbitrary: s) auto

lemma along_append: "along P f s (xs @ ys) \<longleftrightarrow> along P f s xs \<and> along P f (foldl f s xs) ys"
  by (induction xs arbitrary: s) (auto dest: along_start)

lemma along_mono: "along P f s ms \<Longrightarrow> (\<And>x. P x \<Longrightarrow> Q x) \<Longrightarrow> along Q f s ms"
  by (induction ms arbitrary: s) auto

text \<open>
  What a component promises that can always be brought to an end: as long as it has not reached its
  goal some step lowers the work that is left. Then the goal is reached, in at most that many steps.
\<close>

locale finishing =
  fixes step :: "'s \<Rightarrow> 's \<Rightarrow> bool" and live :: "'s \<Rightarrow> bool" and goal :: "'s \<Rightarrow> bool" and work :: "'s \<Rightarrow> nat"
  assumes progress: "live s \<Longrightarrow> \<not> goal s \<Longrightarrow> \<exists>s'. step s s' \<and> live s' \<and> work s' < work s"
begin

lemma finishes: "live s \<Longrightarrow> \<exists>n \<le> work s. \<exists>s'. (step ^^ n) s s' \<and> live s' \<and> goal s'"
proof (induction "work s" arbitrary: s rule: less_induct)
  case less
  show ?case
  proof (cases "goal s")
    case True
    then show ?thesis using less.prems by (intro exI [of _ 0]) auto
  next
    case False
    then obtain s1 where s1: "step s s1" "live s1" "work s1 < work s" using progress less.prems by blast
    then obtain n s' where "n \<le> work s1" "(step ^^ n) s1 s'" "live s'" "goal s'" using less.hyps by blast
    moreover from this have "(step ^^ Suc n) s s'" using relpowp_Suc_I2 [of step, OF s1(1)] by blast
    ultimately show ?thesis using s1(3) by (intro exI [of _ "Suc n"]) auto
  qed
qed

lemma reaches: "live s \<Longrightarrow> \<exists>s'. step\<^sup>*\<^sup>* s s' \<and> live s' \<and> goal s'"
  using finishes relpowp_imp_rtranclp by metis

end

section \<open>Strings\<close>

text \<open>\<^verbatim>\<open>text.find(c, start)\<close>, \<open>None\<close> for \<^verbatim>\<open>npos\<close>.\<close>

fun find_char_from :: "char \<Rightarrow> nat \<Rightarrow> string \<Rightarrow> nat option" where
  "find_char_from c i [] = None"
| "find_char_from c i (x # xs) = (if x = c then Some i else find_char_from c (Suc i) xs)"

definition find_char :: "char \<Rightarrow> string \<Rightarrow> nat \<Rightarrow> nat option" where
  "find_char c s start = find_char_from c start (drop start s)"

text \<open>\<^verbatim>\<open>text.ends_with(suf)\<close> and \<^verbatim>\<open>text.starts_with(pre)\<close>.\<close>

definition ends_with :: "string \<Rightarrow> string \<Rightarrow> bool" where
  "ends_with s suf \<longleftrightarrow> length suf \<le> length s \<and> drop (length s - length suf) s = suf"

definition starts_with :: "string \<Rightarrow> string \<Rightarrow> bool" where
  "starts_with s pre \<longleftrightarrow> take (length pre) s = pre"

lemma find_char_from_None: "find_char_from c i s = None \<longleftrightarrow> c \<notin> set s"
  by (induction c i s rule: find_char_from.induct) auto

lemma find_char_None: "find_char c s start = None \<longleftrightarrow> c \<notin> set (drop start s)"
  by (simp add: find_char_def find_char_from_None)

lemma find_char_from_Some:
  "find_char_from c i s = Some n \<Longrightarrow>
   i \<le> n \<and> n - i < length s \<and> s ! (n - i) = c \<and> c \<notin> set (take (n - i) s)"
proof (induction c i s rule: find_char_from.induct)
  case (1 c i)
  then show ?case by simp
next
  case (2 c i x xs)
  show ?case
  proof (cases "x = c")
    case True
    with 2 show ?thesis by simp
  next
    case False
    with 2 have *: "Suc i \<le> n \<and> n - Suc i < length xs \<and> xs ! (n - Suc i) = c
        \<and> c \<notin> set (take (n - Suc i) xs)" by simp
    then obtain k where "n = Suc i + k" using le_Suc_ex by blast
    with * False show ?thesis by simp
  qed
qed

lemma find_char_Some_0:
  assumes "find_char c s 0 = Some n"
  shows "s = take n s @ c # drop (Suc n) s" "c \<notin> set (take n s)"
  using find_char_from_Some [of c 0 s n] assms
  by (auto simp: find_char_def id_take_nth_drop)

lemma find_char_append:
  assumes "c \<notin> set xs"
  shows "find_char c (xs @ c # ys) 0 = Some (length xs)"
proof -
  have "find_char_from c i (xs @ c # ys) = Some (i + length xs)" for i
    using assms by (induction xs arbitrary: i) auto
  then show ?thesis by (simp add: find_char_def)
qed

lemma append_sep_eq:
  "c \<notin> set xs \<Longrightarrow> c \<notin> set ys \<Longrightarrow> xs @ c # us = ys @ c # vs \<longleftrightarrow> xs = ys \<and> us = vs"
proof (induction xs arbitrary: ys)
  case Nil
  then show ?case by (cases ys) auto
next
  case (Cons x xs)
  then show ?case by (cases ys) auto
qed

lemma ends_with_append [simp]: "ends_with (s @ suf) suf"
  by (simp add: ends_with_def)

lemma ends_withD: "ends_with s suf \<Longrightarrow> s = take (length s - length suf) s @ suf"
  by (metis append_take_drop_id ends_with_def)

end
