(* ===== verification/Rounding.thy ===== *)
theory Rounding
  imports Prelude
begin

text \<open>
  \<^verbatim>\<open>core/rounding.hpp\<close>: the one 128-bit rounding division every rescale of the code
  goes through. C++'s \<^verbatim>\<open>/\<close> and \<^verbatim>\<open>%\<close> truncate towards zero, which is
  \<open>sdiv\<close> and \<open>smod\<close> of \<open>HOL-Library.Signed_Division\<close>. The function is related
  to what it is meant to compute: the nearest integer, ties away from zero.
\<close>

section \<open>The code\<close>

definition round_div_nearest_away :: "int \<Rightarrow> int \<Rightarrow> int" where
  "round_div_nearest_away numerator denominator =
     (let quotient = numerator sdiv denominator;
          remainder = numerator smod denominator;
          abs_remainder = (if remainder \<ge> 0 then remainder else - remainder);
          half = denominator sdiv 2 + denominator smod 2
      in if abs_remainder \<ge> half
         then quotient + (if numerator \<ge> 0 then 1 else - 1)
         else quotient)"

section \<open>What it computes\<close>

lemma sdiv_nonneg [simp]: "0 \<le> n \<Longrightarrow> 0 < d \<Longrightarrow> n sdiv d = n div d" for n d :: int
  by (simp add: signed_divide_int_def sgn_if)

lemma smod_nonneg [simp]: "0 \<le> n \<Longrightarrow> 0 < d \<Longrightarrow> n smod d = n mod d" for n d :: int
  by (simp add: smod_int_alt_def sgn_if)

lemma sdiv_neg: "n < 0 \<Longrightarrow> 0 < d \<Longrightarrow> n sdiv d = - ((- n) div d)" for n d :: int
  by (simp add: signed_divide_int_def sgn_if)

lemma smod_neg: "n < 0 \<Longrightarrow> 0 < d \<Longrightarrow> n smod d = - ((- n) mod d)" for n d :: int
  by (simp add: smod_int_alt_def sgn_if)

lemma half_pos: "0 < d \<Longrightarrow> 0 < d div 2 + d mod 2" for d :: int
  by presburger

lemma half_up_div:
  fixes n d :: int
  assumes "0 \<le> n" "0 < d"
  shows "n div d + (if d div 2 + d mod 2 \<le> n mod d then 1 else 0) = (2 * n + d) div (2 * d)"
proof -
  define q r where "q = n div d" and "r = n mod d"
  have n: "n = q * d + r" and r: "0 \<le> r" "r < d"
    using assms by (auto simp: q_def r_def)
  have half: "d div 2 + d mod 2 \<le> r \<longleftrightarrow> d \<le> 2 * r" by presburger
  show ?thesis
  proof (cases "d \<le> 2 * r")
    case True
    have eq: "2 * n + d = (2 * r - d) + (q + 1) * (2 * d)" by (simp add: n algebra_simps)
    have "(2 * r - d) div (2 * d) = 0" using True r by (intro div_pos_pos_trivial) auto
    then have "(2 * n + d) div (2 * d) = q + 1"
      unfolding eq using assms by (subst div_mult_self1) auto
    with True half show ?thesis by (simp add: q_def r_def)
  next
    case False
    have eq: "2 * n + d = (2 * r + d) + q * (2 * d)" by (simp add: n algebra_simps)
    have "(2 * r + d) div (2 * d) = 0" using False r by (intro div_pos_pos_trivial) auto
    then have "(2 * n + d) div (2 * d) = q"
      unfolding eq using assms by (subst div_mult_self1) auto
    with False half show ?thesis by (simp add: q_def r_def)
  qed
qed

lemma round_div_nonneg:
  "0 \<le> n \<Longrightarrow> 0 < d \<Longrightarrow> round_div_nearest_away n d = (2 * n + d) div (2 * d)"
  using half_up_div [of n d] by (auto simp: round_div_nearest_away_def Let_def split: if_splits)

lemma round_div_neg:
  assumes "n < 0" "0 < d"
  shows "round_div_nearest_away n d = - round_div_nearest_away (- n) d"
proof -
  define r where "r = (- n) mod d"
  have "0 \<le> r" "0 < d div 2 + d mod 2" using assms half_pos by (auto simp: r_def)
  moreover have "n smod d = - r" "(- n) smod d = r" using assms by (auto simp: r_def smod_neg)
  ultimately show ?thesis
    using assms by (auto simp: round_div_nearest_away_def Let_def sdiv_neg)
qed

lemma round_div_0 [simp]: "0 < d \<Longrightarrow> round_div_nearest_away 0 d = 0"
  using half_pos [of d] by (simp add: round_div_nearest_away_def Let_def)

lemma round_div_minus:
  "0 < d \<Longrightarrow> round_div_nearest_away (- n) d = - round_div_nearest_away n d"
  using round_div_neg [of n d] round_div_neg [of "- n" d]
  by (cases n "0 :: int" rule: linorder_cases) auto

lemma round_div_exact [simp]: "0 < d \<Longrightarrow> round_div_nearest_away (n * d) d = n"
proof -
  have pos: "round_div_nearest_away (m * d) d = m" if "0 \<le> m" "0 < d" for m :: int
  proof -
    have "(2 * (m * d) + d) div (2 * d) = (d + m * (2 * d)) div (2 * d)"
      by (simp add: algebra_simps)
    also have "\<dots> = m" using that by (simp add: div_pos_pos_trivial)
    finally show ?thesis using that by (simp add: round_div_nonneg)
  qed
  assume d: "0 < d"
  show ?thesis
  proof (cases "0 \<le> n")
    case True
    with d show ?thesis by (simp add: pos)
  next
    case False
    with d pos [of "- n"] round_div_minus [of d "- n * d"] show ?thesis by simp
  qed
qed

lemma round_div_nonneg_result: "0 \<le> n \<Longrightarrow> 0 < d \<Longrightarrow> 0 \<le> round_div_nearest_away n d"
  by (simp add: round_div_nonneg pos_imp_zdiv_nonneg_iff)

lemma round_div_mono_nonneg:
  "0 \<le> m \<Longrightarrow> m \<le> n \<Longrightarrow> 0 < d \<Longrightarrow> round_div_nearest_away m d \<le> round_div_nearest_away n d"
  by (simp add: round_div_nonneg zdiv_mono1)

lemma round_div_abs_le:
  assumes "0 < d"
  shows "\<bar>round_div_nearest_away n d\<bar> \<le> \<bar>n\<bar>"
proof -
  have le: "round_div_nearest_away m d \<le> m" if m: "0 \<le> m" for m
  proof (cases "m = 0")
    case True
    with assms show ?thesis using round_div_exact [of d 0] by simp
  next
    case False
    with m have "1 \<le> m" by simp
    then have "d \<le> m * d" using assms by (simp add: mult_le_cancel_right1)
    moreover have "m \<le> m * d" using m assms by (simp add: mult_le_cancel_left1)
    ultimately have "2 * m + d \<le> 2 * (m * d) + d" by simp
    then have "round_div_nearest_away m d \<le> round_div_nearest_away (m * d) d"
      using m assms by (simp add: round_div_nonneg zdiv_mono1)
    with assms show ?thesis by simp
  qed
  have abs_eq: "\<bar>round_div_nearest_away n d\<bar> = round_div_nearest_away \<bar>n\<bar> d"
    using assms round_div_nonneg_result [of "\<bar>n\<bar>" d] round_div_minus [of d n]
    by (cases "0 \<le> n") auto
  show ?thesis unfolding abs_eq by (rule le) simp
qed

text \<open>Within half a divisor of the numerator; strictly above it on a tie.\<close>

lemma round_div_near_nonneg:
  assumes "0 \<le> m" "0 < d"
  shows "2 * (m - round_div_nearest_away m d * d) < d"
    and "2 * (round_div_nearest_away m d * d - m) \<le> d"
proof -
  define k where "k = round_div_nearest_away m d"
  have "2 * m + d = k * (2 * d) + (2 * m + d) mod (2 * d)"
    using assms div_mult_mod_eq [of "2 * m + d" "2 * d"]
    by (simp add: k_def round_div_nonneg)
  moreover have "0 \<le> (2 * m + d) mod (2 * d)" "(2 * m + d) mod (2 * d) < 2 * d"
    using assms by auto
  ultimately have "2 * (m - k * d) < d" "2 * (k * d - m) \<le> d"
    by (auto simp: algebra_simps)
  then show "2 * (m - round_div_nearest_away m d * d) < d"
    and "2 * (round_div_nearest_away m d * d - m) \<le> d"
    unfolding k_def by auto
qed

lemma round_div_near:
  assumes "0 < d"
  shows "\<bar>2 * (round_div_nearest_away n d * d - n)\<bar> \<le> d"
proof (cases "0 \<le> n")
  case True
  with round_div_near_nonneg [OF True assms] show ?thesis by (auto simp: abs_le_iff)
next
  case False
  then have "0 \<le> - n" by simp
  from round_div_near_nonneg [OF this assms] round_div_minus [OF assms, of n] show ?thesis
    by (auto simp: abs_le_iff algebra_simps)
qed

lemma round_div_unique:
  assumes "0 < d" "\<bar>2 * (n - q * d)\<bar> < d"
  shows "round_div_nearest_away n d = q"
proof -
  define k where "k = round_div_nearest_away n d"
  have "\<bar>2 * (k * d - n)\<bar> \<le> d" unfolding k_def by (rule round_div_near [OF assms(1)])
  with assms(2) have "\<bar>2 * (k * d - n) + 2 * (n - q * d)\<bar> < 2 * d"
    using abs_triangle_ineq [of "2 * (k * d - n)" "2 * (n - q * d)"] by linarith
  moreover have "2 * (k * d - n) + 2 * (n - q * d) = 2 * d * (k - q)" by (simp add: algebra_simps)
  ultimately have "2 * d * \<bar>k - q\<bar> < 2 * d * 1" using assms(1) by (simp add: abs_mult)
  then have "\<bar>k - q\<bar> < 1" using assms(1) by (simp add: mult_less_cancel_left_disj)
  then show ?thesis by (simp add: k_def)
qed

text \<open>
  \<^verbatim>\<open>round_div_nearest_away\<close> returns the nearest integer to \<open>n / d\<close>: the distance from
  \<open>n\<close> to \<open>d\<close> times the result is at most half of \<open>d\<close>; on a tie the result is the candidate
  of larger magnitude; and rounding is symmetric in the sign of the numerator.
\<close>

lemma round_div_nearest_away_correct:
  assumes "0 < d"
  shows "\<bar>2 * (round_div_nearest_away n d * d - n)\<bar> \<le> d
    \<and> (\<bar>2 * (round_div_nearest_away n d * d - n)\<bar> = d \<longrightarrow> \<bar>n\<bar> < \<bar>round_div_nearest_away n d\<bar> * d)
    \<and> round_div_nearest_away (- n) d = - round_div_nearest_away n d"
proof -
  have near: "\<bar>2 * (round_div_nearest_away m d * d - m)\<bar> \<le> d \<and>
      (\<bar>2 * (round_div_nearest_away m d * d - m)\<bar> = d \<longrightarrow> m < round_div_nearest_away m d * d)"
    if "0 \<le> m" for m
    using round_div_near_nonneg [OF that assms] by (auto simp: algebra_simps abs_if)
  show ?thesis
  proof (cases "0 \<le> n")
    case True
    with near [OF True] round_div_minus [OF assms, of n] assms
      round_div_nonneg_result [OF True assms]
    show ?thesis by auto
  next
    case False
    then have "0 \<le> - n" by simp
    with near [OF this] round_div_minus [OF assms, of n] assms
      round_div_nonneg_result [OF \<open>0 \<le> - n\<close> assms] False
    show ?thesis by (auto simp: algebra_simps abs_if split: if_splits)
  qed
qed

end
