(* ===== verification/Fixed_Point.thy ===== *)
theory Fixed_Point
  imports Rounding
begin

text \<open>
  \<^verbatim>\<open>core/fixed_point.hpp\<close> and \<^verbatim>\<open>core/notional.hpp\<close>. A
  \<^verbatim>\<open>BasicFixedPoint<Decimals>\<close> is its \<^verbatim>\<open>raw_\<close> integer; the template argument is
  an argument of the operations that use it. \<^verbatim>\<open>__int128\<close> intermediates are \<open>int\<close>,
  and the development proves that they fit where the code relies on it. The
  \<^verbatim>\<open>assert\<close>s of \<^verbatim>\<open>from_raw_checked\<close> are modelled as a release build compiles them:
  not at all, so the cast after them wraps.
\<close>

section \<open>The code: fixed-point values\<close>

type_synonym raw = int
type_synonym price = raw
type_synonym size_t = raw
type_synonym notional = raw

definition price_decimals :: nat where "price_decimals = 9"

definition size_decimals :: nat where "size_decimals = 6"

definition notional_decimals :: nat where "notional_decimals = 9"

primrec pow10 :: "nat \<Rightarrow> int" where
  "pow10 0 = 1"
| "pow10 (Suc i) = pow10 i * 10"

definition scale :: "nat \<Rightarrow> int" where
  "scale decimals = pow10 decimals"

definition from_raw_checked :: "int \<Rightarrow> raw" where
  "from_raw_checked value = wrap64 value"

definition from_raw_safe :: "int \<Rightarrow> raw expected" where
  "from_raw_safe value =
     (if value > i64_max \<or> value < i64_min then Inl result_out_of_range else Inr (wrap64 value))"

definition fp_add :: "raw \<Rightarrow> raw \<Rightarrow> raw" where
  "fp_add a b = from_raw_checked (a + b)"

definition fp_sub :: "raw \<Rightarrow> raw \<Rightarrow> raw" where
  "fp_sub a b = from_raw_checked (a - b)"

definition fp_neg :: "raw \<Rightarrow> raw" where
  "fp_neg a = from_raw_checked (- a)"

definition fixed_multiply :: "nat \<Rightarrow> nat \<Rightarrow> nat \<Rightarrow> raw \<Rightarrow> raw \<Rightarrow> raw" where
  "fixed_multiply da db dr a b =
     (let shift = da + db - dr; raw_product = a * b
      in if shift = 0 then from_raw_checked raw_product
         else from_raw_checked (round_div_nearest_away raw_product (pow10 shift)))"

definition fixed_divide :: "nat \<Rightarrow> nat \<Rightarrow> nat \<Rightarrow> raw \<Rightarrow> raw \<Rightarrow> raw expected" where
  "fixed_divide da db dr a b =
     (if b \<le> 0 then Inl argument_out_of_domain
      else let shift = dr + db - da;
               numerator = (if shift > 0 then a * pow10 shift else a)
           in Inr (from_raw_checked (round_div_nearest_away numerator b)))"

text \<open>\<^verbatim>\<open>Price * Size\<close>, \<^verbatim>\<open>Notional / Price\<close> and \<^verbatim>\<open>Notional / Size\<close>.\<close>

definition price_times_size :: "price \<Rightarrow> size_t \<Rightarrow> notional" where
  "price_times_size p s = fixed_multiply price_decimals size_decimals notional_decimals p s"

definition notional_div_price :: "notional \<Rightarrow> price \<Rightarrow> size_t expected" where
  "notional_div_price n p = fixed_divide notional_decimals price_decimals size_decimals n p"

definition notional_div_size :: "notional \<Rightarrow> size_t \<Rightarrow> price expected" where
  "notional_div_size n s = fixed_divide notional_decimals size_decimals price_decimals n s"

section \<open>The code: parsing a decimal string\<close>

definition is_digit :: "char \<Rightarrow> bool" where
  "is_digit c \<longleftrightarrow> 48 \<le> (of_char c :: nat) \<and> (of_char c :: nat) \<le> 57"

definition digit_value :: "char \<Rightarrow> int" where
  "digit_value c = int (of_char c) - 48"

text \<open>The integer-part loop: validate, accumulate, and give up above \<^verbatim>\<open>raw_type\<close>'s maximum.\<close>

fun parse_int_part :: "int \<Rightarrow> string \<Rightarrow> int expected" where
  "parse_int_part int_value [] = Inr int_value"
| "parse_int_part int_value (c # cs) =
     (if \<not> is_digit c then Inl invalid_argument
      else let int_value' = int_value * 10 + digit_value c
           in if int_value' > i64_max then Inl result_out_of_range
              else parse_int_part int_value' cs)"

text \<open>The fractional loop validates every character and accumulates the first \<open>tk\<close>.\<close>

fun parse_frac_part :: "nat \<Rightarrow> nat \<Rightarrow> int \<Rightarrow> string \<Rightarrow> int expected" where
  "parse_frac_part tk i frac_numerator [] = Inr frac_numerator"
| "parse_frac_part tk i frac_numerator (c # cs) =
     (if \<not> is_digit c then Inl invalid_argument
      else parse_frac_part tk (Suc i)
             (if i < tk then frac_numerator * 10 + digit_value c else frac_numerator) cs)"

primrec pad_zeros :: "nat \<Rightarrow> int \<Rightarrow> int" where
  "pad_zeros 0 v = v"
| "pad_zeros (Suc n) v = pad_zeros n (v * 10)"

definition strip_sign :: "string \<Rightarrow> bool \<times> string" where
  "strip_sign text =
     (case text of c # cs \<Rightarrow> (if c = CHR ''-'' then (True, cs) else (False, text))
      | [] \<Rightarrow> (False, text))"

definition int_part_of :: "string \<Rightarrow> string" where
  "int_part_of rest = takeWhile (\<lambda>c. c \<noteq> CHR ''.'') rest"

definition frac_part_of :: "string \<Rightarrow> string" where
  "frac_part_of rest = tl (dropWhile (\<lambda>c. c \<noteq> CHR ''.'') rest)"

text \<open>Rescaling the gathered digits, the carry, the two range checks and the sign.\<close>

definition scale_fraction :: "nat \<Rightarrow> string \<Rightarrow> int \<Rightarrow> int" where
  "scale_fraction decimals frac_part frac_numerator =
     (if length frac_part > decimals then round_div_nearest_away frac_numerator 10
      else pad_zeros (decimals - min (length frac_part) (decimals + 1)) frac_numerator)"

definition assemble :: "nat \<Rightarrow> bool \<Rightarrow> int \<Rightarrow> int \<Rightarrow> raw expected" where
  "assemble decimals negative int_value0 frac_value0 =
     (let (int_value, frac_value) =
            (if frac_value0 = scale decimals then (int_value0 + 1, 0)
             else (int_value0, frac_value0))
      in if int_value > i64_max then Inl result_out_of_range
         else let magnitude = int_value * scale decimals + frac_value
              in if magnitude > i64_max then Inl result_out_of_range
                 else Inr (wrap64 (if negative then - magnitude else magnitude)))"

definition from_decimal_string :: "nat \<Rightarrow> string \<Rightarrow> raw expected" where
  "from_decimal_string decimals text =
     (let (negative, rest) = strip_sign text;
          int_part = int_part_of rest;
          frac_part = frac_part_of rest
      in if int_part = [] \<and> frac_part = [] then Inl invalid_argument
         else case parse_int_part 0 int_part of
             Inl e \<Rightarrow> Inl e
           | Inr int_value \<Rightarrow>
               (case parse_frac_part (min (length frac_part) (decimals + 1)) 0 0 frac_part of
                  Inl e \<Rightarrow> Inl e
                | Inr frac_numerator \<Rightarrow>
                    assemble decimals negative int_value
                      (scale_fraction decimals frac_part frac_numerator)))"

section \<open>Powers of ten and the narrowing cast\<close>

lemma pow10_eq [simp]: "pow10 n = 10 ^ n"
  by (induction n) simp_all

lemma scale_eq [simp]: "scale n = 10 ^ n"
  by (simp add: scale_def)

lemma pad_zeros_eq [simp]: "pad_zeros n v = v * 10 ^ n"
  by (induction n arbitrary: v) (simp_all add: algebra_simps)

lemma from_raw_safe_Inr: "from_raw_safe v = Inr r \<longleftrightarrow> fits_i64 v \<and> r = v"
  by (auto simp: from_raw_safe_def i64_defs wrap64_def)

lemma from_raw_safe_Inl: "from_raw_safe v = Inl e \<longleftrightarrow> \<not> fits_i64 v \<and> e = result_out_of_range"
  by (auto simp: from_raw_safe_def i64_defs)

lemma from_raw_safe_fits [simp]: "fits_i64 v \<Longrightarrow> from_raw_safe v = Inr v"
  by (simp add: from_raw_safe_Inr)

lemma from_raw_checked_fits [simp]: "fits_i64 v \<Longrightarrow> from_raw_checked v = v"
  by (simp add: from_raw_checked_def)

lemma fp_add_fits [simp]: "fits_i64 (a + b) \<Longrightarrow> fp_add a b = a + b"
  by (simp add: fp_add_def)

lemma fp_sub_fits [simp]: "fits_i64 (a - b) \<Longrightarrow> fp_sub a b = a - b"
  by (simp add: fp_sub_def)

lemma fits_i64_range_fp: "fits_i64 (fp_add a b)" "fits_i64 (fp_sub a b)" "fits_i64 (fp_neg a)"
  by (simp_all add: fp_add_def fp_sub_def fp_neg_def from_raw_checked_def)

lemma fits_i64_diff_nonneg:
  "fits_i64 a \<Longrightarrow> fits_i64 b \<Longrightarrow> 0 \<le> a \<Longrightarrow> 0 \<le> b \<Longrightarrow> fits_i64 (a - b)"
  by (auto simp: i64_defs)

section \<open>Cross-width multiplication and division\<close>

lemma pow10_le_19: "n \<le> 19 \<Longrightarrow> (10 :: int) ^ n \<le> 10 ^ 19"
  by (rule power_increasing) simp_all

lemma fixed_divide_numerator_fits:
  assumes "fits_i64 a" "n \<le> 19"
  shows "fits_i128 (a * 10 ^ n)"
proof -
  have "\<bar>a\<bar> \<le> 9223372036854775808" using assms(1) by (auto simp: i64_defs)
  moreover have "(10 :: int) ^ n \<le> 10000000000000000000" using pow10_le_19 [OF assms(2)] by simp
  ultimately have "\<bar>a\<bar> * 10 ^ n \<le> 9223372036854775808 * 10000000000000000000"
    by (intro mult_mono) auto
  then have "\<bar>a * 10 ^ n\<bar> \<le> 92233720368547758080000000000000000000" by (simp add: abs_mult)
  then show ?thesis by (simp add: i128_defs abs_le_iff)
qed

lemma round_div_fits_i128: "fits_i128 n \<Longrightarrow> 0 < d \<Longrightarrow> fits_i128 (round_div_nearest_away n d)"
  using round_div_abs_le [of d n] round_div_nonneg_result [of n d] round_div_minus [of d n]
    round_div_nonneg_result [of "- n" d]
  by (cases "0 \<le> n") (auto simp: i128_defs)

lemma price_times_size_fits:
  "fits_i64 (round_div_nearest_away (p * s) 1000000) \<Longrightarrow>
   price_times_size p s = round_div_nearest_away (p * s) 1000000"
  by (simp add: price_times_size_def fixed_multiply_def price_decimals_def size_decimals_def
      notional_decimals_def Let_def)

lemma price_times_size_wraps:
  "price_times_size p s = wrap64 (round_div_nearest_away (p * s) 1000000)"
  by (simp add: price_times_size_def fixed_multiply_def price_decimals_def size_decimals_def
      notional_decimals_def Let_def from_raw_checked_def)

lemma notional_div_size_eq:
  "notional_div_size n s =
    (if s \<le> 0 then Inl argument_out_of_domain
     else Inr (wrap64 (round_div_nearest_away (n * 1000000) s)))"
  by (simp add: notional_div_size_def fixed_divide_def price_decimals_def size_decimals_def
      notional_decimals_def Let_def from_raw_checked_def)

text \<open>
  Recovering a price from the notional it produced: from one unit of size upwards the rounding
  of \<^verbatim>\<open>price * size\<close> is too small to survive the division.
\<close>

lemma notional_roundtrip_rounding:
  assumes "1000000 \<le> s"
  shows "round_div_nearest_away (round_div_nearest_away (p * s) 1000000 * 1000000) s = p"
proof -
  define n where "n = round_div_nearest_away (p * s) 1000000"
  have near: "\<bar>2 * (n * 1000000 - p * s)\<bar> \<le> 1000000"
    unfolding n_def by (rule round_div_near) simp
  show ?thesis
  proof (cases "s = 1000000")
    case True
    then have "n = p" unfolding n_def using round_div_exact [of 1000000 p] by simp
    with True show ?thesis unfolding n_def [symmetric] by (simp add: round_div_exact)
  next
    case False
    with assms near have "\<bar>2 * (n * 1000000 - p * s)\<bar> < s" by linarith
    with assms show ?thesis unfolding n_def [symmetric] by (intro round_div_unique) auto
  qed
qed

text \<open>
  The cross-width operators never overflow the 128-bit intermediate they compute in: for
  in-range operands and every rescale the \<^verbatim>\<open>static_assert\<close>s admit (at most 19 digits), the
  product, the scaled dividend and the rounded quotients all fit \<^verbatim>\<open>__int128\<close>; and whenever
  the rounded result fits \<^verbatim>\<open>raw_type\<close>, the operator returns exactly that nearest value.
\<close>

lemma fixed_multiply_divide_no_overflow:
  assumes "fits_i64 a" "fits_i64 b" "dr \<le> da + db" "da + db - dr \<le> 19"
    "da' \<le> dr' + db'" "dr' + db' - da' \<le> 19"
  shows "fits_i128 (a * b)
    \<and> fits_i128 (round_div_nearest_away (a * b) (pow10 (da + db - dr)))
    \<and> fits_i128 (a * pow10 (dr' + db' - da'))
    \<and> (0 < b \<longrightarrow> fits_i128 (round_div_nearest_away (a * pow10 (dr' + db' - da')) b))
    \<and> (fits_i64 (round_div_nearest_away (a * b) (pow10 (da + db - dr))) \<longrightarrow>
         fixed_multiply da db dr a b = round_div_nearest_away (a * b) (pow10 (da + db - dr)))
    \<and> (0 < b \<and> fits_i64 (round_div_nearest_away (a * pow10 (dr' + db' - da')) b) \<longrightarrow>
         fixed_divide da' db' dr' a b = Inr (round_div_nearest_away (a * pow10 (dr' + db' - da')) b))
    \<and> (b \<le> 0 \<longrightarrow> fixed_divide da' db' dr' a b = Inl argument_out_of_domain)"
proof -
  have "round_div_nearest_away (a * b) 1 = a * b" using round_div_exact [of 1 "a * b"] by simp
  then have "fits_i64 (round_div_nearest_away (a * b) (pow10 (da + db - dr))) \<Longrightarrow>
      fixed_multiply da db dr a b = round_div_nearest_away (a * b) (pow10 (da + db - dr))"
    by (cases "da + db - dr = 0") (simp_all add: fixed_multiply_def Let_def del: diff_is_0_eq)
  with assms show ?thesis
    by (auto simp: fixed_divide_def Let_def fits_i64_mult_fits_i128 fixed_divide_numerator_fits
        intro: round_div_fits_i128 fits_i64_fits_i128)
qed

text \<open>
  Notional and size give the price back: for every positive in-range price and every size of
  at least one unit whose notional is representable, \<^verbatim>\<open>(price * size) / size\<close> is exactly
  \<^verbatim>\<open>price\<close>, although both operators round.
\<close>

lemma notional_roundtrip:
  assumes "fits_i64 p" "1000000 \<le> s" "fits_i64 (round_div_nearest_away (p * s) 1000000)"
  shows "notional_div_size (price_times_size p s) s = Inr p"
  using assms notional_roundtrip_rounding [OF assms(2), of p]
  by (simp add: price_times_size_fits notional_div_size_eq)

end
