(* ===== verification/Symbol.thy ===== *)
theory Symbol
  imports Prelude
begin

text \<open>
  \<^verbatim>\<open>symbol/symbol.hpp\<close>: what a book and a venue are, and how their identities are spelled.
  The structs are single-constructor datatypes with the source's field names as selectors; the
  enumerations get their \<open>enum\<close> instances, so that sums and searches over all venues are
  executable and finite.
\<close>

section \<open>Identities\<close>

datatype market_type = Spot | Perp

datatype exchange = Binance | Bybit | Okx

datatype asset = Asset (code: string)

datatype base_quote = BaseQuote (base: asset) (quote: asset)

datatype book_id = BookId (book_symbol: base_quote) (book_type: market_type)

datatype venue_id = VenueId (venue_exchange: exchange) (venue_type: market_type)

type_synonym native_symbol = string

instantiation market_type :: enum
begin

definition "enum_market_type = [Spot, Perp]"

definition "enum_all_market_type P \<longleftrightarrow> P Spot \<and> P Perp"

definition "enum_ex_market_type P \<longleftrightarrow> P Spot \<or> P Perp"

instance
  by standard
    (auto simp: enum_market_type_def enum_all_market_type_def enum_ex_market_type_def,
      (metis market_type.exhaust)+)

end

instantiation exchange :: enum
begin

definition "enum_exchange = [Binance, Bybit, Okx]"

definition "enum_all_exchange P \<longleftrightarrow> P Binance \<and> P Bybit \<and> P Okx"

definition "enum_ex_exchange P \<longleftrightarrow> P Binance \<or> P Bybit \<or> P Okx"

instance
  by standard
    (auto simp: enum_exchange_def enum_all_exchange_def enum_ex_exchange_def,
      (metis exchange.exhaust)+)

end

definition all_venues :: "venue_id list" where
  "all_venues = [VenueId e t. e \<leftarrow> Enum.enum, t \<leftarrow> Enum.enum]"

lemma set_all_venues: "set all_venues = UNIV"
proof -
  have "VenueId e t \<in> set all_venues" for e t
    by (cases e; cases t) (auto simp: all_venues_def enum_exchange_def enum_market_type_def)
  then show ?thesis by (metis UNIV_eq_I venue_id.exhaust)
qed

instantiation venue_id :: enum
begin

definition "enum_venue_id = all_venues"

definition "enum_all_venue_id P \<longleftrightarrow> list_all P all_venues"

definition "enum_ex_venue_id P \<longleftrightarrow> list_ex P all_venues"

instance
  by standard
    (auto simp: enum_venue_id_def enum_all_venue_id_def enum_ex_venue_id_def set_all_venues
      list_all_iff list_ex_iff, simp add: all_venues_def enum_exchange_def enum_market_type_def)

end

lemma card_venue_id: "card (UNIV :: venue_id set) = 6"
proof -
  have "card (UNIV :: venue_id set) = card (set all_venues)" by (simp add: set_all_venues)
  also have "\<dots> = 6" by (simp add: all_venues_def enum_exchange_def enum_market_type_def)
  finally show ?thesis .
qed

section \<open>Spellings\<close>

definition parse_exchange :: "string \<Rightarrow> exchange option" where
  "parse_exchange token =
     (if token = ''BINANCE'' then Some Binance
      else if token = ''BYBIT'' then Some Bybit
      else if token = ''OKX'' then Some Okx
      else None)"

fun exchange_name :: "exchange \<Rightarrow> string" where
  "exchange_name Binance = ''BINANCE''"
| "exchange_name Bybit = ''BYBIT''"
| "exchange_name Okx = ''OKX''"

definition split_base_quote :: "string \<Rightarrow> base_quote option" where
  "split_base_quote token =
     (case find_char CHR ''_'' token 0 of
        None \<Rightarrow> None
      | Some underscore \<Rightarrow>
          if find_char CHR ''_'' token (underscore + 1) \<noteq> None then None
          else let b = take underscore token; q = drop (underscore + 1) token
               in if b = [] \<or> q = [] then None else Some (BaseQuote (Asset b) (Asset q)))"

definition book_suffix :: "market_type \<Rightarrow> string" where
  "book_suffix t = (case t of Spot \<Rightarrow> ''.SPOT'' | Perp \<Rightarrow> ''.PERP'')"

definition book_id_to_string :: "book_id \<Rightarrow> string" where
  "book_id_to_string i =
     code (base (book_symbol i)) @ ''_'' @ code (quote (book_symbol i)) @ book_suffix (book_type i)"

definition parse_book_id :: "string \<Rightarrow> book_id option" where
  "parse_book_id token =
     (let found = (if ends_with token ''.SPOT'' then Some (''.SPOT'', Spot)
                   else if ends_with token ''.PERP'' then Some (''.PERP'', Perp) else None)
      in case found of
           None \<Rightarrow> None
         | Some (suffix, t) \<Rightarrow>
             (case split_base_quote (take (length token - length suffix) token) of
                None \<Rightarrow> None
              | Some symbol \<Rightarrow> Some (BookId symbol t)))"

datatype venue_naming_t =
  VenueNaming (exchange_part: string) (spot_suffix: string) (perp_suffix: string)

fun venue_naming :: "exchange \<Rightarrow> venue_naming_t" where
  "venue_naming Binance = VenueNaming ''binance'' ''spot'' ''futures''"
| "venue_naming Bybit = VenueNaming ''bybit'' ''spot'' ''linear''"
| "venue_naming Okx = VenueNaming ''okx'' ''spot'' ''swap''"

definition venue_id_to_string :: "venue_id \<Rightarrow> string" where
  "venue_id_to_string v =
     (let naming = venue_naming (venue_exchange v);
          market_part = (case venue_type v of Spot \<Rightarrow> spot_suffix naming | Perp \<Rightarrow> perp_suffix naming)
      in exchange_part naming @ ''_'' @ market_part)"

definition native_symbol :: "exchange \<Rightarrow> base_quote \<Rightarrow> market_type \<Rightarrow> native_symbol" where
  "native_symbol e symbol t =
     (case e of
        Binance \<Rightarrow> code (base symbol) @ code (quote symbol)
      | Bybit \<Rightarrow> code (base symbol) @ code (quote symbol)
      | Okx \<Rightarrow> code (base symbol) @ ''-'' @ code (quote symbol)
                @ (case t of Spot \<Rightarrow> '''' | Perp \<Rightarrow> ''-SWAP''))"

definition venues_missing_from :: "venue_id list \<Rightarrow> venue_id set \<Rightarrow> string list" where
  "venues_missing_from candidates wired =
     [venue_id_to_string v. v \<leftarrow> candidates, v \<notin> wired]"

section \<open>Round trips\<close>

text \<open>The books whose spelling can be read back: two non-empty codes without an underscore.\<close>

definition spellable :: "book_id \<Rightarrow> bool" where
  "spellable i \<longleftrightarrow>
     code (base (book_symbol i)) \<noteq> [] \<and> code (quote (book_symbol i)) \<noteq> []
     \<and> CHR ''_'' \<notin> set (code (base (book_symbol i))) \<and> CHR ''_'' \<notin> set (code (quote (book_symbol i)))"

lemma split_base_quote_join:
  assumes "CHR ''_'' \<notin> set b" "CHR ''_'' \<notin> set q" "b \<noteq> []" "q \<noteq> []"
  shows "split_base_quote (b @ CHR ''_'' # q) = Some (BaseQuote (Asset b) (Asset q))"
  using assms by (simp add: split_base_quote_def find_char_append find_char_None Let_def)

lemma split_base_quote_Some:
  assumes "split_base_quote token = Some s"
  shows "token = code (base s) @ CHR ''_'' # code (quote s)"
    and "code (base s) \<noteq> []" "code (quote s) \<noteq> []"
    and "CHR ''_'' \<notin> set (code (base s))" "CHR ''_'' \<notin> set (code (quote s))"
proof -
  from assms obtain n where n: "find_char CHR ''_'' token 0 = Some n"
    and n2: "find_char CHR ''_'' token (n + 1) = None"
    and s: "s = BaseQuote (Asset (take n token)) (Asset (drop (n + 1) token))"
    and ne: "take n token \<noteq> []" "drop (n + 1) token \<noteq> []"
    by (auto simp: split_base_quote_def Let_def split: option.splits if_splits)
  from find_char_Some_0 [OF n] s show "token = code (base s) @ CHR ''_'' # code (quote s)"
    and "CHR ''_'' \<notin> set (code (base s))" by simp_all
  from n2 s show "CHR ''_'' \<notin> set (code (quote s))" by (simp add: find_char_None)
  from s ne show "code (base s) \<noteq> []" "code (quote s) \<noteq> []" by simp_all
qed

lemma ends_with_book_suffix [simp]:
  "ends_with (s @ book_suffix t) ''.SPOT'' \<longleftrightarrow> t = Spot"
  "ends_with (s @ book_suffix t) ''.PERP'' \<longleftrightarrow> t = Perp"
  by (cases t; simp add: ends_with_def book_suffix_def)+

lemma length_book_suffix [simp]: "length (book_suffix t) = 5"
  by (cases t) (simp_all add: book_suffix_def)

lemma parse_book_id_suffix:
  "parse_book_id (s @ book_suffix t) = map_option (\<lambda>symbol. BookId symbol t) (split_base_quote s)"
  by (cases t) (simp_all add: parse_book_id_def split: option.split)

lemma parse_book_id_suffixed:
  assumes "parse_book_id token = Some i"
  obtains s t where "token = s @ book_suffix t"
proof (cases "ends_with token ''.SPOT''")
  case True
  show thesis using ends_withD [OF True] by (intro that [of _ Spot]) (simp add: book_suffix_def)
next
  case False
  with assms have "ends_with token ''.PERP''"
    by (simp add: parse_book_id_def split: if_splits)
  from ends_withD [OF this] show thesis by (intro that [of _ Perp]) (simp add: book_suffix_def)
qed

lemma parse_book_id_spelled:
  assumes "spellable i"
  shows "parse_book_id (book_id_to_string i) = Some i"
proof -
  obtain b q t where "i = BookId (BaseQuote (Asset b) (Asset q)) t"
    by (metis asset.exhaust base_quote.exhaust book_id.exhaust)
  with assms show ?thesis
    using parse_book_id_suffix [of "b @ CHR ''_'' # q" t]
    by (simp add: book_id_to_string_def spellable_def split_base_quote_join)
qed

text \<open>
  C27. Reading a book identity is the exact inverse of spelling one: a token parses to a book if and
  only if that book is spellable (two non-empty codes without an underscore) and the token is its
  spelling. So every spellable book round-trips, no two of them share a spelling, and nothing else
  is accepted on the command line.
\<close>

theorem parse_book_id_iff:
  "parse_book_id token = Some i \<longleftrightarrow> spellable i \<and> token = book_id_to_string i"
proof
  assume "spellable i \<and> token = book_id_to_string i"
  then show "parse_book_id token = Some i" using parse_book_id_spelled by blast
next
  assume "parse_book_id token = Some i"
  moreover from this obtain s t where token: "token = s @ book_suffix t"
    by (rule parse_book_id_suffixed)
  ultimately obtain bq where "split_base_quote s = Some bq" and i: "i = BookId bq t"
    by (auto simp: parse_book_id_suffix)
  from split_base_quote_Some [OF this(1)] show "spellable i \<and> token = book_id_to_string i"
    by (simp add: spellable_def book_id_to_string_def i token)
qed

text \<open>
  Venue identities are told apart by their display names (what \<^verbatim>\<open>Heartbeat.live_venues\<close>
  carries), and configuration names of exchanges round-trip.
\<close>

lemma venue_names_distinct:
  "inj venue_id_to_string \<and> (\<forall>e. parse_exchange (exchange_name e) = Some e)
   \<and> (\<forall>token e. parse_exchange token = Some e \<longrightarrow> token = exchange_name e)"
proof (intro conjI)
  have "distinct (map venue_id_to_string all_venues)"
    by (simp add: all_venues_def enum_exchange_def enum_market_type_def venue_id_to_string_def)
  then show "inj venue_id_to_string" by (simp add: distinct_map set_all_venues)
  show "\<forall>e. parse_exchange (exchange_name e) = Some e"
    by (rule allI, case_tac e) (simp_all add: parse_exchange_def)
  show "\<forall>token e. parse_exchange token = Some e \<longrightarrow> token = exchange_name e"
    by (auto simp: parse_exchange_def split: if_splits)
qed

end
