(* ===== verification/Ordered_Map.thy ===== *)
theory Ordered_Map
  imports Prelude
begin

text \<open>
  \<^verbatim>\<open>std::map<Key, T, Compare>\<close> as the list of its entries in iteration order, with the
  comparator as an argument (\<open>(<)\<close> for \<^verbatim>\<open>std::less\<close>, \<open>(>)\<close> for
  \<^verbatim>\<open>std::greater\<close>). Lookup is the library's \<open>map_of\<close>. The locale \<open>key_order\<close> states
  what a comparator promises, a strict total order, and derives the laws the books rely on.
\<close>

section \<open>The operations of the container\<close>

type_synonym ('k, 'v) omap = "('k \<times> 'v) list"

text \<open>\<^verbatim>\<open>insert_or_assign\<close>, and \<^verbatim>\<open>m[k] = v\<close>.\<close>

fun om_assign :: "('k \<Rightarrow> 'k \<Rightarrow> bool) \<Rightarrow> 'k \<Rightarrow> 'v \<Rightarrow> ('k, 'v) omap \<Rightarrow> ('k, 'v) omap" where
  "om_assign lt k v [] = [(k, v)]"
| "om_assign lt k v ((a, b) # m) =
     (if lt k a then (k, v) # (a, b) # m
      else if lt a k then (a, b) # om_assign lt k v m
      else (a, v) # m)"

text \<open>\<^verbatim>\<open>emplace\<close> and range construction: an existing key keeps its value.\<close>

definition om_emplace :: "('k \<Rightarrow> 'k \<Rightarrow> bool) \<Rightarrow> 'k \<Rightarrow> 'v \<Rightarrow> ('k, 'v) omap \<Rightarrow> ('k, 'v) omap" where
  "om_emplace lt k v m = (case map_of m k of None \<Rightarrow> om_assign lt k v m | Some _ \<Rightarrow> m)"

definition om_of_range :: "('k \<Rightarrow> 'k \<Rightarrow> bool) \<Rightarrow> ('k \<times> 'v) list \<Rightarrow> ('k, 'v) omap" where
  "om_of_range lt xs = foldl (\<lambda>m (k, v). om_emplace lt k v m) [] xs"

definition om_erase :: "'k \<Rightarrow> ('k, 'v) omap \<Rightarrow> ('k, 'v) omap" where
  "om_erase k m = filter (\<lambda>(a, b). a \<noteq> k) m"

definition om_wf :: "('k \<Rightarrow> 'k \<Rightarrow> bool) \<Rightarrow> ('k, 'v) omap \<Rightarrow> bool" where
  "om_wf lt m \<longleftrightarrow> sorted_wrt lt (map fst m)"

lemma map_of_om_erase [simp]: "map_of (om_erase k m) = (map_of m)(k := None)"
  unfolding om_erase_def by (rule map_of_filter_neq)

lemma fst_set_om_erase: "fst ` set (om_erase k m) = fst ` set m - {k}"
  by (auto simp: om_erase_def image_iff)

lemma om_wf_erase [simp]: "om_wf lt m \<Longrightarrow> om_wf lt (om_erase k m)"
  by (induction m) (auto simp: om_wf_def om_erase_def)

lemma om_wf_Nil [simp]: "om_wf lt []"
  by (simp add: om_wf_def)

lemma om_wf_Cons: "om_wf lt ((a, b) # m) \<longleftrightarrow> (\<forall>k \<in> fst ` set m. lt a k) \<and> om_wf lt m"
  by (auto simp: om_wf_def)

section \<open>What a comparator promises\<close>

locale key_order =
  fixes lt :: "'k \<Rightarrow> 'k \<Rightarrow> bool"
  assumes irrefl: "\<not> lt a a"
    and trans: "lt a b \<Longrightarrow> lt b c \<Longrightarrow> lt a c"
    and total: "lt a b \<or> a = b \<or> lt b a"
begin

lemma asym: "lt a b \<Longrightarrow> \<not> lt b a"
  using irrefl trans by blast

lemma not_lt_eq: "\<not> lt k a \<Longrightarrow> \<not> lt a k \<Longrightarrow> a = k"
  using total by blast

lemma map_of_assign: "map_of (om_assign lt k v m) = (map_of m)(k \<mapsto> v)"
proof (induction m)
  case (Cons x m)
  obtain a b where "x = (a, b)" by force
  with Cons show ?case
    using irrefl not_lt_eq [of k a] by (cases "lt k a"; cases "lt a k") (auto simp: fun_eq_iff)
qed simp

lemma keys_assign: "fst ` set (om_assign lt k v m) = insert k (fst ` set m)"
proof (induction m)
  case (Cons x m)
  obtain a b where "x = (a, b)" by force
  with Cons show ?case
    using not_lt_eq [of k a] by (cases "lt k a"; cases "lt a k") auto
qed simp

lemma wf_assign: "om_wf lt m \<Longrightarrow> om_wf lt (om_assign lt k v m)"
proof (induction m)
  case Nil
  show ?case by (simp add: om_wf_def)
next
  case (Cons x m)
  obtain a b where x: "x = (a, b)" by force
  show ?case
  proof (cases "lt k a")
    case True
    with Cons.prems x trans [OF True] show ?thesis by (auto simp: om_wf_Cons)
  next
    case False
    with Cons x total [of k a] show ?thesis by (auto simp: om_wf_Cons keys_assign)
  qed
qed

lemma map_of_emplace:
  "map_of (om_emplace lt k v m) =
     (if k \<in> dom (map_of m) then map_of m else (map_of m)(k \<mapsto> v))"
  by (auto simp: om_emplace_def map_of_assign split: option.splits)

lemma wf_emplace: "om_wf lt m \<Longrightarrow> om_wf lt (om_emplace lt k v m)"
  by (simp add: om_emplace_def wf_assign split: option.splits)

lemma map_of_of_range_gen:
  "map_of (foldl (\<lambda>m (k, v). om_emplace lt k v m) m xs) k =
     (case map_of m k of Some v \<Rightarrow> Some v | None \<Rightarrow> map_of xs k)"
  by (induction xs arbitrary: m) (auto simp: map_of_emplace split: option.splits if_splits)

lemma map_of_of_range: "map_of (om_of_range lt xs) = map_of xs"
  by (rule ext) (simp add: om_of_range_def map_of_of_range_gen)

lemma wf_of_range: "om_wf lt (om_of_range lt xs)"
proof -
  have "om_wf lt m \<Longrightarrow> om_wf lt (foldl (\<lambda>m (k, v). om_emplace lt k v m) m xs)" for m
    by (induction xs arbitrary: m) (auto simp: wf_emplace)
  then show ?thesis by (simp add: om_of_range_def)
qed

lemma wf_distinct: "om_wf lt m \<Longrightarrow> distinct (map fst m)"
proof (induction m)
  case Nil
  show ?case by simp
next
  case (Cons x m)
  obtain a b where x: "x = (a, b)" by force
  with Cons.prems irrefl have "a \<notin> fst ` set m" by (auto simp: om_wf_Cons)
  with Cons x show ?case by (simp add: om_wf_Cons)
qed

lemma map_of_in_set: "om_wf lt m \<Longrightarrow> map_of m k = Some v \<longleftrightarrow> (k, v) \<in> set m"
  by (simp add: wf_distinct)

text \<open>A well-formed map is determined by its lookups: iteration order carries no information.\<close>

lemma wf_ext: "om_wf lt m \<Longrightarrow> om_wf lt n \<Longrightarrow> map_of m = map_of n \<Longrightarrow> m = n"
proof (induction m arbitrary: n)
  case Nil
  then show ?case by (metis map_of.simps(1) map_of_eq_empty_iff)
next
  case (Cons x m)
  obtain a b where x: "x = (a, b)" by force
  from Cons.prems(3) have "map_of n a = Some b" by (metis x map_of_Cons_code(2))
  then obtain c d n' where n: "n = (c, d) # n'" by (cases n) auto
  have "a = c"
  proof (rule ccontr)
    assume neq: "a \<noteq> c"
    have "map_of (x # m) c = Some d" unfolding Cons.prems(3) n by simp
    with neq x have "map_of m c = Some d" by simp
    then have "c \<in> fst ` set m" by (auto dest!: map_of_SomeD intro: rev_image_eqI)
    with Cons.prems(1) x have "lt a c" by (auto simp: om_wf_Cons)
    moreover from \<open>map_of n a = Some b\<close> n neq have "map_of n' a = Some b" by simp
    then have "a \<in> fst ` set n'" by (auto dest!: map_of_SomeD intro: rev_image_eqI)
    with Cons.prems(2) n have "lt c a" by (auto simp: om_wf_Cons)
    ultimately show False using asym by blast
  qed
  moreover from this \<open>map_of n a = Some b\<close> n have "b = d" by simp
  moreover have "map_of m = map_of n'"
  proof -
    have "map_of m a = None" "map_of n' a = None"
      using Cons.prems(1,2) x n \<open>a = c\<close> irrefl by (auto simp: om_wf_Cons map_of_eq_None_iff)
    moreover have "map_of m k = map_of n' k" if "k \<noteq> a" for k
      using fun_cong [OF Cons.prems(3), of k] that x n \<open>a = c\<close> by simp
    ultimately show ?thesis by (metis ext)
  qed
  ultimately show ?case
    using Cons.IH [of n'] Cons.prems(1,2) x n by (simp add: om_wf_Cons)
qed

text \<open>The first entry of a well-formed map is the least key.\<close>

lemma wf_hd_least: "om_wf lt ((a, b) # m) \<Longrightarrow> k \<in> fst ` set ((a, b) # m) \<Longrightarrow> k = a \<or> lt a k"
  by (auto simp: om_wf_Cons)

end

text \<open>The two comparators of the order books.\<close>

interpretation ask_order: key_order "(<) :: int \<Rightarrow> int \<Rightarrow> bool"
  by unfold_locales auto

interpretation bid_order: key_order "(>) :: int \<Rightarrow> int \<Rightarrow> bool"
  by unfold_locales auto

end
