(* ===== verification/Aggregate_Book.thy ===== *)
theory Aggregate_Book
  imports Fixed_Point Symbol Ordered_Map
begin

text \<open>
  \<^verbatim>\<open>book/l2_order_book.hpp\<close> and \<^verbatim>\<open>book/aggregate_order_book.hpp\<close>: the book of one
  venue, and the book that sums all venues and is kept up to date by deltas alone. A side is a
  \<^verbatim>\<open>std::map\<close> with its comparator (bids descending, asks ascending); the sinks of the
  mutating methods are the list of calls they receive, in order. An allocation failure is not
  modelled. The invariant says the aggregate is the sum of the venues at every price, and every
  operation keeps it as long as a venue's size at one price stays below a sixth of the range of
  \<^verbatim>\<open>std::int64_t\<close> (there are six venues), the bound under which the running sum cannot wrap.
\<close>

section \<open>The code: one book\<close>

type_synonym side_map = "(price, size_t) omap"
type_synonym levels = "(price \<times> size_t) list"

record l2_order_book =
  asks :: side_map
  bids :: side_map

definition empty_book :: l2_order_book where
  "empty_book = \<lparr>asks = [], bids = []\<rparr>"

definition is_valid_level :: "price \<Rightarrow> size_t \<Rightarrow> bool" where
  "is_valid_level p s \<longleftrightarrow> p > 0 \<and> s \<ge> 0"

section \<open>The code: the aggregate\<close>

record aggregate_order_book =
  venues :: "venue_id \<rightharpoonup> l2_order_book"
  aggregate :: l2_order_book

definition empty_aggregate :: aggregate_order_book where
  "empty_aggregate = \<lparr>venues = Map.empty, aggregate = empty_book\<rparr>"

text \<open>\<^verbatim>\<open>set_level\<close> returns the side and the size that was there before.\<close>

definition set_level ::
  "(price \<Rightarrow> price \<Rightarrow> bool) \<Rightarrow> side_map \<Rightarrow> price \<Rightarrow> size_t \<Rightarrow> side_map \<times> size_t" where
  "set_level lt side p new_size =
     (let it = map_of side p;
          old_size = (case it of Some s \<Rightarrow> s | None \<Rightarrow> 0)
      in (if new_size \<le> 0 then (if it \<noteq> None then om_erase p side else side)
          else if it \<noteq> None then om_assign lt p new_size side
          else om_emplace lt p new_size side,
          old_size))"

definition adjust_aggregate ::
  "(price \<Rightarrow> price \<Rightarrow> bool) \<Rightarrow> side_map \<Rightarrow> price \<Rightarrow> size_t \<Rightarrow> side_map \<times> size_t option" where
  "adjust_aggregate lt side p delta =
     (if delta = 0 then (side, None)
      else let it = map_of side p;
               updated = fp_add (case it of Some s \<Rightarrow> s | None \<Rightarrow> 0) delta
           in if updated \<le> 0 then (if it \<noteq> None then om_erase p side else side, Some 0)
              else (if it \<noteq> None then om_assign lt p updated side
                    else om_emplace lt p updated side, Some updated))"

definition sink_calls :: "price \<Rightarrow> size_t option \<Rightarrow> levels" where
  "sink_calls p result = (case result of Some s \<Rightarrow> [(p, s)] | None \<Rightarrow> [])"

text \<open>The venue's side, the aggregate's side, and what the sink saw.\<close>

definition apply_level ::
  "(price \<Rightarrow> price \<Rightarrow> bool) \<Rightarrow> side_map \<Rightarrow> side_map \<Rightarrow> price \<Rightarrow> size_t
   \<Rightarrow> side_map \<times> side_map \<times> levels" where
  "apply_level lt venue_side aggregate_side p new_size =
     (let (venue_side', old_size) = set_level lt venue_side p new_size;
          (aggregate_side', result) =
            adjust_aggregate lt aggregate_side p (fp_sub new_size old_size)
      in (venue_side', aggregate_side', sink_calls p result))"

fun apply_levels ::
  "(price \<Rightarrow> price \<Rightarrow> bool) \<Rightarrow> side_map \<Rightarrow> side_map \<Rightarrow> levels
   \<Rightarrow> side_map \<times> side_map \<times> levels" where
  "apply_levels lt venue_side aggregate_side [] = (venue_side, aggregate_side, [])"
| "apply_levels lt venue_side aggregate_side ((p, s) # rest) =
     (let (venue_side', aggregate_side', calls) = apply_level lt venue_side aggregate_side p s;
          (venue_side'', aggregate_side'', calls') =
            apply_levels lt venue_side' aggregate_side' rest
      in (venue_side'', aggregate_side'', calls @ calls'))"

text \<open>The removal loop of \<^verbatim>\<open>resync_side\<close>: it walks the venue's side and drops what the new
  levels do not name.\<close>

fun resync_removals ::
  "(price \<Rightarrow> price \<Rightarrow> bool) \<Rightarrow> side_map \<Rightarrow> side_map \<Rightarrow> side_map
   \<Rightarrow> side_map \<times> side_map \<times> levels" where
  "resync_removals lt new_levels [] aggregate_side = ([], aggregate_side, [])"
| "resync_removals lt new_levels ((p, s) # rest) aggregate_side =
     (if map_of new_levels p \<noteq> None then
        (let (kept, aggregate_side', calls) = resync_removals lt new_levels rest aggregate_side
         in ((p, s) # kept, aggregate_side', calls))
      else
        (let (aggregate_side', result) = adjust_aggregate lt aggregate_side p (fp_sub 0 s);
             (kept, aggregate_side'', calls) = resync_removals lt new_levels rest aggregate_side'
         in (kept, aggregate_side'', sink_calls p result @ calls)))"

definition resync_side ::
  "(price \<Rightarrow> price \<Rightarrow> bool) \<Rightarrow> side_map \<Rightarrow> side_map \<Rightarrow> levels
   \<Rightarrow> side_map \<times> side_map \<times> levels" where
  "resync_side lt venue_side aggregate_side lvls =
     (let new_levels = om_of_range lt lvls;
          (venue_side', aggregate_side', removed) =
            resync_removals lt new_levels venue_side aggregate_side;
          (venue_side'', aggregate_side'', applied) =
            apply_levels lt venue_side' aggregate_side' new_levels
      in (venue_side'', aggregate_side'', removed @ applied))"

definition all_valid :: "levels \<Rightarrow> bool" where
  "all_valid lvls \<longleftrightarrow> list_all (\<lambda>(p, s). is_valid_level p s) lvls"

text \<open>\<^verbatim>\<open>venues_[venue]\<close>: an absent venue starts with an empty book.\<close>

definition venue_book :: "aggregate_order_book \<Rightarrow> venue_id \<Rightarrow> l2_order_book" where
  "venue_book b v = (case venues b v of Some vb \<Rightarrow> vb | None \<Rightarrow> empty_book)"

text \<open>
  The public operations: the outcome, the new state, and the calls of the bid and the ask sink.
\<close>

type_synonym book_result = "unit expected \<times> aggregate_order_book \<times> levels \<times> levels"

definition apply_snapshot ::
  "venue_id \<Rightarrow> levels \<Rightarrow> levels \<Rightarrow> aggregate_order_book \<Rightarrow> book_result" where
  "apply_snapshot v bs as b =
     (if \<not> all_valid bs then (Inl invalid_argument, b, [], [])
      else if \<not> all_valid as then (Inl invalid_argument, b, [], [])
      else
        let vb = venue_book b v;
            (vbids, abids, bid_calls) = resync_side (>) (bids vb) (bids (aggregate b)) bs;
            (vasks, aasks, ask_calls) = resync_side (<) (asks vb) (asks (aggregate b)) as
        in (Inr (),
            \<lparr>venues = (venues b)(v \<mapsto> \<lparr>asks = vasks, bids = vbids\<rparr>),
             aggregate = \<lparr>asks = aasks, bids = abids\<rparr>\<rparr>, bid_calls, ask_calls))"

definition apply_batch ::
  "venue_id \<Rightarrow> levels \<Rightarrow> levels \<Rightarrow> aggregate_order_book \<Rightarrow> book_result" where
  "apply_batch v bs as b =
     (if \<not> all_valid bs then (Inl invalid_argument, b, [], [])
      else if \<not> all_valid as then (Inl invalid_argument, b, [], [])
      else
        let vb = venue_book b v;
            (vbids, abids, bid_calls) = apply_levels (>) (bids vb) (bids (aggregate b)) bs;
            (vasks, aasks, ask_calls) = apply_levels (<) (asks vb) (asks (aggregate b)) as
        in (Inr (),
            \<lparr>venues = (venues b)(v \<mapsto> \<lparr>asks = vasks, bids = vbids\<rparr>),
             aggregate = \<lparr>asks = aasks, bids = abids\<rparr>\<rparr>, bid_calls, ask_calls))"

text \<open>One side of \<^verbatim>\<open>invalidate_venue\<close>: subtract every level, buffering the changes.\<close>

fun remove_levels ::
  "(price \<Rightarrow> price \<Rightarrow> bool) \<Rightarrow> side_map \<Rightarrow> side_map \<Rightarrow> side_map \<times> levels" where
  "remove_levels lt aggregate_side [] = (aggregate_side, [])"
| "remove_levels lt aggregate_side ((p, s) # rest) =
     (let (aggregate_side', result) = adjust_aggregate lt aggregate_side p (fp_sub 0 s);
          (aggregate_side'', calls) = remove_levels lt aggregate_side' rest
      in (aggregate_side'', sink_calls p result @ calls))"

definition invalidate_venue ::
  "venue_id \<Rightarrow> aggregate_order_book \<Rightarrow> aggregate_order_book \<times> levels \<times> levels" where
  "invalidate_venue v b =
     (case venues b v of
        None \<Rightarrow> (b, [], [])
      | Some vb \<Rightarrow>
          let (abids, bid_changes) = remove_levels (>) (bids (aggregate b)) (bids vb);
              (aasks, ask_changes) = remove_levels (<) (asks (aggregate b)) (asks vb)
          in (\<lparr>venues = (venues b)(v := None), aggregate = \<lparr>asks = aasks, bids = abids\<rparr>\<rparr>,
              bid_changes, ask_changes))"

section \<open>What a side holds\<close>

definition level_at :: "side_map \<Rightarrow> price \<Rightarrow> size_t" where
  "level_at m p = (case map_of m p of Some s \<Rightarrow> s | None \<Rightarrow> 0)"

text \<open>Writing an absolute size, zero meaning absence, and replaying a list of such writes.\<close>

definition put_level :: "price \<Rightarrow> size_t \<Rightarrow> (price \<rightharpoonup> size_t) \<Rightarrow> (price \<rightharpoonup> size_t)" where
  "put_level p s f = f(p := if s = 0 then None else Some s)"

definition replay :: "levels \<Rightarrow> (price \<rightharpoonup> size_t) \<Rightarrow> (price \<rightharpoonup> size_t)" where
  "replay cs f = foldl (\<lambda>g (p, s). put_level p s g) f cs"

lemma replay_Nil [simp]: "replay [] f = f"
  by (simp add: replay_def)

lemma replay_Cons [simp]: "replay ((p, s) # cs) f = replay cs (put_level p s f)"
  by (simp add: replay_def)

lemma replay_append [simp]: "replay (cs @ ds) f = replay ds (replay cs f)"
  by (simp add: replay_def)

lemma replay_other: "p \<notin> fst ` set cs \<Longrightarrow> replay cs f p = f p"
  by (induction cs arbitrary: f) (auto simp: put_level_def)

text \<open>
  A list of sink calls that reports a change of lookups exactly: every changed price once, no
  other, and with the new sizes.
\<close>

definition reports ::
  "levels \<Rightarrow> (price \<rightharpoonup> size_t) \<Rightarrow> (price \<rightharpoonup> size_t) \<Rightarrow> bool" where
  "reports cs f g \<longleftrightarrow>
     distinct (map fst cs) \<and> fst ` set cs = {p. f p \<noteq> g p} \<and> replay cs f = g"

lemma reports_Nil [simp]: "reports [] f g \<longleftrightarrow> f = g"
  by (auto simp: reports_def)

lemma reports_append:
  assumes "reports cs f g" "reports ds g h" "fst ` set cs \<inter> fst ` set ds = {}"
  shows "reports (cs @ ds) f h"
proof -
  have cs: "fst ` set cs = {p. f p \<noteq> g p}" and ds: "fst ` set ds = {p. g p \<noteq> h p}"
    using assms by (simp_all add: reports_def)
  have "f p \<noteq> h p \<longleftrightarrow> f p \<noteq> g p \<or> g p \<noteq> h p" for p
  proof -
    have "\<not> (f p \<noteq> g p \<and> g p \<noteq> h p)" using assms(3) unfolding cs ds by blast
    then show ?thesis by (cases "f p = g p") simp_all
  qed
  then have "fst ` set (cs @ ds) = {p. f p \<noteq> h p}"
    unfolding set_append image_Un cs ds by blast
  with assms show ?thesis by (auto simp: reports_def)
qed

section \<open>One level\<close>

definition positive_sizes :: "side_map \<Rightarrow> bool" where
  "positive_sizes m \<longleftrightarrow> (\<forall>p s. map_of m p = Some s \<longrightarrow> 0 < s)"

lemma put_level_same: "positive_sizes m \<Longrightarrow> put_level p (level_at m p) (map_of m) = map_of m"
  by (auto simp: put_level_def level_at_def positive_sizes_def fun_eq_iff split: option.splits)

lemma level_at_nonneg: "positive_sizes m \<Longrightarrow> 0 \<le> level_at m p"
  by (auto simp: level_at_def positive_sizes_def less_imp_le split: option.splits)

lemma level_at_put: "map_of m' = put_level p s (map_of m) \<Longrightarrow>
    level_at m' q = (if q = p then s else level_at m q)"
  by (simp add: level_at_def put_level_def)

lemma positive_put: "positive_sizes m \<Longrightarrow> 0 \<le> s \<Longrightarrow> map_of m' = put_level p s (map_of m) \<Longrightarrow>
    positive_sizes m'"
  by (auto simp: positive_sizes_def put_level_def split: if_splits)

lemma level_eq_iff:
  "positive_sizes m \<Longrightarrow> positive_sizes n \<Longrightarrow> map_of m p = map_of n p \<longleftrightarrow> level_at m p = level_at n p"
  by (auto simp: level_at_def positive_sizes_def split: option.splits)

section \<open>The invariant of one side\<close>

text \<open>The largest size a venue may report for the sum over all venues to stay in range.\<close>

definition venue_size_limit :: int where
  "venue_size_limit = i64_max div 6"

definition side_ok ::
  "(price \<Rightarrow> price \<Rightarrow> bool) \<Rightarrow> (venue_id \<Rightarrow> side_map) \<Rightarrow> side_map \<Rightarrow> bool" where
  "side_ok lt V a \<longleftrightarrow>
     om_wf lt a \<and> (\<forall>v. om_wf lt (V v)) \<and> positive_sizes a
     \<and> (\<forall>v p s. map_of (V v) p = Some s \<longrightarrow> 0 < p \<and> 0 < s \<and> s \<le> venue_size_limit)
     \<and> (\<forall>p. level_at a p = (\<Sum>v\<in>UNIV. level_at (V v) p))"

lemma side_ok_wf: "side_ok lt V a \<Longrightarrow> om_wf lt (V v)"
  by (simp add: side_ok_def)

lemma side_ok_price: "side_ok lt V a \<Longrightarrow> map_of (V v) p = Some s \<Longrightarrow> 0 < p"
  by (auto simp: side_ok_def)

lemma side_ok_levels:
  "side_ok lt V a \<Longrightarrow> 0 \<le> level_at (V v) p \<and> level_at (V v) p \<le> venue_size_limit"
  by (cases "map_of (V v) p")
    (auto simp: side_ok_def level_at_def venue_size_limit_def i64_max_def less_imp_le)

lemma sum_venues_bounds:
  fixes f :: "venue_id \<Rightarrow> int"
  assumes "\<And>v. 0 \<le> f v \<and> f v \<le> venue_size_limit"
  shows "0 \<le> (\<Sum>v\<in>UNIV. f v)" "(\<Sum>v\<in>UNIV. f v) \<le> i64_max"
proof -
  show "0 \<le> (\<Sum>v\<in>UNIV. f v)" using assms by (simp add: sum_nonneg)
  have "(\<Sum>v\<in>UNIV. f v) \<le> of_nat (card (UNIV :: venue_id set)) * venue_size_limit"
    using assms by (intro sum_bounded_above) simp
  also have "\<dots> \<le> i64_max" by (simp add: card_venue_id venue_size_limit_def i64_max_def)
  finally show "(\<Sum>v\<in>UNIV. f v) \<le> i64_max" .
qed

definition levels_in_range :: "levels \<Rightarrow> bool" where
  "levels_in_range lvls \<longleftrightarrow> list_all (\<lambda>(p, s). 0 < p \<and> 0 \<le> s \<and> s \<le> venue_size_limit) lvls"

lemma replay_distinct:
  "distinct (map fst lvls) \<Longrightarrow> map_of lvls p = Some s \<Longrightarrow>
   replay lvls f p = (if s = 0 then None else Some s)"
proof (induction lvls arbitrary: f)
  case (Cons x lvls)
  then show ?case
    by (cases x) (auto simp: replay_other put_level_def split: if_splits)
qed simp

locale book_side = key_order lt for lt :: "int \<Rightarrow> int \<Rightarrow> bool"
begin

lemma set_level_old: "snd (set_level lt m p s) = level_at m p"
  by (simp add: set_level_def Let_def level_at_def)

lemma set_level_lookup:
  "0 \<le> s \<Longrightarrow> map_of (fst (set_level lt m p s)) = put_level p s (map_of m)"
  by (cases "map_of m p")
    (auto simp: set_level_def Let_def put_level_def map_of_assign map_of_emplace fun_eq_iff)

lemma set_level_wf: "om_wf lt m \<Longrightarrow> om_wf lt (fst (set_level lt m p s))"
  by (simp add: set_level_def Let_def wf_assign wf_emplace)

lemma adjust_aggregate_spec:
  assumes "positive_sizes a" "0 \<le> level_at a p + d" "level_at a p + d \<le> i64_max"
  shows "map_of (fst (adjust_aggregate lt a p d)) = put_level p (level_at a p + d) (map_of a)"
    and "snd (adjust_aggregate lt a p d) = (if d = 0 then None else Some (level_at a p + d))"
    and "om_wf lt a \<Longrightarrow> om_wf lt (fst (adjust_aggregate lt a p d))"
proof -
  have "fits_i64 (level_at a p + d)" using assms by (simp add: i64_defs)
  then have fit: "fp_add (case map_of a p of Some s \<Rightarrow> s | None \<Rightarrow> 0) d = level_at a p + d"
    by (simp add: level_at_def)
  show "map_of (fst (adjust_aggregate lt a p d)) = put_level p (level_at a p + d) (map_of a)"
  proof (cases "d = 0")
    case True
    with put_level_same [OF assms(1)] show ?thesis by (simp add: adjust_aggregate_def)
  next
    case False
    with assms(2) fit show ?thesis
      by (cases "map_of a p")
        (auto simp: adjust_aggregate_def Let_def put_level_def map_of_assign map_of_emplace
          fun_eq_iff)
  qed
  show "snd (adjust_aggregate lt a p d) = (if d = 0 then None else Some (level_at a p + d))"
    using assms(2) by (auto simp: adjust_aggregate_def fit Let_def)
  show "om_wf lt a \<Longrightarrow> om_wf lt (fst (adjust_aggregate lt a p d))"
    by (auto simp: adjust_aggregate_def Let_def wf_assign wf_emplace)
qed

text \<open>
  The core step: the venue's side changes at one price, and the aggregate follows by the
  difference.
\<close>

text \<open>One venue's size at one price becomes \<open>s\<close>: the new total, and what the sinks are told of it.\<close>

lemma shift_total:
  assumes ok: "side_ok lt (V(v := m)) a" and s: "0 \<le> s" "s \<le> venue_size_limit"
  shows "fp_sub s (level_at m p) = s - level_at m p"
    and "(\<Sum>w\<in>UNIV. ((\<lambda>w. level_at ((V(v := m)) w) p)(v := s)) w) = level_at a p + (s - level_at m p)"
    and "0 \<le> level_at a p + (s - level_at m p)" "level_at a p + (s - level_at m p) \<le> i64_max"
proof -
  note limits = side_ok_levels [OF ok]
  have lv: "0 \<le> level_at m p" "level_at m p \<le> venue_size_limit"
    using limits [of v p] by simp_all
  then show "fp_sub s (level_at m p) = s - level_at m p"
    using s by (intro fp_sub_fits) (simp add: venue_size_limit_def i64_defs)
  define f where "f = (\<lambda>w. level_at ((V(v := m)) w) p)"
  have total: "(\<Sum>w\<in>UNIV. (f(v := s)) w) = level_at a p + (s - level_at m p)"
    using ok sum_UNIV_update [of f v s] by (simp add: side_ok_def f_def)
  have bounds: "0 \<le> (f(v := s)) w \<and> (f(v := s)) w \<le> venue_size_limit" for w
    using limits [of w p] s by (cases "w = v") (simp_all add: f_def)
  show "0 \<le> level_at a p + (s - level_at m p)" "level_at a p + (s - level_at m p) \<le> i64_max"
    using sum_venues_bounds [of "f(v := s)", OF bounds] total by simp_all
  show "(\<Sum>w\<in>UNIV. ((\<lambda>w. level_at ((V(v := m)) w) p)(v := s)) w) = level_at a p + (s - level_at m p)"
    using total by (simp add: f_def)
qed

lemma shift_reported:
  assumes pos: "positive_sizes a" "positive_sizes a'"
    and a': "map_of a' = put_level p (level_at a p + d) (map_of a)"
    and r: "r = (if d = 0 then None else Some (level_at a p + d))"
  shows "reports (sink_calls p r) (map_of a) (map_of a')"
proof (cases "d = 0")
  case True
  with a' r put_level_same [OF pos(1)] show ?thesis by (simp add: sink_calls_def)
next
  case False
  have "map_of a' p \<noteq> map_of a p"
    using level_eq_iff [OF pos(2,1)] level_at_put [OF a', of p] False by simp
  moreover have "map_of a' q = map_of a q" if "q \<noteq> p" for q
    using a' that by (simp add: put_level_def)
  ultimately have "map_of a q \<noteq> map_of a' q \<longleftrightarrow> q = p" for q by (cases "q = p") simp_all
  then have "{q. map_of a q \<noteq> map_of a' q} = {p}" by blast
  with r False a' show ?thesis by (simp add: sink_calls_def reports_def)
qed

lemma shift_ok:
  assumes ok: "side_ok lt (V(v := m)) a"
    and m': "om_wf lt m'" "map_of m' = put_level p s (map_of m)"
    and s: "0 < p" "0 \<le> s" "s \<le> venue_size_limit"
    and adj: "adjust_aggregate lt a p (fp_sub s (level_at m p)) = (a', r)"
  shows "side_ok lt (V(v := m')) a'"
    and "reports (sink_calls p r) (map_of a) (map_of a')"
    and "fst ` set (sink_calls p r) \<subseteq> {p}"
proof -
  note total = shift_total [OF ok s(2,3), of p]
  have pos: "positive_sizes a" using ok by (simp add: side_ok_def)
  note adj_spec = adjust_aggregate_spec [OF pos total(3,4), folded total(1), unfolded adj fst_conv snd_conv]
  have la: "level_at a' q = (if q = p then level_at a p + (s - level_at m p) else level_at a q)" for q
    using level_at_put [OF adj_spec(1)] total(1) by simp
  have lm: "level_at m' q = (if q = p then s else level_at m q)" for q
    using level_at_put [OF m'(2)] .
  have "level_at a' q = (\<Sum>w\<in>UNIV. level_at ((V(v := m')) w) q)" for q
  proof (cases "q = p")
    case True
    have "level_at ((V(v := m')) w) p = ((\<lambda>w. level_at ((V(v := m)) w) p)(v := s)) w" for w by (simp add: lm)
    with True total(2) la show ?thesis by (simp del: fun_upd_apply)
  next
    case False
    then have "level_at ((V(v := m')) w) q = level_at ((V(v := m)) w) q" for w
      by (simp add: lm)
    with False ok la show ?thesis by (simp add: side_ok_def)
  qed
  moreover have pos': "positive_sizes a'" using positive_put [OF pos _ adj_spec(1)] total(1,3) by simp
  moreover have "0 < q \<and> 0 < x \<and> x \<le> venue_size_limit"
    if "map_of ((V(v := m')) w) q = Some x" for w q x
    using that ok m' s by (cases "w = v") (auto simp: side_ok_def put_level_def split: if_splits)
  moreover have "om_wf lt ((V(v := m')) w)" for w
    using ok m' by (cases "w = v") (auto simp: side_ok_def dest: spec [of _ w])
  ultimately show "side_ok lt (V(v := m')) a'"
    using ok adj_spec(3) by (simp add: side_ok_def del: fun_upd_apply)
  show "fst ` set (sink_calls p r) \<subseteq> {p}" by (cases r) (simp_all add: sink_calls_def)
  show "reports (sink_calls p r) (map_of a) (map_of a')"
    using adj_spec(2) by (intro shift_reported [OF pos pos' adj_spec(1)]) simp
qed

lemma apply_level_ok:
  assumes ok: "side_ok lt V a"
    and s: "0 < p" "0 \<le> s" "s \<le> venue_size_limit"
    and eq: "apply_level lt (V v) a p s = (m', a', cs)"
  shows "side_ok lt (V(v := m')) a'" and "map_of m' = put_level p s (map_of (V v))"
    and "reports cs (map_of a) (map_of a')" and "fst ` set cs \<subseteq> {p}"
proof -
  obtain r where m': "m' = fst (set_level lt (V v) p s)" and cs: "cs = sink_calls p r"
    and adj: "adjust_aggregate lt a p (fp_sub s (level_at (V v) p)) = (a', r)"
    using eq set_level_old [of "V v" p s]
    by (auto simp: apply_level_def Let_def split: prod.splits)
  show "map_of m' = put_level p s (map_of (V v))" using s m' by (simp add: set_level_lookup)
  note step = shift_ok [of V v "V v" a m' p s a' r, simplified, OF ok _ this s adj]
  have "om_wf lt m'" using ok m' by (simp add: side_ok_def set_level_wf)
  from step [OF this] cs show "side_ok lt (V(v := m')) a'"
    and "reports cs (map_of a) (map_of a')" and "fst ` set cs \<subseteq> {p}" by simp_all
qed

lemma apply_levels_ok:
  assumes "side_ok lt V a" "levels_in_range lvls" "apply_levels lt (V v) a lvls = (m', a', cs)"
  shows "side_ok lt (V(v := m')) a' \<and> map_of m' = replay lvls (map_of (V v))
    \<and> map_of a' = replay cs (map_of a) \<and> fst ` set cs \<subseteq> fst ` set lvls
    \<and> (distinct (map fst lvls) \<longrightarrow> reports cs (map_of a) (map_of a'))"
  using assms
proof (induction lvls arbitrary: V a m' a' cs)
  case Nil
  then show ?case by (auto simp del: fun_upd_apply)
next
  case (Cons x rest)
  obtain p s where x: "x = (p, s)" by force
  obtain m1 a1 c1 where 1: "apply_level lt (V v) a p s = (m1, a1, c1)" by (metis prod_cases3)
  obtain c2 where 2: "apply_levels lt m1 a1 rest = (m', a', c2)" and cs: "cs = c1 @ c2"
    using Cons.prems(3) x 1 by (auto simp: Let_def split: prod.splits)
  have s: "0 < p" "0 \<le> s" "s \<le> venue_size_limit" and rest: "levels_in_range rest"
    using Cons.prems(2) x by (simp_all add: levels_in_range_def)
  note step = apply_level_ok [OF Cons.prems(1) s 1]
  have IH: "side_ok lt (V(v := m')) a' \<and> map_of m' = replay rest (map_of m1)
      \<and> map_of a' = replay c2 (map_of a1) \<and> fst ` set c2 \<subseteq> fst ` set rest
      \<and> (distinct (map fst rest) \<longrightarrow> reports c2 (map_of a1) (map_of a'))"
    using Cons.IH [of "V(v := m1)" a1 m' a' c2, unfolded fun_upd_same fun_upd_upd] step(1) rest 2
    by blast
  have "reports cs (map_of a) (map_of a')" if "distinct (map fst (x # rest))"
    unfolding cs
  proof (rule reports_append [OF step(3)])
    from that have "distinct (map fst rest)" by simp
    with IH show "reports c2 (map_of a1) (map_of a')" by blast
    from that x have "p \<notin> fst ` set rest" by simp
    with IH step(4) show "fst ` set c1 \<inter> fst ` set c2 = {}" by blast
  qed
  moreover have "map_of a1 = replay c1 (map_of a)" using step(3) by (simp add: reports_def)
  moreover have "fst ` set cs \<subseteq> fst ` set (x # rest)" using IH step(4) x cs by auto
  ultimately show ?case using IH step(2) x cs by (simp del: fun_upd_apply)
qed

lemma removal_ok:
  assumes ok: "side_ok lt (V(v := pre @ (p, s) # rest)) a" (is "side_ok lt (V(v := ?m)) a")
    and adj: "adjust_aggregate lt a p (fp_sub 0 s) = (a1, r)"
  shows "side_ok lt (V(v := pre @ rest)) a1"
    and "reports (sink_calls p r) (map_of a) (map_of a1)"
    and "fst ` set (sink_calls p r) \<subseteq> {p}"
proof -
  have wf: "om_wf lt ?m" using side_ok_wf [OF ok, of v] by simp
  have pre: "p \<notin> fst ` set pre" "p \<notin> fst ` set rest" using wf_distinct [OF wf] by auto
  then have look: "map_of (pre @ rest) = put_level p 0 (map_of ?m)"
    by (simp add: put_level_def fun_eq_iff map_add_def map_of_eq_None_iff [symmetric]
        split: option.split)
  have at: "map_of ?m p = Some s"
    using pre(1) by (simp add: map_add_def map_of_eq_None_iff [symmetric])
  then have lv: "level_at ?m p = s" by (simp add: level_at_def)
  have "0 < p" using side_ok_price [OF ok, of v p s] at by simp
  moreover have "om_wf lt (pre @ rest)" using wf by (auto simp: om_wf_def sorted_wrt_append)
  ultimately show "side_ok lt (V(v := pre @ rest)) a1"
    "reports (sink_calls p r) (map_of a) (map_of a1)" "fst ` set (sink_calls p r) \<subseteq> {p}"
    using shift_ok [OF ok _ look, of a1 r] adj lv
    by (simp_all add: venue_size_limit_def i64_max_def)
qed

lemma resync_removals_ok:
  assumes "side_ok lt (V(v := pre @ todo)) a"
    "resync_removals lt nl todo a = (kept, a', cs)"
  shows "side_ok lt (V(v := pre @ kept)) a'
    \<and> kept = filter (\<lambda>(p, s). map_of nl p \<noteq> None) todo
    \<and> reports cs (map_of a) (map_of a')
    \<and> fst ` set cs \<subseteq> {p \<in> fst ` set todo. map_of nl p = None}"
  using assms
proof (induction todo arbitrary: pre a kept a' cs)
  case Nil
  then show ?case by (simp del: fun_upd_apply)
next
  case (Cons x rest)
  obtain p s where x: "x = (p, s)" by force
  have ok: "side_ok lt (V(v := pre @ (p, s) # rest)) a" using Cons.prems(1) unfolding x .
  show ?case
  proof (cases "map_of nl p")
    case (Some y)
    then obtain k where "resync_removals lt nl rest a = (k, a', cs)" "kept = (p, s) # k"
      using Cons.prems(2) x by (auto simp: Let_def split: prod.splits)
    with Cons.IH [of "pre @ [(p, s)]" a k a' cs] ok x Some show ?thesis
      by (auto simp del: fun_upd_apply)
  next
    case None
    obtain a1 r c2 where adj: "adjust_aggregate lt a p (fp_sub 0 s) = (a1, r)"
      and rest: "resync_removals lt nl rest a1 = (kept, a', c2)" and cs: "cs = sink_calls p r @ c2"
      using Cons.prems(2) x None by (auto simp: Let_def split: prod.splits)
    note step = removal_ok [OF ok adj]
    have pre: "p \<notin> fst ` set rest" using wf_distinct [OF side_ok_wf [OF ok, of v]] by simp
    note IH = Cons.IH [OF step(1) rest]
    have "reports cs (map_of a) (map_of a')"
      unfolding cs
    proof (rule reports_append [OF step(2)])
      from IH show "reports c2 (map_of a1) (map_of a')" by blast
      from IH step(3) pre show "fst ` set (sink_calls p r) \<inter> fst ` set c2 = {}" by blast
    qed
    with IH step(3) x None cs show ?thesis by (auto simp del: fun_upd_apply)
  qed
qed

lemma remove_levels_eq:
  "remove_levels lt a m = (fst (snd (resync_removals lt [] m a)), snd (snd (resync_removals lt [] m a)))"
  by (induction m arbitrary: a) (auto simp: Let_def split: prod.splits)

lemma remove_levels_ok:
  assumes "side_ok lt V a" "remove_levels lt a (V v) = (a', cs)"
  shows "side_ok lt (V(v := [])) a'" and "reports cs (map_of a) (map_of a')"
proof -
  obtain kept where "resync_removals lt [] (V v) a = (kept, a', cs)"
    using assms(2) by (auto simp: remove_levels_eq split: prod.splits)
      (metis prod.collapse)
  with assms(1) resync_removals_ok [of V v "[]" "V v" a "[]" kept a' cs]
  show "side_ok lt (V(v := [])) a'" and "reports cs (map_of a) (map_of a')"
    by (auto simp: filter_empty_conv split: prod.splits)
qed

lemma resync_side_ok:
  assumes ok: "side_ok lt V a" and rng: "levels_in_range lvls"
    and eq: "resync_side lt (V v) a lvls = (m', a', cs)"
  shows "side_ok lt (V(v := m')) a'"
    and "map_of m' = (\<lambda>p. case map_of lvls p of Some s \<Rightarrow> (if s = 0 then None else Some s) | None \<Rightarrow> None)"
    and "reports cs (map_of a) (map_of a')"
proof -
  let ?nl = "om_of_range lt lvls"
  obtain k a1 c1 where rem: "resync_removals lt ?nl (V v) a = (k, a1, c1)" by (metis prod_cases3)
  obtain c2 where app: "apply_levels lt k a1 ?nl = (m', a', c2)" and cs: "cs = c1 @ c2"
    using eq rem by (auto simp: resync_side_def Let_def split: prod.splits)
  have nl: "map_of ?nl = map_of lvls" "distinct (map fst ?nl)"
    by (simp_all add: map_of_of_range wf_distinct wf_of_range)
  have sub: "set ?nl \<subseteq> set lvls"
    using nl by (metis map_of_SomeD map_of_eq_Some_iff subrelI)
  then have rng': "levels_in_range ?nl" using rng by (auto simp: levels_in_range_def list_all_iff)
  note R = resync_removals_ok [of V v "[]" "V v" a ?nl k a1 c1, simplified, OF ok rem]
  note A = apply_levels_ok [of "V(v := k)" a1 ?nl v m' a' c2, simplified, OF _ rng' app]
  have ok1: "side_ok lt (V(v := k)) a1" using R by blast
  note A = A [OF ok1]
  show "side_ok lt (V(v := m')) a'" using A by blast
  have dom: "p \<in> fst ` set ?nl \<longleftrightarrow> map_of lvls p \<noteq> None" for p
    using map_of_eq_None_iff [of ?nl p] nl(1) by auto
  show "reports cs (map_of a) (map_of a')"
    unfolding cs
  proof (rule reports_append)
    show "reports c1 (map_of a) (map_of a1)" using R by simp
    show "reports c2 (map_of a1) (map_of a')" using A nl(2) by blast
    have "fst ` set c1 \<subseteq> {p. map_of lvls p = None}" using R nl(1) by auto
    moreover have "fst ` set c2 \<subseteq> {p. map_of lvls p \<noteq> None}" using A dom by blast
    ultimately show "fst ` set c1 \<inter> fst ` set c2 = {}" by blast
  qed
  have "map_of m' p = (case map_of lvls p of Some s \<Rightarrow> (if s = 0 then None else Some s) | None \<Rightarrow> None)" for p
  proof (cases "map_of lvls p")
    case None
    then have "replay ?nl (map_of k) p = map_of k p" using dom [of p] by (intro replay_other) simp
    moreover have "map_of k p = None"
    proof -
      have "k = filter (\<lambda>(p, s). map_of lvls p \<noteq> None) (V v)" using R nl(1) by simp
      then have "p \<notin> fst ` set k" using None by auto
      then show ?thesis by (simp add: map_of_eq_None_iff)
    qed
    ultimately show ?thesis using R A None by simp
  next
    case (Some s)
    then have "replay ?nl (map_of k) p = (if s = 0 then None else Some s)"
      using replay_distinct [OF nl(2), of p s] nl(1) by simp
    with R A Some show ?thesis by simp
  qed
  then show "map_of m' = (\<lambda>p. case map_of lvls p of Some s \<Rightarrow> (if s = 0 then None else Some s) | None \<Rightarrow> None)"
    by (rule ext)
qed

end

interpretation ask_side: book_side "(<) :: int \<Rightarrow> int \<Rightarrow> bool"
  by unfold_locales

interpretation bid_side: book_side "(>) :: int \<Rightarrow> int \<Rightarrow> bool"
  by unfold_locales

section \<open>The invariant of the aggregate\<close>

definition agg_inv :: "aggregate_order_book \<Rightarrow> bool" where
  "agg_inv b \<longleftrightarrow>
     side_ok (>) (\<lambda>v. bids (venue_book b v)) (bids (aggregate b))
     \<and> side_ok (<) (\<lambda>v. asks (venue_book b v)) (asks (aggregate b))"

text \<open>What the operations are given: valid levels below the size limit.\<close>

definition sizes_in_range :: "levels \<Rightarrow> bool" where
  "sizes_in_range lvls \<longleftrightarrow> list_all (\<lambda>(p, s). s \<le> venue_size_limit) lvls"

lemma levels_in_range_iff: "levels_in_range lvls \<longleftrightarrow> all_valid lvls \<and> sizes_in_range lvls"
  by (auto simp: levels_in_range_def all_valid_def sizes_in_range_def is_valid_level_def list_all_iff)

lemma side_ok_empty: "side_ok lt (\<lambda>v. []) []"
  by (simp add: side_ok_def positive_sizes_def level_at_def)

lemma agg_inv_empty: "agg_inv empty_aggregate"
  by (simp add: agg_inv_def venue_book_def empty_aggregate_def empty_book_def side_ok_empty)

lemma venue_book_update:
  "venue_book \<lparr>venues = (venues b)(v \<mapsto> vb), aggregate = x\<rparr> = (venue_book b)(v := vb)"
  by (auto simp: venue_book_def fun_eq_iff)

lemma venue_book_erase:
  "venue_book \<lparr>venues = (venues b)(v := None), aggregate = x\<rparr> = (venue_book b)(v := empty_book)"
  by (auto simp: venue_book_def fun_eq_iff)

lemma side_fun_upd:
  "(\<lambda>w. bids (((venue_book b)(v := vb)) w)) = (\<lambda>w. bids (venue_book b w))(v := bids vb)"
  "(\<lambda>w. asks (((venue_book b)(v := vb)) w)) = (\<lambda>w. asks (venue_book b w))(v := asks vb)"
  by auto

text \<open>The snapshot's levels as a lookup: the first of a repeated price counts, zero is absent.\<close>

definition snapshot_lookup :: "levels \<Rightarrow> (price \<rightharpoonup> size_t)" where
  "snapshot_lookup lvls =
     (\<lambda>p. case map_of lvls p of Some s \<Rightarrow> (if s = 0 then None else Some s) | None \<Rightarrow> None)"

lemma apply_snapshot_error:
  "\<not> (all_valid bs \<and> all_valid as) \<Longrightarrow> apply_snapshot v bs as b = (Inl invalid_argument, b, [], [])"
  by (auto simp: apply_snapshot_def)

lemma apply_batch_error:
  "\<not> (all_valid bs \<and> all_valid as) \<Longrightarrow> apply_batch v bs as b = (Inl invalid_argument, b, [], [])"
  by (auto simp: apply_batch_def)

lemma apply_snapshot_ok:
  assumes inv: "agg_inv b" and valid: "all_valid bs" "all_valid as"
    and rng: "sizes_in_range bs" "sizes_in_range as"
    and eq: "apply_snapshot v bs as b = (r, b', bc, ac)"
  shows "r = Inr ()" "agg_inv b'"
    and "venues b' = (venues b)(v \<mapsto> venue_book b' v)"
    and "map_of (bids (venue_book b' v)) = snapshot_lookup bs"
    and "map_of (asks (venue_book b' v)) = snapshot_lookup as"
    and "reports bc (map_of (bids (aggregate b))) (map_of (bids (aggregate b')))"
    and "reports ac (map_of (asks (aggregate b))) (map_of (asks (aggregate b')))"
proof -
  obtain vbids abids where B: "resync_side (>) (bids (venue_book b v)) (bids (aggregate b)) bs = (vbids, abids, bc)"
    and "r = Inr ()" and bb: "bids (aggregate b') = abids"
    using eq valid by (auto simp: apply_snapshot_def Let_def split: prod.splits)
  obtain vasks aasks where A: "resync_side (<) (asks (venue_book b v)) (asks (aggregate b)) as = (vasks, aasks, ac)"
    and b': "b' = \<lparr>venues = (venues b)(v \<mapsto> \<lparr>asks = vasks, bids = vbids\<rparr>),
      aggregate = \<lparr>asks = aasks, bids = abids\<rparr>\<rparr>"
    using eq valid B by (auto simp: apply_snapshot_def Let_def split: prod.splits)
  have vb: "venue_book b' = (venue_book b)(v := \<lparr>asks = vasks, bids = vbids\<rparr>)"
    by (simp add: b' venue_book_update)
  have lr: "levels_in_range bs" "levels_in_range as" using valid rng by (simp_all add: levels_in_range_iff)
  have ok: "side_ok (>) (\<lambda>v. bids (venue_book b v)) (bids (aggregate b))"
    "side_ok (<) (\<lambda>v. asks (venue_book b v)) (asks (aggregate b))"
    using inv by (simp_all add: agg_inv_def)
  note SB = bid_side.resync_side_ok [OF ok(1) lr(1) B]
  note SA = ask_side.resync_side_ok [OF ok(2) lr(2) A]
  show "r = Inr ()" by fact
  show "agg_inv b'"
    using SB(1) SA(1) unfolding agg_inv_def vb side_fun_upd by (simp add: b')
  show "venues b' = (venues b)(v \<mapsto> venue_book b' v)" by (simp add: b' venue_book_update)
  show "map_of (bids (venue_book b' v)) = snapshot_lookup bs"
    "map_of (asks (venue_book b' v)) = snapshot_lookup as"
    using SB(2) SA(2) by (simp_all add: vb snapshot_lookup_def)
  show "reports bc (map_of (bids (aggregate b))) (map_of (bids (aggregate b')))"
    "reports ac (map_of (asks (aggregate b))) (map_of (asks (aggregate b')))"
    using SB(3) SA(3) by (simp_all add: b')
qed

lemma apply_batch_ok:
  assumes inv: "agg_inv b" and valid: "all_valid bs" "all_valid as"
    and rng: "sizes_in_range bs" "sizes_in_range as"
    and eq: "apply_batch v bs as b = (r, b', bc, ac)"
  shows "r = Inr ()" "agg_inv b'"
    and "venues b' = (venues b)(v \<mapsto> venue_book b' v)"
    and "map_of (bids (venue_book b' v)) = replay bs (map_of (bids (venue_book b v)))"
    and "map_of (asks (venue_book b' v)) = replay as (map_of (asks (venue_book b v)))"
    and "map_of (bids (aggregate b')) = replay bc (map_of (bids (aggregate b)))"
    and "map_of (asks (aggregate b')) = replay ac (map_of (asks (aggregate b)))"
    and "distinct (map fst bs) \<Longrightarrow>
      reports bc (map_of (bids (aggregate b))) (map_of (bids (aggregate b')))"
    and "distinct (map fst as) \<Longrightarrow>
      reports ac (map_of (asks (aggregate b))) (map_of (asks (aggregate b')))"
proof -
  obtain vbids abids where B: "apply_levels (>) (bids (venue_book b v)) (bids (aggregate b)) bs = (vbids, abids, bc)"
    and "r = Inr ()" and bb: "bids (aggregate b') = abids"
    using eq valid by (auto simp: apply_batch_def Let_def split: prod.splits)
  obtain vasks aasks where A: "apply_levels (<) (asks (venue_book b v)) (asks (aggregate b)) as = (vasks, aasks, ac)"
    and b': "b' = \<lparr>venues = (venues b)(v \<mapsto> \<lparr>asks = vasks, bids = vbids\<rparr>),
      aggregate = \<lparr>asks = aasks, bids = abids\<rparr>\<rparr>"
    using eq valid B by (auto simp: apply_batch_def Let_def split: prod.splits)
  have vb: "venue_book b' = (venue_book b)(v := \<lparr>asks = vasks, bids = vbids\<rparr>)"
    by (simp add: b' venue_book_update)
  have lr: "levels_in_range bs" "levels_in_range as" using valid rng by (simp_all add: levels_in_range_iff)
  have ok: "side_ok (>) (\<lambda>v. bids (venue_book b v)) (bids (aggregate b))"
    "side_ok (<) (\<lambda>v. asks (venue_book b v)) (asks (aggregate b))"
    using inv by (simp_all add: agg_inv_def)
  note SB = bid_side.apply_levels_ok [OF ok(1) lr(1) B]
  note SA = ask_side.apply_levels_ok [OF ok(2) lr(2) A]
  show "r = Inr ()" by fact
  show "agg_inv b'"
    using SB SA unfolding agg_inv_def vb side_fun_upd by (simp add: b')
  show "venues b' = (venues b)(v \<mapsto> venue_book b' v)" by (simp add: b' venue_book_update)
  show "map_of (bids (venue_book b' v)) = replay bs (map_of (bids (venue_book b v)))"
    "map_of (asks (venue_book b' v)) = replay as (map_of (asks (venue_book b v)))"
    using SB SA by (simp_all add: vb)
  show "map_of (bids (aggregate b')) = replay bc (map_of (bids (aggregate b)))"
    "map_of (asks (aggregate b')) = replay ac (map_of (asks (aggregate b)))"
    using SB SA unfolding b' by simp_all
  show "distinct (map fst bs) \<Longrightarrow>
      reports bc (map_of (bids (aggregate b))) (map_of (bids (aggregate b')))"
    "distinct (map fst as) \<Longrightarrow>
      reports ac (map_of (asks (aggregate b))) (map_of (asks (aggregate b')))"
    using SB SA unfolding b' l2_order_book.simps aggregate_order_book.simps by blast+
qed

lemma invalidate_venue_ok:
  assumes inv: "agg_inv b" and eq: "invalidate_venue v b = (b', bc, ac)"
  shows "agg_inv b'" and "venues b' = (venues b)(v := None)"
    and "reports bc (map_of (bids (aggregate b))) (map_of (bids (aggregate b')))"
    and "reports ac (map_of (asks (aggregate b))) (map_of (asks (aggregate b')))"
proof -
  have "agg_inv b' \<and> venues b' = (venues b)(v := None)
    \<and> reports bc (map_of (bids (aggregate b))) (map_of (bids (aggregate b')))
    \<and> reports ac (map_of (asks (aggregate b))) (map_of (asks (aggregate b')))"
  proof (cases "venues b v")
    case None
    then have "(venues b)(v := None) = venues b" by (simp add: fun_upd_idem)
    with None inv eq show ?thesis by (simp add: invalidate_venue_def)
  next
    case (Some vb)
    then have vb: "venue_book b v = vb" by (simp add: venue_book_def)
    obtain abids aasks where B: "remove_levels (>) (bids (aggregate b)) (bids vb) = (abids, bc)"
      and A: "remove_levels (<) (asks (aggregate b)) (asks vb) = (aasks, ac)"
      and b': "b' = \<lparr>venues = (venues b)(v := None), aggregate = \<lparr>asks = aasks, bids = abids\<rparr>\<rparr>"
      using eq Some by (auto simp: invalidate_venue_def Let_def split: prod.splits)
    have ok: "side_ok (>) (\<lambda>v. bids (venue_book b v)) (bids (aggregate b))"
      "side_ok (<) (\<lambda>v. asks (venue_book b v)) (asks (aggregate b))"
      using inv by (simp_all add: agg_inv_def)
    note SB = bid_side.remove_levels_ok [OF ok(1), of v abids bc, unfolded vb, OF B]
    note SA = ask_side.remove_levels_ok [OF ok(2), of v aasks ac, unfolded vb, OF A]
    have vb': "venue_book b' = (venue_book b)(v := empty_book)" by (simp add: b' venue_book_erase)
    have "agg_inv b'"
      using SB(1) SA(1) unfolding agg_inv_def vb' side_fun_upd by (simp add: b' empty_book_def)
    with SB(2) SA(2) show ?thesis by (simp add: b')
  qed
  then show "agg_inv b'" and "venues b' = (venues b)(v := None)"
    and "reports bc (map_of (bids (aggregate b))) (map_of (bids (aggregate b')))"
    and "reports ac (map_of (asks (aggregate b))) (map_of (asks (aggregate b')))" by blast+
qed

section \<open>Histories of operations\<close>

datatype book_op =
    OpSnapshot venue_id levels levels
  | OpBatch venue_id levels levels
  | OpInvalidate venue_id

fun apply_op :: "aggregate_order_book \<Rightarrow> book_op \<Rightarrow> aggregate_order_book" where
  "apply_op b (OpSnapshot v bs as) = fst (snd (apply_snapshot v bs as b))"
| "apply_op b (OpBatch v bs as) = fst (snd (apply_batch v bs as b))"
| "apply_op b (OpInvalidate v) = fst (invalidate_venue v b)"

definition run_ops :: "book_op list \<Rightarrow> aggregate_order_book" where
  "run_ops ops = foldl apply_op empty_aggregate ops"

fun op_sizes_in_range :: "book_op \<Rightarrow> bool" where
  "op_sizes_in_range (OpSnapshot v bs as) \<longleftrightarrow> sizes_in_range bs \<and> sizes_in_range as"
| "op_sizes_in_range (OpBatch v bs as) \<longleftrightarrow> sizes_in_range bs \<and> sizes_in_range as"
| "op_sizes_in_range (OpInvalidate v) \<longleftrightarrow> True"

lemma agg_inv_apply_op:
  assumes "agg_inv b" "op_sizes_in_range op"
  shows "agg_inv (apply_op b op)"
proof (cases op)
  case (OpSnapshot v bs as)
  obtain r b' bc ac where eq: "apply_snapshot v bs as b = (r, b', bc, ac)" by (metis prod_cases4)
  with assms OpSnapshot show ?thesis
    using apply_snapshot_ok(2) [OF assms(1) _ _ _ _ eq] apply_snapshot_error [of bs as v b]
    by (cases "all_valid bs \<and> all_valid as") auto
next
  case (OpBatch v bs as)
  obtain r b' bc ac where eq: "apply_batch v bs as b = (r, b', bc, ac)" by (metis prod_cases4)
  with assms OpBatch show ?thesis
    using apply_batch_ok(2) [OF assms(1) _ _ _ _ eq] apply_batch_error [of bs as v b]
    by (cases "all_valid bs \<and> all_valid as") auto
next
  case (OpInvalidate v)
  with assms invalidate_venue_ok(1) [OF assms(1), of v] show ?thesis
    by (cases "invalidate_venue v b") auto
qed

lemma agg_inv_run_ops:
  assumes "list_all op_sizes_in_range ops"
  shows "agg_inv (run_ops ops)"
proof -
  have "agg_inv b \<Longrightarrow> agg_inv (foldl apply_op b ops)" for b
    using assms by (induction ops arbitrary: b) (auto simp: agg_inv_apply_op)
  then show ?thesis using agg_inv_empty by (simp add: run_ops_def)
qed

lemma side_ok_sum:
  assumes "side_ok lt V a"
  shows "map_of a p = (let total = \<Sum>v\<in>UNIV. level_at (V v) p in if total = 0 then None else Some total)"
proof -
  have "level_at a p = (\<Sum>v\<in>UNIV. level_at (V v) p)" and "positive_sizes a"
    using assms by (simp_all add: side_ok_def)
  moreover have "map_of a p = (if level_at a p = 0 then None else Some (level_at a p))"
  proof (cases "map_of a p")
    case (Some s)
    with \<open>positive_sizes a\<close> have "s \<noteq> 0" by (metis less_irrefl positive_sizes_def)
    with Some show ?thesis by (simp add: level_at_def)
  qed (simp add: level_at_def)
  ultimately show ?thesis by (simp add: Let_def)
qed

text \<open>
  C7. The aggregate is the sum of the venues. After any history of snapshots, batches and
  invalidations, accepted or rejected, in any order and over any venues, as long as no single
  level is larger than a sixth of the 64-bit range, the aggregate lists at every price exactly the
  total of what the venues hold there, omits the prices where nobody holds anything, and is sorted
  best price first on both sides.
\<close>

theorem aggregate_is_sum_of_venues:
  assumes "list_all op_sizes_in_range ops"
  shows "let b = run_ops ops in
    (\<forall>p. map_of (bids (aggregate b)) p =
       (let total = \<Sum>v\<in>UNIV. level_at (bids (venue_book b v)) p
        in if total = 0 then None else Some total))
    \<and> (\<forall>p. map_of (asks (aggregate b)) p =
       (let total = \<Sum>v\<in>UNIV. level_at (asks (venue_book b v)) p
        in if total = 0 then None else Some total))
    \<and> om_wf (>) (bids (aggregate b)) \<and> om_wf (<) (asks (aggregate b))"
proof -
  have "agg_inv (run_ops ops)" by (rule agg_inv_run_ops [OF assms])
  then have ok: "side_ok (>) (\<lambda>v. bids (venue_book (run_ops ops) v)) (bids (aggregate (run_ops ops)))"
    "side_ok (<) (\<lambda>v. asks (venue_book (run_ops ops) v)) (asks (aggregate (run_ops ops)))"
    by (simp_all add: agg_inv_def)
  with side_ok_sum [OF ok(1)] side_ok_sum [OF ok(2)] show ?thesis
    by (simp add: Let_def side_ok_def)
qed

definition sample_ops :: "book_op list" where
  "sample_ops = [OpSnapshot (VenueId Binance Spot) [(100, 5), (99, 7)] [(101, 3)],
     OpBatch (VenueId Okx Spot) [(100, 2)] [(101, 1), (102, 4)],
     OpBatch (VenueId Okx Spot) [(- 1, 2)] [],
     OpInvalidate (VenueId Binance Spot)]"

theorem aggregate_is_sum_of_venues_witness:
  "list_all op_sizes_in_range sample_ops
   \<and> map_of (bids (aggregate (run_ops sample_ops))) 100 =
       (let total = \<Sum>v\<in>UNIV. level_at (bids (venue_book (run_ops sample_ops) v)) 100
        in if total = 0 then None else Some total)"
proof -
  have rng: "list_all op_sizes_in_range sample_ops"
    by (simp add: sample_ops_def sizes_in_range_def venue_size_limit_def i64_max_def)
  from aggregate_is_sum_of_venues [OF this] rng show ?thesis by (simp add: Let_def)
qed

text \<open>
  A snapshot replaces the venue's book and nothing else. A bad level on either side rejects
  the snapshot and leaves the whole state alone; otherwise the venue holds exactly the snapshot's
  levels (zero sizes dropped, the first of a repeated price kept), every other venue is untouched,
  and the sinks are told every price whose aggregate size changed, each once and with its new
  size, and no other price.
\<close>

lemma apply_snapshot_replaces_book:
  assumes "agg_inv b" "sizes_in_range bs" "sizes_in_range as"
    "apply_snapshot v bs as b = (r, b', bid_calls, ask_calls)"
  shows "if all_valid bs \<and> all_valid as then
      r = Inr () \<and> agg_inv b' \<and> venues b' = (venues b)(v \<mapsto> venue_book b' v)
      \<and> map_of (bids (venue_book b' v)) = snapshot_lookup bs
      \<and> map_of (asks (venue_book b' v)) = snapshot_lookup as
      \<and> reports bid_calls (map_of (bids (aggregate b))) (map_of (bids (aggregate b')))
      \<and> reports ask_calls (map_of (asks (aggregate b))) (map_of (asks (aggregate b')))
    else r = Inl invalid_argument \<and> b' = b \<and> bid_calls = [] \<and> ask_calls = []"
  using apply_snapshot_ok [OF assms(1) _ _ assms(2,3,4)] apply_snapshot_error [of bs as v b] assms(4)
  by (cases "all_valid bs \<and> all_valid as") auto

text \<open>
  A batch is applied as one unit: a bad level anywhere rejects all of it and changes nothing;
  otherwise the venue's book is the old one overwritten level by level in order, the other venues
  are untouched, replaying the sink calls on the old aggregate gives the new one, and when no
  price repeats within a side the sinks report exactly the changed prices.
\<close>

lemma apply_batch_applies_all_or_nothing:
  assumes "agg_inv b" "sizes_in_range bs" "sizes_in_range as"
    "apply_batch v bs as b = (r, b', bid_calls, ask_calls)"
  shows "if all_valid bs \<and> all_valid as then
      r = Inr () \<and> agg_inv b' \<and> venues b' = (venues b)(v \<mapsto> venue_book b' v)
      \<and> map_of (bids (venue_book b' v)) = replay bs (map_of (bids (venue_book b v)))
      \<and> map_of (asks (venue_book b' v)) = replay as (map_of (asks (venue_book b v)))
      \<and> map_of (bids (aggregate b')) = replay bid_calls (map_of (bids (aggregate b)))
      \<and> map_of (asks (aggregate b')) = replay ask_calls (map_of (asks (aggregate b)))
      \<and> (distinct (map fst bs) \<longrightarrow>
           reports bid_calls (map_of (bids (aggregate b))) (map_of (bids (aggregate b'))))
      \<and> (distinct (map fst as) \<longrightarrow>
           reports ask_calls (map_of (asks (aggregate b))) (map_of (asks (aggregate b'))))
    else r = Inl invalid_argument \<and> b' = b \<and> bid_calls = [] \<and> ask_calls = []"
proof (cases "all_valid bs \<and> all_valid as")
  case True
  with apply_batch_ok [OF assms(1) _ _ assms(2,3,4)] show ?thesis by simp
next
  case False
  with apply_batch_error [of bs as v b] assms(4) show ?thesis by auto
qed

text \<open>
  C23. A call is applied as one unit. A bad level on either side rejects a snapshot or a batch and
  leaves the whole state alone. Otherwise the other venues are untouched, and after a snapshot the
  venue holds exactly its levels (zero sizes dropped, the first of a repeated price kept), after a
  batch its old book overwritten level by level in order. The sinks of a snapshot are told every price
  whose aggregate size changed, once and with its new size, and no other price, and so are those of a
  batch in which no price repeats; replaying the calls of any batch on the old aggregate gives the new.
\<close>

theorem calls_are_applied_as_one:
  assumes "agg_inv b" "sizes_in_range bs" "sizes_in_range as"
    "apply_snapshot v bs as b = (r, b', bid_calls, ask_calls)"
    "apply_batch v bs as b = (r2, b2, bid_calls2, ask_calls2)"
  shows "if all_valid bs \<and> all_valid as then
      r = Inr () \<and> agg_inv b' \<and> venues b' = (venues b)(v \<mapsto> venue_book b' v)
      \<and> map_of (bids (venue_book b' v)) = snapshot_lookup bs
      \<and> map_of (asks (venue_book b' v)) = snapshot_lookup as
      \<and> reports bid_calls (map_of (bids (aggregate b))) (map_of (bids (aggregate b')))
      \<and> reports ask_calls (map_of (asks (aggregate b))) (map_of (asks (aggregate b')))
      \<and> r2 = Inr () \<and> agg_inv b2 \<and> venues b2 = (venues b)(v \<mapsto> venue_book b2 v)
      \<and> map_of (bids (venue_book b2 v)) = replay bs (map_of (bids (venue_book b v)))
      \<and> map_of (asks (venue_book b2 v)) = replay as (map_of (asks (venue_book b v)))
      \<and> map_of (bids (aggregate b2)) = replay bid_calls2 (map_of (bids (aggregate b)))
      \<and> map_of (asks (aggregate b2)) = replay ask_calls2 (map_of (asks (aggregate b)))
      \<and> (distinct (map fst bs) \<longrightarrow>
           reports bid_calls2 (map_of (bids (aggregate b))) (map_of (bids (aggregate b2))))
      \<and> (distinct (map fst as) \<longrightarrow>
           reports ask_calls2 (map_of (asks (aggregate b))) (map_of (asks (aggregate b2))))
    else (r, b', bid_calls, ask_calls) = (Inl invalid_argument, b, [], [])
      \<and> (r2, b2, bid_calls2, ask_calls2) = (Inl invalid_argument, b, [], [])"
proof (cases "all_valid bs \<and> all_valid as")
  case True
  show ?thesis
    using apply_snapshot_replaces_book [OF assms(1-4)] apply_batch_applies_all_or_nothing [OF assms(1-3,5)]
    unfolding if_P [OF True] by - (elim conjE, intro conjI; assumption)
next
  case False
  show ?thesis
    using apply_snapshot_replaces_book [OF assms(1-4)] apply_batch_applies_all_or_nothing [OF assms(1-3,5)]
    unfolding if_not_P [OF False] by simp
qed

theorem calls_are_applied_as_one_witness:
  "let (r, b', bc, ac) = apply_snapshot (VenueId Okx Perp) [(100, 5), (99, 0)] [(101, 3)] empty_aggregate;
       (r2, b2, bc2, ac2) = apply_batch (VenueId Okx Perp) [(100, 5), (99, 0)] [(101, 3)] empty_aggregate
   in r = Inr () \<and> agg_inv b' \<and> reports bc Map.empty (map_of (bids (aggregate b')))
      \<and> map_of (bids (venue_book b' (VenueId Okx Perp))) = [100 \<mapsto> 5]
      \<and> r2 = Inr () \<and> agg_inv b2 \<and> map_of (bids (aggregate b2)) = replay bc2 Map.empty
      \<and> map_of (asks (venue_book b2 (VenueId Okx Perp))) = [101 \<mapsto> 3]"
proof -
  let ?bs = "[(100, 5), (99, 0)] :: (int \<times> int) list" and ?as = "[(101, 3)] :: (int \<times> int) list"
  obtain r b' bc ac where
    eq: "apply_snapshot (VenueId Okx Perp) ?bs ?as empty_aggregate = (r, b', bc, ac)"
    by (metis prod_cases4)
  obtain r2 b2 bc2 ac2 where
    eq2: "apply_batch (VenueId Okx Perp) ?bs ?as empty_aggregate = (r2, b2, bc2, ac2)"
    by (metis prod_cases4)
  have "sizes_in_range ?bs" "sizes_in_range ?as"
    by (simp_all add: sizes_in_range_def venue_size_limit_def i64_max_def)
  note applied = calls_are_applied_as_one [OF agg_inv_empty this eq eq2]
  have "all_valid ?bs \<and> all_valid ?as" by (simp add: all_valid_def is_valid_level_def)
  note applied = applied [unfolded if_P [OF this]]
  have empty: "aggregate empty_aggregate = empty_book" "venue_book empty_aggregate (VenueId Okx Perp) = empty_book"
    by (simp_all add: empty_aggregate_def venue_book_def)
  have "snapshot_lookup ?bs = [100 \<mapsto> 5]" by (simp add: snapshot_lookup_def fun_eq_iff)
  moreover have "replay ?as (map_of (asks empty_book)) = [101 \<mapsto> 3]" by (simp add: put_level_def empty_book_def)
  moreover have "map_of (bids empty_book) = Map.empty" by (simp add: empty_book_def)
  ultimately show ?thesis using applied unfolding eq eq2 empty Let_def prod.case by - (elim conjE, intro conjI; simp)
qed

text \<open>
  Invalidating a venue withdraws it completely: its book is gone, the other venues keep
  theirs, the aggregate is again the sum of what is left, and the sinks are told exactly the
  prices whose aggregate size changed; for an unknown venue nothing happens.
\<close>

lemma invalidate_venue_withdraws:
  assumes "agg_inv b" "invalidate_venue v b = (b', bid_calls, ask_calls)"
  shows "agg_inv b' \<and> venues b' = (venues b)(v := None)
    \<and> reports bid_calls (map_of (bids (aggregate b))) (map_of (bids (aggregate b')))
    \<and> reports ask_calls (map_of (asks (aggregate b))) (map_of (asks (aggregate b')))
    \<and> (venues b v = None \<longrightarrow> b' = b \<and> bid_calls = [] \<and> ask_calls = [])"
proof -
  have "venues b v = None \<Longrightarrow> b' = b \<and> bid_calls = [] \<and> ask_calls = []"
    using assms(2) by (simp add: invalidate_venue_def)
  with invalidate_venue_ok [OF assms] show ?thesis by blast
qed

end
