(* ===== verification/Subscriber_Queue.thy ===== *)
theory Subscriber_Queue
  imports Prelude
begin

text \<open>
  \<^verbatim>\<open>SubscriberQueue\<close> and \<^verbatim>\<open>Fanout\<close> of \<^verbatim>\<open>aggregator_service.hpp\<close>: the bounded
  mailbox of one subscriber and the set of mailboxes a broadcast pushes into. Each method runs
  under one lock, so it is one atomic operation; \<^verbatim>\<open>wait_and_drain\<close> is what it does once its
  wait is over, whether by a wake-up or by its timeout. A queue's address is a number.
\<close>

section \<open>The code: one mailbox\<close>

datatype overflow_policy = Close | DropOldest

datatype push_result = Pushed | ClosedNow | AlreadyClosed

datatype drain_result = TimedOut | Drained | Closed

record 'a subscriber_queue =
  q_entries :: "'a list"
  q_capacity :: nat
  q_policy :: overflow_policy
  q_closed :: bool
  q_bootstrapping :: bool

definition new_queue :: "nat \<Rightarrow> overflow_policy \<Rightarrow> 'a subscriber_queue" where
  "new_queue capacity policy =
     \<lparr>q_entries = [], q_capacity = capacity, q_policy = policy, q_closed = False,
      q_bootstrapping = True\<rparr>"

definition kBootstrapCapacityMultiplier :: nat where
  "kBootstrapCapacityMultiplier = 4"

definition effective_capacity :: "'a subscriber_queue \<Rightarrow> nat" where
  "effective_capacity q =
     (if q_bootstrapping q then q_capacity q * kBootstrapCapacityMultiplier else q_capacity q)"

definition push_or_close :: "'a \<Rightarrow> 'a subscriber_queue \<Rightarrow> push_result \<times> 'a subscriber_queue" where
  "push_or_close update q =
     (if q_closed q then (AlreadyClosed, q)
      else if length (q_entries q) \<ge> effective_capacity q then
        (if q_policy q = Close then (ClosedNow, q\<lparr>q_closed := True, q_entries := []\<rparr>)
         else (Pushed, q\<lparr>q_entries := tl (q_entries q) @ [update]\<rparr>))
      else (Pushed, q\<lparr>q_entries := q_entries q @ [update]\<rparr>))"

definition end_bootstrap :: "'a subscriber_queue \<Rightarrow> 'a subscriber_queue" where
  "end_bootstrap q = q\<lparr>q_bootstrapping := False\<rparr>"

definition wait_and_drain ::
  "'a subscriber_queue \<Rightarrow> drain_result \<times> 'a list \<times> 'a subscriber_queue" where
  "wait_and_drain q =
     (if q_closed q then (Closed, [], q)
      else if q_entries q = [] then (TimedOut, [], q)
      else (Drained, q_entries q, q\<lparr>q_entries := []\<rparr>))"

section \<open>The code: the mailboxes of one stream\<close>

record 'a fanout =
  subscribers :: "(nat \<times> 'a subscriber_queue) list"
  f_capacity :: nat
  f_policy :: overflow_policy

definition new_fanout :: "nat \<Rightarrow> overflow_policy \<Rightarrow> 'a fanout" where
  "new_fanout capacity policy = \<lparr>subscribers = [], f_capacity = capacity, f_policy = policy\<rparr>"

text \<open>\<^verbatim>\<open>make_shared\<close> picks the address, one no live queue has.\<close>

definition fanout_subscribe :: "nat \<Rightarrow> 'a fanout \<Rightarrow> 'a fanout" where
  "fanout_subscribe addr f =
     f\<lparr>subscribers := subscribers f @ [(addr, new_queue (f_capacity f) (f_policy f))]\<rparr>"

definition fanout_unsubscribe :: "nat \<Rightarrow> 'a fanout \<Rightarrow> 'a fanout" where
  "fanout_unsubscribe addr f =
     f\<lparr>subscribers := filter (\<lambda>(a, q). a \<noteq> addr) (subscribers f)\<rparr>"

text \<open>\<^verbatim>\<open>broadcast\<close> returns the queues to wake.\<close>

definition broadcast :: "'a \<Rightarrow> 'a fanout \<Rightarrow> nat list \<times> 'a fanout" where
  "broadcast update f =
     ([a. (a, q) \<leftarrow> subscribers f, fst (push_or_close update q) \<noteq> AlreadyClosed],
      f\<lparr>subscribers := map (\<lambda>(a, q). (a, snd (push_or_close update q))) (subscribers f)\<rparr>)"

text \<open>A queue the handler thread holds, found by its address.\<close>

definition queue_at :: "nat \<Rightarrow> 'a fanout \<Rightarrow> 'a subscriber_queue option" where
  "queue_at a f = map_of (subscribers f) a"

definition update_queue ::
  "nat \<Rightarrow> ('a subscriber_queue \<Rightarrow> 'a subscriber_queue) \<Rightarrow> 'a fanout \<Rightarrow> 'a fanout" where
  "update_queue a g f =
     f\<lparr>subscribers := map (\<lambda>(b, q). (b, if b = a then g q else q)) (subscribers f)\<rparr>"

section \<open>What a mailbox keeps\<close>

definition queue_ok :: "'a subscriber_queue \<Rightarrow> bool" where
  "queue_ok q \<longleftrightarrow>
     0 < q_capacity q
     \<and> length (q_entries q) \<le> q_capacity q * kBootstrapCapacityMultiplier
     \<and> (q_closed q \<longrightarrow> q_entries q = [] \<and> q_policy q = Close)"

lemma push_queue_ok: "queue_ok q \<Longrightarrow> queue_ok (snd (push_or_close x q))"
  by (cases "q_policy q"; cases "q_entries q")
    (auto simp: queue_ok_def push_or_close_def effective_capacity_def
      kBootstrapCapacityMultiplier_def)

lemma queue_at_broadcast:
  "queue_at a (snd (broadcast x f)) = map_option (\<lambda>q. snd (push_or_close x q)) (queue_at a f)"
proof -
  have "map_of (map (\<lambda>(a, q). (a, snd (push_or_close x q))) qs) a
      = map_option (\<lambda>q. snd (push_or_close x q)) (map_of qs a)" for qs
    by (induction qs) auto
  then show ?thesis by (simp add: queue_at_def broadcast_def)
qed

lemma queue_at_update:
  "queue_at b (update_queue a g f) = map_option (\<lambda>q. if b = a then g q else q) (queue_at b f)"
proof -
  have "map_of (map (\<lambda>(b, q). (b, if b = a then g q else q)) qs) b
      = map_option (\<lambda>q. if b = a then g q else q) (map_of qs b)" for qs
    by (induction qs) auto
  then show ?thesis by (simp add: queue_at_def update_queue_def)
qed

lemma queue_at_subscribe:
  "queue_at addr f = None \<Longrightarrow>
   queue_at b (fanout_subscribe addr f) =
     (if b = addr then Some (new_queue (f_capacity f) (f_policy f)) else queue_at b f)"
  by (simp add: queue_at_def fanout_subscribe_def map_add_def split: option.split)

lemma queue_at_unsubscribe:
  "queue_at b (fanout_unsubscribe addr f) = (if b = addr then None else queue_at b f)"
  by (simp add: queue_at_def fanout_unsubscribe_def map_of_filter_neq)

lemma fanout_policy [simp]:
  "f_policy (fanout_subscribe b f) = f_policy f" "f_policy (fanout_unsubscribe b f) = f_policy f"
  "f_policy (update_queue b g f) = f_policy f" "f_policy (snd (broadcast x f)) = f_policy f"
  by (simp_all add: fanout_subscribe_def fanout_unsubscribe_def update_queue_def broadcast_def)

text \<open>A series of pushes, the results forgotten.\<close>

definition push_all :: "'a list \<Rightarrow> 'a subscriber_queue \<Rightarrow> 'a subscriber_queue" where
  "push_all xs q = foldl (\<lambda>q x. snd (push_or_close x q)) q xs"

lemma push_all_Nil [simp]: "push_all [] q = q"
  by (simp add: push_all_def)

lemma push_all_Cons [simp]: "push_all (x # xs) q = push_all xs (snd (push_or_close x q))"
  by (simp add: push_all_def)

lemma push_all_append: "push_all (xs @ ys) q = push_all ys (push_all xs q)"
  by (simp add: push_all_def)

lemma push_all_closed: "q_closed q \<Longrightarrow> push_all xs q = q"
  by (induction xs) (simp_all add: push_or_close_def)

lemma push_all_fixed:
  "q_capacity (push_all xs q) = q_capacity q" "q_policy (push_all xs q) = q_policy q"
  "q_bootstrapping (push_all xs q) = q_bootstrapping q"
  by (induction xs arbitrary: q) (simp_all add: push_or_close_def)

lemma push_all_Close:
  assumes "q_policy q = Close" "\<not> q_closed q"
  shows "if length (q_entries q) + length xs \<le> effective_capacity q \<or> xs = []
    then push_all xs q = q\<lparr>q_entries := q_entries q @ xs\<rparr>
    else push_all xs q = q\<lparr>q_closed := True, q_entries := []\<rparr>"
  using assms
proof (induction xs arbitrary: q)
  case Nil
  then show ?case by simp
next
  case (Cons x xs)
  show ?case
  proof (cases "length (q_entries q) \<ge> effective_capacity q")
    case True
    with Cons.prems show ?thesis by (auto simp: push_or_close_def push_all_closed)
  next
    case False
    define q' where "q' = q\<lparr>q_entries := q_entries q @ [x]\<rparr>"
    have push: "snd (push_or_close x q) = q'"
      using False Cons.prems by (simp add: push_or_close_def q'_def)
    have "effective_capacity q' = effective_capacity q" "q_policy q' = Close" "\<not> q_closed q'"
      using Cons.prems by (simp_all add: q'_def effective_capacity_def)
    with Cons.IH [of q'] False show ?thesis by (cases "xs = []") (auto simp: push q'_def)
  qed
qed

lemma push_all_DropOldest:
  assumes "q_policy q = DropOldest" "\<not> q_closed q" "0 < effective_capacity q"
    "length (q_entries q) \<le> effective_capacity q"
  shows "push_all xs q =
    q\<lparr>q_entries := drop (length (q_entries q @ xs) - effective_capacity q) (q_entries q @ xs)\<rparr>"
  using assms
proof (induction xs arbitrary: q)
  case Nil
  then show ?case by simp
next
  case (Cons x xs)
  define e where "e = drop (Suc (length (q_entries q)) - effective_capacity q) (q_entries q @ [x])"
  have push: "snd (push_or_close x q) = q\<lparr>q_entries := e\<rparr>"
  proof (cases "length (q_entries q) \<ge> effective_capacity q")
    case True
    with Cons.prems have "length (q_entries q) = effective_capacity q" "q_entries q \<noteq> []" by auto
    with True Cons.prems show ?thesis by (simp add: push_or_close_def e_def drop_Suc)
  next
    case False
    with Cons.prems show ?thesis by (simp add: push_or_close_def e_def)
  qed
  have cap: "effective_capacity (q\<lparr>q_entries := e\<rparr>) = effective_capacity q"
    by (simp add: effective_capacity_def)
  have le: "length e \<le> effective_capacity q" using Cons.prems by (simp add: e_def)
  have "drop (length (e @ xs) - effective_capacity q) (e @ xs)
      = drop (length (q_entries q @ x # xs) - effective_capacity q) (q_entries q @ x # xs)"
  proof (cases "length (q_entries q) = effective_capacity q")
    case True
    moreover from this Cons.prems obtain y ys where q: "q_entries q = y # ys"
      by (cases "q_entries q") auto
    ultimately have "effective_capacity q = Suc (length ys)" by simp
    then show ?thesis by (simp add: e_def q)
  next
    case False
    with Cons.prems have "e = q_entries q @ [x]" by (simp add: e_def)
    then show ?thesis by simp
  qed
  with Cons.IH [of "q\<lparr>q_entries := e\<rparr>"] Cons.prems cap le show ?case by (simp add: push)
qed

text \<open>The life of a mailbox.\<close>

datatype 'a mailbox_op = Push 'a | Drain | EndBootstrap

fun queue_op :: "'a subscriber_queue \<Rightarrow> 'a mailbox_op \<Rightarrow> 'a subscriber_queue" where
  "queue_op q (Push x) = snd (push_or_close x q)"
| "queue_op q Drain = snd (snd (wait_and_drain q))"
| "queue_op q EndBootstrap = end_bootstrap q"

lemma queue_ok_op: "queue_ok q \<Longrightarrow> queue_ok (queue_op q op)"
  by (cases op) (simp_all add: push_queue_ok, auto simp: queue_ok_def wait_and_drain_def end_bootstrap_def)

lemma queue_ops_fixed:
  "q_capacity (foldl queue_op q ops) = q_capacity q \<and> q_policy (foldl queue_op q ops) = q_policy q"
proof (induction ops arbitrary: q)
  case (Cons op ops)
  have "q_capacity (queue_op q op) = q_capacity q \<and> q_policy (queue_op q op) = q_policy q"
    by (cases op) (simp_all add: push_or_close_def wait_and_drain_def end_bootstrap_def)
  with Cons show ?case by simp
qed simp

lemma queue_ok_ops: "queue_ok q \<Longrightarrow> queue_ok (foldl queue_op q ops)"
  by (induction ops arbitrary: q) (simp_all add: queue_ok_op)

text \<open>The bootstrap ends for good; from the next drain on, the plain capacity is the bound.\<close>

definition settled :: "'a subscriber_queue \<Rightarrow> bool" where
  "settled q \<longleftrightarrow> 0 < q_capacity q \<and> \<not> q_bootstrapping q \<and> length (q_entries q) \<le> q_capacity q"

lemma bootstrap_over: "\<not> q_bootstrapping q \<Longrightarrow> \<not> q_bootstrapping (foldl queue_op q ops)"
proof (induction ops arbitrary: q)
  case (Cons op ops)
  have "\<not> q_bootstrapping (queue_op q op)"
    using Cons.prems by (cases op) (simp_all add: push_or_close_def wait_and_drain_def end_bootstrap_def)
  with Cons.IH show ?case by simp
qed simp

lemma settled_op: "settled q \<Longrightarrow> settled (queue_op q op)"
  by (cases op; cases "q_entries q")
    (auto simp: settled_def push_or_close_def effective_capacity_def wait_and_drain_def end_bootstrap_def)

lemma settled_ops: "settled q \<Longrightarrow> settled (foldl queue_op q ops)"
  by (induction ops arbitrary: q) (simp_all add: settled_op)

lemma drained_settled: "queue_ok q \<Longrightarrow> \<not> q_bootstrapping q \<Longrightarrow> settled (queue_op q Drain)"
  by (simp add: settled_def queue_ok_def wait_and_drain_def)

lemma settled_after_drain:
  assumes "queue_ok q"
  shows "settled (foldl queue_op q (before @ [EndBootstrap] @ between @ [Drain] @ later))"
proof -
  let ?q = "foldl queue_op q (before @ [EndBootstrap] @ between)"
  have "\<not> q_bootstrapping (foldl queue_op q (before @ [EndBootstrap]))" by (simp add: end_bootstrap_def)
  then have "\<not> q_bootstrapping ?q" using bootstrap_over by (metis append_assoc foldl_append)
  then have "settled (queue_op ?q Drain)" by (rule drained_settled [OF queue_ok_ops [OF assms]])
  then show ?thesis using settled_ops [of "queue_op ?q Drain" later] by simp
qed

section \<open>Properties\<close>

text \<open>
  C24. A \<^verbatim>\<open>Close\<close> mailbox never loses an update silently. Whatever is pushed, either every
  update is still there, in order, behind what was queued, or the queue is empty and closed, and
  then every later drain says so; and it closes exactly when the updates exceed its capacity (four
  times as many while bootstrapping).
\<close>

theorem close_queue_keeps_all_or_closes:
  assumes "q_policy q = Close" "\<not> q_closed q"
  shows "if length (q_entries q) + length xs \<le> effective_capacity q \<or> xs = []
    then \<not> q_closed (push_all xs q) \<and> q_entries (push_all xs q) = q_entries q @ xs
    else q_closed (push_all xs q) \<and> q_entries (push_all xs q) = []
         \<and> (\<forall>ys. wait_and_drain (push_all (xs @ ys) q) = (Closed, [], push_all xs q))"
  using push_all_Close [OF assms, of xs] assms(2)
  by (auto simp: push_all_append push_all_closed wait_and_drain_def split: if_splits)

theorem close_queue_keeps_all_or_closes_witness:
  "q_entries (push_all [1, 2, 3 :: nat] (new_queue 256 Close)) = [1, 2, 3]
   \<and> q_closed (push_all [1, 2 :: nat] (end_bootstrap (new_queue 1 Close)))"
  using close_queue_keeps_all_or_closes [of "new_queue 256 Close" "[1, 2, 3 :: nat]"]
    close_queue_keeps_all_or_closes [of "end_bootstrap (new_queue 1 Close)" "[1, 2 :: nat]"]
  by (simp add: new_queue_def end_bootstrap_def effective_capacity_def kBootstrapCapacityMultiplier_def)

text \<open>
  A \<^verbatim>\<open>DropOldest\<close> mailbox is a sliding window: it never closes, and after any pushes it
  holds exactly the most recent ones, as many as its capacity, in order; so the newest update is
  always there.
\<close>

lemma drop_oldest_queue_is_a_window:
  assumes "q_policy q = DropOldest" "\<not> q_closed q" "0 < effective_capacity q"
    "length (q_entries q) \<le> effective_capacity q"
  shows "\<not> q_closed (push_all xs q)
    \<and> q_entries (push_all xs q)
        = drop (length (q_entries q @ xs) - effective_capacity q) (q_entries q @ xs)
    \<and> (xs \<noteq> [] \<longrightarrow> last (q_entries (push_all xs q)) = last xs)"
proof -
  note win = push_all_DropOldest [OF assms, of xs]
  have "last (drop (length (q_entries q @ xs) - effective_capacity q) (q_entries q @ xs)) = last xs"
    if "xs \<noteq> []"
  proof -
    have "0 < length (q_entries q @ xs)" using that by simp
    with assms(3) have "length (q_entries q @ xs) - effective_capacity q < length (q_entries q @ xs)"
      by (rule diff_less)
    then show ?thesis using that by (simp only: last_drop last_append if_False)
  qed
  with win assms(2) show ?thesis by simp
qed

text \<open>
  C25. Memory is bounded for every subscriber: whatever sequence of pushes, drains and the end of
  bootstrapping a new mailbox goes through, it never holds more than four times its capacity, and
  no more than its capacity once the bootstrap has ended and it has been drained since. Only a
  \<^verbatim>\<open>Close\<close> mailbox ever closes, empty.
\<close>

theorem queue_memory_is_bounded:
  assumes "0 < capacity"
  shows "let q = foldl queue_op (new_queue capacity policy) ops in
    length (q_entries q) \<le> 4 * capacity
    \<and> (\<forall>before between later. ops = before @ [EndBootstrap] @ between @ [Drain] @ later \<longrightarrow>
         length (q_entries q) \<le> capacity)
    \<and> (q_closed q \<longrightarrow> policy = Close \<and> q_entries q = [])"
proof -
  have ok: "queue_ok (new_queue capacity policy)"
    using assms by (simp add: queue_ok_def new_queue_def)
  have fixed: "q_capacity (foldl queue_op (new_queue capacity policy) ops) = capacity"
    "q_policy (foldl queue_op (new_queue capacity policy) ops) = policy"
    using queue_ops_fixed [of "new_queue capacity policy" ops] by (simp_all add: new_queue_def)
  have bound: "length (q_entries (foldl queue_op (new_queue capacity policy) ops)) \<le> capacity"
    if "ops = before @ [EndBootstrap] @ between @ [Drain] @ later" for before between later
    using settled_after_drain [OF ok, of before between later] fixed(1) unfolding that [symmetric]
    by (simp add: settled_def)
  have "queue_ok (foldl queue_op (new_queue capacity policy) ops)" by (rule queue_ok_ops [OF ok])
  then have "length (q_entries (foldl queue_op (new_queue capacity policy) ops)) \<le> 4 * capacity"
    "q_closed (foldl queue_op (new_queue capacity policy) ops) \<longrightarrow>
       policy = Close \<and> q_entries (foldl queue_op (new_queue capacity policy) ops) = []"
    using fixed by (auto simp: queue_ok_def kBootstrapCapacityMultiplier_def)
  with bound show ?thesis unfolding Let_def by blast
qed

theorem queue_memory_is_bounded_witness:
  "length (q_entries (foldl queue_op (new_queue 1 DropOldest)
     [Push (1 :: nat), Push 2, EndBootstrap, Push 3, Drain, Push 4, Push 5])) \<le> 1"
proof -
  have "[Push (1 :: nat), Push 2, EndBootstrap, Push 3, Drain, Push 4, Push 5]
      = [Push 1, Push 2] @ [EndBootstrap] @ [Push 3] @ [Drain] @ [Push 4, Push 5]" by simp
  with queue_memory_is_bounded [OF zero_less_one, of DropOldest "[Push (1 :: nat), Push 2, EndBootstrap, Push 3, Drain, Push 4, Push 5]"]
  show ?thesis unfolding Let_def by blast
qed

end
