(* ===== verification/Symbol_Book.thy ===== *)
theory Symbol_Book
  imports Aggregate_Book Subscriber_Queue
begin

text \<open>
  \<^verbatim>\<open>SymbolBook\<close> of \<^verbatim>\<open>aggregator_service.hpp\<close>: the aggregate of one symbol, its revision
  number, and the two streams it publishes on. Every method holds the book's mutex for its whole
  effect, so it is one atomic operation here; waking the subscribers (\<^verbatim>\<open>notify_all\<close>) changes no
  state. The wall clock is an argument: its readings, in the order the method takes them.
\<close>

section \<open>The code: wire messages\<close>

datatype l2_update =
    L2Snapshot (l2_seq: u64) (l2_ts: u64) (l2_bids: levels) (l2_asks: levels)
  | L2Diff (l2_seq: u64) (l2_ts: u64) (l2_bids: levels) (l2_asks: levels)
  | L2Heartbeat (l2_ts: u64) (l2_live_venues: "string list")

datatype bbo_update =
    Bbo (bbo_seq: u64) (bbo_ts: u64) (bbo_bid: "(price \<times> size_t) option")
      (bbo_ask: "(price \<times> size_t) option")
  | BboHeartbeat (bbo_ts: u64) (bbo_live_venues: "string list")

section \<open>The code: collecting the changes of one operation\<close>

datatype side = Bid | Ask

datatype change = Change (change_side: side) (change_price: price) (change_size: size_t)

text \<open>\<^verbatim>\<open>ChangeCollector\<close>: the last size reported per price, in the book's own order.\<close>

definition collect :: "(price \<Rightarrow> price \<Rightarrow> bool) \<Rightarrow> levels \<Rightarrow> side_map" where
  "collect lt calls = foldl (\<lambda>by_price (p, s). om_assign lt p s by_price) [] calls"

definition collect_changes :: "levels \<Rightarrow> levels \<Rightarrow> change list" where
  "collect_changes bid_calls ask_calls =
     map (\<lambda>(p, s). Change Bid p s) (collect (>) bid_calls)
     @ map (\<lambda>(p, s). Change Ask p s) (collect (<) ask_calls)"

section \<open>The code: the book and its streams\<close>

record symbol_book =
  sb_book :: aggregate_order_book
  l2_fanout :: "l2_update fanout"
  bbo_fanout :: "bbo_update fanout"
  sb_seq :: u64
  last_bbo_bid :: "(price \<times> size_t) option"
  last_bbo_ask :: "(price \<times> size_t) option"

definition kSubscriberQueueCapacity :: nat where
  "kSubscriberQueueCapacity = 256"

definition new_symbol_book :: symbol_book where
  "new_symbol_book =
     \<lparr>sb_book = empty_aggregate, l2_fanout = new_fanout kSubscriberQueueCapacity Close,
      bbo_fanout = new_fanout kSubscriberQueueCapacity DropOldest, sb_seq = 0,
      last_bbo_bid = None, last_bbo_ask = None\<rparr>"

definition build_snapshot :: "u64 \<Rightarrow> symbol_book \<Rightarrow> l2_update" where
  "build_snapshot now sb =
     L2Snapshot (sb_seq sb) now (bids (aggregate (sb_book sb))) (asks (aggregate (sb_book sb)))"

definition first_level :: "side_map \<Rightarrow> (price \<times> size_t) option" where
  "first_level m = (case m of [] \<Rightarrow> None | kv # _ \<Rightarrow> Some kv)"

definition best_bid :: "symbol_book \<Rightarrow> (price \<times> size_t) option" where
  "best_bid sb = first_level (bids (aggregate (sb_book sb)))"

definition best_ask :: "symbol_book \<Rightarrow> (price \<times> size_t) option" where
  "best_ask sb = first_level (asks (aggregate (sb_book sb)))"

definition build_bbo :: "u64 \<Rightarrow> symbol_book \<Rightarrow> bbo_update" where
  "build_bbo now sb = Bbo (sb_seq sb) now (best_bid sb) (best_ask sb)"

text \<open>The clock is read once for the diff and once for the BBO.\<close>

definition publish :: "u64 \<times> u64 \<Rightarrow> change list \<Rightarrow> symbol_book \<Rightarrow> symbol_book" where
  "publish clock changed sb =
     (if changed = [] then sb
      else
        let seq = sb_seq sb + 1;
            diff = L2Diff seq (fst clock)
              [(p, s). Change Bid p s \<leftarrow> changed] [(p, s). Change Ask p s \<leftarrow> changed];
            sb1 = sb\<lparr>sb_seq := seq, l2_fanout := snd (broadcast diff (l2_fanout sb))\<rparr>;
            bid = best_bid sb1; ask = best_ask sb1
        in if bid \<noteq> last_bbo_bid sb1 \<or> ask \<noteq> last_bbo_ask sb1 then
             let sb2 = sb1\<lparr>last_bbo_bid := bid, last_bbo_ask := ask\<rparr>
             in sb2\<lparr>bbo_fanout := snd (broadcast (build_bbo (snd clock) sb2) (bbo_fanout sb2))\<rparr>
           else sb1)"

definition sb_apply_snapshot ::
  "u64 \<times> u64 \<Rightarrow> venue_id \<Rightarrow> levels \<Rightarrow> levels \<Rightarrow> symbol_book \<Rightarrow> unit expected \<times> symbol_book" where
  "sb_apply_snapshot clock v bs as sb =
     (if \<not> all_valid bs then (Inl invalid_argument, sb)
      else if \<not> all_valid as then (Inl invalid_argument, sb)
      else
        let (result, b', bid_calls, ask_calls) = apply_snapshot v bs as (sb_book sb);
            sb' = sb\<lparr>sb_book := b'\<rparr>
        in case result of
             Inl e \<Rightarrow> (Inl e, sb')
           | Inr _ \<Rightarrow> (Inr (), publish clock (collect_changes bid_calls ask_calls) sb'))"

definition sb_apply_batch ::
  "u64 \<times> u64 \<Rightarrow> venue_id \<Rightarrow> levels \<Rightarrow> levels \<Rightarrow> symbol_book \<Rightarrow> unit expected \<times> symbol_book" where
  "sb_apply_batch clock v bs as sb =
     (if \<not> all_valid bs then (Inl invalid_argument, sb)
      else if \<not> all_valid as then (Inl invalid_argument, sb)
      else
        let (result, b', bid_calls, ask_calls) = apply_batch v bs as (sb_book sb);
            sb' = sb\<lparr>sb_book := b'\<rparr>
        in case result of
             Inl e \<Rightarrow> (Inl e, sb')
           | Inr _ \<Rightarrow> (Inr (), publish clock (collect_changes bid_calls ask_calls) sb'))"

definition sb_invalidate_venue :: "u64 \<times> u64 \<Rightarrow> venue_id \<Rightarrow> symbol_book \<Rightarrow> symbol_book" where
  "sb_invalidate_venue clock v sb =
     (let (b', bid_calls, ask_calls) = invalidate_venue v (sb_book sb)
      in publish clock (collect_changes bid_calls ask_calls) (sb\<lparr>sb_book := b'\<rparr>))"

text \<open>The live venues, in some order: the code iterates a hash map.\<close>

definition live_venues :: "aggregate_order_book \<Rightarrow> string list" where
  "live_venues b = [venue_id_to_string v. v \<leftarrow> all_venues, venues b v \<noteq> None]"

definition send_heartbeat :: "u64 \<Rightarrow> symbol_book \<Rightarrow> symbol_book" where
  "send_heartbeat now sb =
     sb\<lparr>l2_fanout := snd (broadcast (L2Heartbeat now (live_venues (sb_book sb))) (l2_fanout sb)),
        bbo_fanout := snd (broadcast (BboHeartbeat now (live_venues (sb_book sb))) (bbo_fanout sb))\<rparr>"

text \<open>
  \<^verbatim>\<open>subscribe_impl\<close> in its two critical sections: the state is captured and the queue
  registered together; then, after the first write, bootstrapping ends and a failed write
  unregisters the queue.
\<close>

definition subscribe_begin :: "u64 \<Rightarrow> nat \<Rightarrow> symbol_book \<Rightarrow> l2_update \<times> symbol_book" where
  "subscribe_begin now addr sb =
     (build_snapshot now sb, sb\<lparr>l2_fanout := fanout_subscribe addr (l2_fanout sb)\<rparr>)"

definition subscribe_end :: "bool \<Rightarrow> nat \<Rightarrow> symbol_book \<Rightarrow> nat option \<times> symbol_book" where
  "subscribe_end wrote addr sb =
     (let sb' = sb\<lparr>l2_fanout := update_queue addr end_bootstrap (l2_fanout sb)\<rparr>
      in if wrote then (Some addr, sb')
         else (None, sb'\<lparr>l2_fanout := fanout_unsubscribe addr (l2_fanout sb')\<rparr>))"

definition subscribe_bbo_begin :: "u64 \<Rightarrow> nat \<Rightarrow> symbol_book \<Rightarrow> bbo_update \<times> symbol_book" where
  "subscribe_bbo_begin now addr sb =
     (build_bbo now sb, sb\<lparr>bbo_fanout := fanout_subscribe addr (bbo_fanout sb)\<rparr>)"

definition subscribe_bbo_end :: "bool \<Rightarrow> nat \<Rightarrow> symbol_book \<Rightarrow> nat option \<times> symbol_book" where
  "subscribe_bbo_end wrote addr sb =
     (let sb' = sb\<lparr>bbo_fanout := update_queue addr end_bootstrap (bbo_fanout sb)\<rparr>
      in if wrote then (Some addr, sb')
         else (None, sb'\<lparr>bbo_fanout := fanout_unsubscribe addr (bbo_fanout sb')\<rparr>))"

definition unsubscribe :: "nat \<Rightarrow> symbol_book \<Rightarrow> symbol_book" where
  "unsubscribe addr sb = sb\<lparr>l2_fanout := fanout_unsubscribe addr (l2_fanout sb)\<rparr>"

definition unsubscribe_bbo :: "nat \<Rightarrow> symbol_book \<Rightarrow> symbol_book" where
  "unsubscribe_bbo addr sb = sb\<lparr>bbo_fanout := fanout_unsubscribe addr (bbo_fanout sb)\<rparr>"

section \<open>The collected changes\<close>

definition agg_view :: "symbol_book \<Rightarrow> (price \<rightharpoonup> size_t) \<times> (price \<rightharpoonup> size_t)" where
  "agg_view sb = (map_of (bids (aggregate (sb_book sb))), map_of (asks (aggregate (sb_book sb))))"

context book_side
begin

lemma collect_wf_gen: "om_wf lt m \<Longrightarrow> om_wf lt (foldl (\<lambda>m (p, s). om_assign lt p s m) m calls)"
  by (induction calls arbitrary: m) (auto simp: wf_assign)

lemma collect_wf: "om_wf lt (collect lt calls)"
  by (simp add: collect_def collect_wf_gen)

lemma collect_eq_Nil: "collect lt calls = [] \<longleftrightarrow> calls = []"
proof (cases calls rule: rev_cases)
  case (snoc cs c)
  have "om_assign lt p s m \<noteq> []" for p s m
    using keys_assign [of p s m] by force
  with snoc show ?thesis by (cases c) (simp add: collect_def)
qed (simp add: collect_def)

lemma collect_lookup:
  "map_of (collect lt calls) p = map_of (rev calls) p"
proof -
  have "map_of (foldl (\<lambda>m (p, s). om_assign lt p s m) m calls) p
      = (case map_of (rev calls) p of Some s \<Rightarrow> Some s | None \<Rightarrow> map_of m p)" for m
  proof (induction calls arbitrary: m)
    case (Cons c calls)
    then show ?case by (cases c) (auto simp: map_of_assign map_add_def split: option.splits)
  qed simp
  then show ?thesis by (simp add: collect_def split: option.split)
qed

lemma replay_lookup:
  "replay calls f p = (case map_of (rev calls) p of None \<Rightarrow> f p | Some s \<Rightarrow> if s = 0 then None else Some s)"
proof (induction calls arbitrary: f)
  case (Cons c calls)
  then show ?case by (cases c) (auto simp: put_level_def map_add_def split: option.splits)
qed simp

lemma replay_collect: "replay (collect lt calls) f = replay calls f"
proof
  fix p
  have "map_of (rev (collect lt calls)) = map_of (collect lt calls)"
    by (rule map_of_rev_distinct) (rule wf_distinct [OF collect_wf])
  then show "replay (collect lt calls) f p = replay calls f p"
    by (simp add: replay_lookup collect_lookup)
qed

end

lemma collected_sides:
  "[(p, s). Change Bid p s \<leftarrow> collect_changes bc ac] = collect (>) bc"
  "[(p, s). Change Ask p s \<leftarrow> collect_changes bc ac] = collect (<) ac"
proof -
  have "concat (map (\<lambda>c. case c of Change Bid p s \<Rightarrow> [(p, s)] | Change Ask p s \<Rightarrow> [])
      (map (\<lambda>(p, s). Change Bid p s) xs)) = xs" for xs
    by (induction xs) auto
  moreover have "concat (map (\<lambda>c. case c of Change Bid p s \<Rightarrow> [(p, s)] | Change Ask p s \<Rightarrow> [])
      (map (\<lambda>(p, s). Change Ask p s) xs)) = []" for xs
    by (induction xs) auto
  ultimately show "[(p, s). Change Bid p s \<leftarrow> collect_changes bc ac] = collect (>) bc"
    by (simp add: collect_changes_def)
  have "concat (map (\<lambda>c. case c of Change Bid p s \<Rightarrow> [] | Change Ask p s \<Rightarrow> [(p, s)])
      (map (\<lambda>(p, s). Change Ask p s) xs)) = xs" for xs
    by (induction xs) auto
  moreover have "concat (map (\<lambda>c. case c of Change Bid p s \<Rightarrow> [] | Change Ask p s \<Rightarrow> [(p, s)])
      (map (\<lambda>(p, s). Change Bid p s) xs)) = []" for xs
    by (induction xs) auto
  ultimately show "[(p, s). Change Ask p s \<leftarrow> collect_changes bc ac] = collect (<) ac"
    by (simp add: collect_changes_def)
qed

lemma collect_changes_Nil: "collect_changes bc ac = [] \<longleftrightarrow> bc = [] \<and> ac = []"
  by (simp add: collect_changes_def bid_side.collect_eq_Nil ask_side.collect_eq_Nil)

section \<open>One operation, one revision\<close>

definition sb_inv :: "symbol_book \<Rightarrow> bool" where
  "sb_inv sb \<longleftrightarrow>
     agg_inv (sb_book sb) \<and> last_bbo_bid sb = best_bid sb \<and> last_bbo_ask sb = best_ask sb
     \<and> f_policy (l2_fanout sb) = Close \<and> f_policy (bbo_fanout sb) = DropOldest"

text \<open>The message that announces how the best levels moved, if they did.\<close>

definition bbo_announced :: "u64 \<Rightarrow> symbol_book \<Rightarrow> symbol_book \<Rightarrow> bool" where
  "bbo_announced ts sb sb' \<longleftrightarrow>
     bbo_fanout sb' =
       (if best_bid sb' = best_bid sb \<and> best_ask sb' = best_ask sb then bbo_fanout sb
        else snd (broadcast (Bbo (sb_seq sb') ts (best_bid sb') (best_ask sb')) (bbo_fanout sb)))"

text \<open>
  The next revision: one diff, in book order, whose replay on the old aggregate is the new one.
\<close>

definition next_revision :: "u64 \<times> u64 \<Rightarrow> levels \<Rightarrow> levels \<Rightarrow> symbol_book \<Rightarrow> symbol_book \<Rightarrow> bool" where
  "next_revision clock dbs das sb sb' \<longleftrightarrow>
     (dbs \<noteq> [] \<or> das \<noteq> []) \<and> om_wf (>) dbs \<and> om_wf (<) das
     \<and> agg_view sb' = (replay dbs (fst (agg_view sb)), replay das (snd (agg_view sb)))
     \<and> sb_seq sb' = sb_seq sb + 1
     \<and> l2_fanout sb' = snd (broadcast (L2Diff (sb_seq sb + 1) (fst clock) dbs das) (l2_fanout sb))
     \<and> bbo_announced (snd clock) sb sb'"

definition same_revision :: "symbol_book \<Rightarrow> symbol_book \<Rightarrow> bool" where
  "same_revision sb sb' \<longleftrightarrow>
     aggregate (sb_book sb') = aggregate (sb_book sb) \<and> sb_seq sb' = sb_seq sb
     \<and> l2_fanout sb' = l2_fanout sb \<and> bbo_fanout sb' = bbo_fanout sb"

lemma agg_inv_wf:
  "agg_inv b \<Longrightarrow> om_wf (>) (bids (aggregate b))" "agg_inv b \<Longrightarrow> om_wf (<) (asks (aggregate b))"
  by (simp_all add: agg_inv_def side_ok_def)

lemma agg_eq:
  assumes "agg_inv b" "agg_inv b'"
    "map_of (bids (aggregate b)) = map_of (bids (aggregate b'))"
    "map_of (asks (aggregate b)) = map_of (asks (aggregate b'))"
  shows "aggregate b = aggregate b'"
  using bid_order.wf_ext [OF agg_inv_wf(1) [OF assms(1)] agg_inv_wf(1) [OF assms(2)] assms(3)]
    ask_order.wf_ext [OF agg_inv_wf(2) [OF assms(1)] agg_inv_wf(2) [OF assms(2)] assms(4)]
  by (intro l2_order_book.equality) simp_all

lemma publish_revision:
  fixes clock :: "u64 \<times> u64"
  assumes inv: "sb_inv sb" "agg_inv b'"
    and rb: "map_of (bids (aggregate b')) = replay bc (map_of (bids (aggregate (sb_book sb))))"
    and ra: "map_of (asks (aggregate b')) = replay ac (map_of (asks (aggregate (sb_book sb))))"
  defines "sb' \<equiv> publish clock (collect_changes bc ac) (sb\<lparr>sb_book := b'\<rparr>)"
  shows "sb_book sb' = b'" "sb_inv sb'"
    and "bc = [] \<and> ac = [] \<Longrightarrow> same_revision sb sb'"
    and "bc \<noteq> [] \<or> ac \<noteq> [] \<Longrightarrow> next_revision clock (collect (>) bc) (collect (<) ac) sb sb'"
proof -
  have agg: "bc = [] \<and> ac = [] \<Longrightarrow> aggregate b' = aggregate (sb_book sb)"
    using agg_eq [of b' "sb_book sb"] inv rb ra by (simp add: sb_inv_def)
  show "sb_book sb' = b'" unfolding sb'_def by (simp add: publish_def Let_def)
  show "bc = [] \<and> ac = [] \<Longrightarrow> same_revision sb sb'"
    using agg by (simp add: sb'_def publish_def collect_changes_Nil same_revision_def)
  show "sb_inv sb'"
    using inv agg
    by (cases "bc = [] \<and> ac = []")
      (auto simp: sb'_def publish_def collect_changes_Nil sb_inv_def Let_def best_bid_def best_ask_def)
  show "next_revision clock (collect (>) bc) (collect (<) ac) sb sb'" if "bc \<noteq> [] \<or> ac \<noteq> []"
  proof -
    have ne: "collect_changes bc ac \<noteq> []" using that by (simp add: collect_changes_Nil)
    have "bbo_announced (snd clock) sb sb'"
      using ne inv unfolding sb'_def publish_def
      by (auto simp: Let_def bbo_announced_def sb_inv_def best_bid_def best_ask_def build_bbo_def)
    moreover have "l2_fanout sb' =
        snd (broadcast (L2Diff (sb_seq sb + 1) (fst clock) (collect (>) bc) (collect (<) ac)) (l2_fanout sb))"
      "sb_seq sb' = sb_seq sb + 1"
      using ne unfolding sb'_def publish_def by (simp_all add: Let_def collected_sides)
    moreover have "agg_view sb' = (replay (collect (>) bc) (fst (agg_view sb)), replay (collect (<) ac) (snd (agg_view sb)))"
      using \<open>sb_book sb' = b'\<close> rb ra
      by (simp add: agg_view_def bid_side.replay_collect ask_side.replay_collect)
    ultimately show ?thesis
      using that by (simp add: next_revision_def bid_side.collect_wf ask_side.collect_wf
          bid_side.collect_eq_Nil ask_side.collect_eq_Nil)
  qed
qed

lemma empty_book_simps [simp]:
  "bids empty_book = []" "asks empty_book = []" "aggregate empty_aggregate = empty_book"
  "venues empty_aggregate = Map.empty"
  by (simp_all add: empty_book_def empty_aggregate_def)

lemma sb_inv_new: "sb_inv new_symbol_book"
  by (simp add: sb_inv_def new_symbol_book_def agg_inv_empty best_bid_def best_ask_def first_level_def
      new_fanout_def)

lemma sb_inv_fanout:
  "sb_inv sb \<Longrightarrow> f_policy f = Close \<Longrightarrow> sb_inv (sb\<lparr>l2_fanout := f\<rparr>)"
  "sb_inv sb \<Longrightarrow> f_policy g = DropOldest \<Longrightarrow> sb_inv (sb\<lparr>bbo_fanout := g\<rparr>)"
  by (simp_all add: sb_inv_def best_bid_def best_ask_def)

section \<open>The operations of the ingestion side\<close>

datatype server_op =
    SApplySnapshot "u64 \<times> u64" venue_id levels levels
  | SApplyBatch "u64 \<times> u64" venue_id levels levels
  | SInvalidate "u64 \<times> u64" venue_id

fun server_step :: "symbol_book \<Rightarrow> server_op \<Rightarrow> symbol_book" where
  "server_step sb (SApplySnapshot clock v bs as) = snd (sb_apply_snapshot clock v bs as sb)"
| "server_step sb (SApplyBatch clock v bs as) = snd (sb_apply_batch clock v bs as sb)"
| "server_step sb (SInvalidate clock v) = sb_invalidate_venue clock v sb"

fun op_clock :: "server_op \<Rightarrow> u64 \<times> u64" where
  "op_clock (SApplySnapshot clock v bs as) = clock"
| "op_clock (SApplyBatch clock v bs as) = clock"
| "op_clock (SInvalidate clock v) = clock"

text \<open>The same operation on the aggregate alone.\<close>

fun book_op_of :: "server_op \<Rightarrow> book_op" where
  "book_op_of (SApplySnapshot clock v bs as) = OpSnapshot v bs as"
| "book_op_of (SApplyBatch clock v bs as) = OpBatch v bs as"
| "book_op_of (SInvalidate clock v) = OpInvalidate v"

text \<open>A call that the book accepted.\<close>

lemma accepted_revision:
  assumes "sb_inv sb" "agg_inv b'"
    "map_of (bids (aggregate b')) = replay bc (map_of (bids (aggregate (sb_book sb))))"
    "map_of (asks (aggregate b')) = replay ac (map_of (asks (aggregate (sb_book sb))))"
    "sb' = publish clock (collect_changes bc ac) (sb\<lparr>sb_book := b'\<rparr>)"
  shows "sb_inv sb' \<and> sb_book sb' = b' \<and> (same_revision sb sb' \<or> (\<exists>dbs das. next_revision clock dbs das sb sb'))"
  using publish_revision [OF assms(1-4), of clock] assms(5) by (cases "bc = [] \<and> ac = []") auto

lemma snapshot_revision:
  assumes inv: "sb_inv sb" and rng: "sizes_in_range bs" "sizes_in_range as"
    and sb': "sb' = server_step sb (SApplySnapshot clock v bs as)"
  shows "sb_inv sb' \<and> sb_book sb' = apply_op (sb_book sb) (OpSnapshot v bs as)
    \<and> (same_revision sb sb' \<or> (\<exists>dbs das. next_revision clock dbs das sb sb'))"
proof (cases "all_valid bs \<and> all_valid as")
  case True
  obtain r b' bc ac where eq: "apply_snapshot v bs as (sb_book sb) = (r, b', bc, ac)" by (metis prod_cases4)
  have agg: "agg_inv (sb_book sb)" using inv by (simp add: sb_inv_def)
  note ok = apply_snapshot_ok [OF agg True [THEN conjunct1] True [THEN conjunct2] rng eq]
  have "sb' = publish clock (collect_changes bc ac) (sb\<lparr>sb_book := b'\<rparr>)"
    using True eq ok(1) by (simp add: sb' sb_apply_snapshot_def)
  from accepted_revision [OF inv ok(2) _ _ this] ok(6,7) eq show ?thesis by (simp add: reports_def)
next
  case False
  with apply_snapshot_error [OF False, of v "sb_book sb"] inv show ?thesis
    by (auto simp: sb' sb_apply_snapshot_def same_revision_def)
qed

lemma batch_revision:
  assumes inv: "sb_inv sb" and rng: "sizes_in_range bs" "sizes_in_range as"
    and sb': "sb' = server_step sb (SApplyBatch clock v bs as)"
  shows "sb_inv sb' \<and> sb_book sb' = apply_op (sb_book sb) (OpBatch v bs as)
    \<and> (same_revision sb sb' \<or> (\<exists>dbs das. next_revision clock dbs das sb sb'))"
proof (cases "all_valid bs \<and> all_valid as")
  case True
  obtain r b' bc ac where eq: "apply_batch v bs as (sb_book sb) = (r, b', bc, ac)" by (metis prod_cases4)
  have agg: "agg_inv (sb_book sb)" using inv by (simp add: sb_inv_def)
  note ok = apply_batch_ok [OF agg True [THEN conjunct1] True [THEN conjunct2] rng eq]
  have "sb' = publish clock (collect_changes bc ac) (sb\<lparr>sb_book := b'\<rparr>)"
    using True eq ok(1) by (simp add: sb' sb_apply_batch_def)
  from accepted_revision [OF inv ok(2) ok(6,7) this] eq show ?thesis by simp
next
  case False
  with apply_batch_error [OF False, of v "sb_book sb"] inv show ?thesis
    by (auto simp: sb' sb_apply_batch_def same_revision_def)
qed

lemma invalidate_revision:
  assumes inv: "sb_inv sb" and sb': "sb' = server_step sb (SInvalidate clock v)"
  shows "sb_inv sb' \<and> sb_book sb' = apply_op (sb_book sb) (OpInvalidate v)
    \<and> (same_revision sb sb' \<or> (\<exists>dbs das. next_revision clock dbs das sb sb'))"
proof -
  obtain b' bc ac where eq: "invalidate_venue v (sb_book sb) = (b', bc, ac)" by (metis prod_cases3)
  have agg: "agg_inv (sb_book sb)" using inv by (simp add: sb_inv_def)
  note ok = invalidate_venue_ok [OF agg eq]
  have "sb' = publish clock (collect_changes bc ac) (sb\<lparr>sb_book := b'\<rparr>)"
    using eq by (simp add: sb' sb_invalidate_venue_def)
  from accepted_revision [OF inv ok(1) _ _ this] ok(3,4) eq show ?thesis by (simp add: reports_def)
qed

lemma server_step_revision:
  assumes inv: "sb_inv sb" and rng: "op_sizes_in_range (book_op_of op)"
  shows "sb_inv (server_step sb op)"
    and "sb_book (server_step sb op) = apply_op (sb_book sb) (book_op_of op)"
    and "same_revision sb (server_step sb op)
      \<or> (\<exists>dbs das. next_revision (op_clock op) dbs das sb (server_step sb op))"
proof -
  have "sb_inv (server_step sb op)
    \<and> sb_book (server_step sb op) = apply_op (sb_book sb) (book_op_of op)
    \<and> (same_revision sb (server_step sb op)
       \<or> (\<exists>dbs das. next_revision (op_clock op) dbs das sb (server_step sb op)))"
  proof (cases op)
    case (SApplySnapshot clock v bs as)
    with rng snapshot_revision [OF inv _ _ refl, of bs as clock v] show ?thesis by simp
  next
    case (SApplyBatch clock v bs as)
    with rng batch_revision [OF inv _ _ refl, of bs as clock v] show ?thesis by simp
  next
    case (SInvalidate clock v)
    with invalidate_revision [OF inv refl, of clock v] show ?thesis by simp
  qed
  then show "sb_inv (server_step sb op)"
    and "sb_book (server_step sb op) = apply_op (sb_book sb) (book_op_of op)"
    and "same_revision sb (server_step sb op)
      \<or> (\<exists>dbs das. next_revision (op_clock op) dbs das sb (server_step sb op))" by blast+
qed

section \<open>Property\<close>

text \<open>
  C8. Every ingestion call is one revision or none. A snapshot, a batch or an invalidation, accepted
  or rejected, changes the aggregate exactly as the aggregate's own operation does and then either
  leaves the revision number and both streams alone, the aggregate being unchanged, or advances
  the number by one and broadcasts one diff under it: non-empty, in book order, and such that
  replaying it on the old aggregate gives the new one. The BBO stream gets the new best levels in
  the same revision if and only if they moved, and the cached ones stay in step with the book.
\<close>

theorem every_operation_is_one_revision:
  assumes "sb_inv sb" "op_sizes_in_range (book_op_of op)"
  shows "let sb' = server_step sb op in
    sb_inv sb' \<and> sb_book sb' = apply_op (sb_book sb) (book_op_of op)
    \<and> (same_revision sb sb' \<or> (\<exists>dbs das. next_revision (op_clock op) dbs das sb sb'))"
  using server_step_revision [OF assms] by (simp add: Let_def)

theorem every_operation_is_one_revision_witness:
  "let op = SApplyBatch (1, 2) (VenueId Okx Spot) [(100, 5)] []; sb' = server_step new_symbol_book op in
   sb_inv sb' \<and> sb_book sb' = apply_op empty_aggregate (book_op_of op)"
  using every_operation_is_one_revision [OF sb_inv_new, of "SApplyBatch (1, 2) (VenueId Okx Spot) [(100, 5)] []"]
  by (simp add: Let_def new_symbol_book_def sizes_in_range_def venue_size_limit_def i64_max_def)

end
