(* ===== verification/Client_Book.thy ===== *)
theory Client_Book
  imports Symbol_Book
begin

text \<open>
  \<^verbatim>\<open>client_book.hpp\<close> and the read loop of \<^verbatim>\<open>publish_l2_bands\<close> in
  \<^verbatim>\<open>client_main.cpp\<close>: how a client keeps its own copy of the aggregate from the L2 stream.
  Printing is left out; the loop's counters are kept.
\<close>

section \<open>The code\<close>

definition client_apply_levels :: "(price \<Rightarrow> price \<Rightarrow> bool) \<Rightarrow> side_map \<Rightarrow> levels \<Rightarrow> side_map" where
  "client_apply_levels lt side lvls =
     foldl (\<lambda>m (p, s). if s = 0 then om_erase p m else om_assign lt p s m) side lvls"

definition is_book_seq_gap :: "u64 option \<Rightarrow> u64 \<Rightarrow> bool" where
  "is_book_seq_gap last_seq book_seq =
     (case last_seq of None \<Rightarrow> False | Some n \<Rightarrow> book_seq \<noteq> n + 1)"

record client =
  c_book :: l2_order_book
  c_last_seq :: "u64 option"
  snapshot_count :: nat
  diff_count :: nat
  heartbeat_count :: nat
  gap_count :: nat
  c_stopped :: bool

definition new_client :: client where
  "new_client = \<lparr>c_book = empty_book, c_last_seq = None, snapshot_count = 0, diff_count = 0,
     heartbeat_count = 0, gap_count = 0, c_stopped = False\<rparr>"

text \<open>One turn of the loop; \<open>c_stopped\<close> once it has left the loop on a gap.\<close>

fun client_read :: "client \<Rightarrow> l2_update \<Rightarrow> client" where
  "client_read c (L2Snapshot seq ts bs as) =
     (if c_stopped c then c
      else c\<lparr>snapshot_count := snapshot_count c + 1,
             c_book := \<lparr>asks = client_apply_levels (<) [] as, bids = client_apply_levels (>) [] bs\<rparr>,
             c_last_seq := Some seq\<rparr>)"
| "client_read c (L2Diff seq ts bs as) =
     (if c_stopped c then c
      else if is_book_seq_gap (c_last_seq c) seq then
        c\<lparr>diff_count := diff_count c + 1, gap_count := gap_count c + 1, c_stopped := True\<rparr>
      else c\<lparr>diff_count := diff_count c + 1, c_last_seq := Some seq,
             c_book := \<lparr>asks = client_apply_levels (<) (asks (c_book c)) as,
                        bids = client_apply_levels (>) (bids (c_book c)) bs\<rparr>\<rparr>)"
| "client_read c (L2Heartbeat ts vs) =
     (if c_stopped c then c else c\<lparr>heartbeat_count := heartbeat_count c + 1\<rparr>)"

section \<open>What reading does\<close>

context book_side
begin

lemma client_apply_lookup: "map_of (client_apply_levels lt m lvls) = replay lvls (map_of m)"
proof (induction lvls arbitrary: m)
  case (Cons x lvls)
  obtain p s where x: "x = (p, s)" by force
  have "client_apply_levels lt m (x # lvls)
      = client_apply_levels lt (if s = 0 then om_erase p m else om_assign lt p s m) lvls"
    by (simp add: client_apply_levels_def x)
  moreover have "map_of (if s = 0 then om_erase p m else om_assign lt p s m) = put_level p s (map_of m)"
    by (simp add: put_level_def map_of_assign)
  ultimately show ?case using Cons.IH x by simp
qed (simp add: client_apply_levels_def)

lemma client_apply_wf: "om_wf lt m \<Longrightarrow> om_wf lt (client_apply_levels lt m lvls)"
  unfolding client_apply_levels_def by (induction lvls arbitrary: m) (auto simp: wf_assign)

text \<open>Reading a whole side into an empty map gives the side back.\<close>

lemma client_apply_side:
  assumes "om_wf lt m" "positive_sizes m"
  shows "client_apply_levels lt [] m = m"
proof (rule wf_ext [OF client_apply_wf [OF om_wf_Nil] assms(1)])
  have "map_of (rev m) = map_of m" by (rule map_of_rev_distinct [OF wf_distinct [OF assms(1)]])
  moreover have "map_of m p = Some s \<Longrightarrow> s \<noteq> 0" for p s
    using assms(2) by (metis less_irrefl positive_sizes_def)
  ultimately show "map_of (client_apply_levels lt [] m) = map_of m"
    by (auto simp: client_apply_lookup replay_lookup fun_eq_iff split: option.split)
qed

end

text \<open>A client in step with a server: its book is the server's aggregate at the server's revision.\<close>

definition in_step :: "client \<Rightarrow> symbol_book \<Rightarrow> bool" where
  "in_step c sb \<longleftrightarrow>
     \<not> c_stopped c \<and> c_last_seq c = Some (sb_seq sb) \<and> c_book c = aggregate (sb_book sb)"

lemma agg_inv_positive:
  "agg_inv b \<Longrightarrow> positive_sizes (bids (aggregate b))" "agg_inv b \<Longrightarrow> positive_sizes (asks (aggregate b))"
  by (simp_all add: agg_inv_def side_ok_def)

lemma read_snapshot_in_step:
  assumes "agg_inv (sb_book sb)" "\<not> c_stopped c"
  shows "in_step (client_read c (build_snapshot ts sb)) sb"
  using assms bid_side.client_apply_side [OF agg_inv_wf(1) agg_inv_positive(1), OF assms(1,1)]
    ask_side.client_apply_side [OF agg_inv_wf(2) agg_inv_positive(2), OF assms(1,1)]
  by (simp add: in_step_def build_snapshot_def)

lemma read_diff_in_step:
  assumes "in_step c sb" "next_revision clock dbs das sb sb'" "agg_inv (sb_book sb)" "agg_inv (sb_book sb')"
  shows "in_step (client_read c (L2Diff (sb_seq sb + 1) ts dbs das)) sb'"
proof -
  let ?B = "client_apply_levels (>) (bids (aggregate (sb_book sb))) dbs"
  let ?A = "client_apply_levels (<) (asks (aggregate (sb_book sb))) das"
  have "?B = bids (aggregate (sb_book sb'))"
    using assms(2) by (intro bid_order.wf_ext bid_side.client_apply_wf agg_inv_wf(1) assms)
      (simp add: bid_side.client_apply_lookup next_revision_def agg_view_def)
  moreover have "?A = asks (aggregate (sb_book sb'))"
    using assms(2) by (intro ask_order.wf_ext ask_side.client_apply_wf agg_inv_wf(2) assms)
      (simp add: ask_side.client_apply_lookup next_revision_def agg_view_def)
  ultimately show ?thesis
    using assms(1,2) by (simp add: in_step_def is_book_seq_gap_def next_revision_def)
qed

lemma read_heartbeat_in_step: "in_step c sb \<Longrightarrow> in_step (client_read c (L2Heartbeat ts vs)) sb"
  by (simp add: in_step_def)

end
