(* ===== verification/Stream_Replica.thy ===== *)
theory Stream_Replica
  imports Client_Book
begin

text \<open>
  One L2 subscription end to end: the server's book under ingestion and heartbeats, the other
  subscribers, the handler thread of \<^verbatim>\<open>SubscribeL2Diff\<close>, the gRPC stream (what was written and
  not yet read, in order) and the client's read loop, as one step relation in which every critical
  section is a step and all of them interleave freely. The invariant is that the client only ever
  shows books the server had, at the revision they had it.
\<close>

section \<open>The handler and the stream\<close>

text \<open>
  The handler of \<^verbatim>\<open>SubscribeL2Diff\<close>: about to write the captured snapshot, in its drain loop,
  or returned.
\<close>

datatype handler = Writing l2_update | Streaming | Ended

record l2_stream =
  st_server :: symbol_book
  st_handler :: handler
  st_wire :: "l2_update list"
  st_client :: client
  st_history :: "(u64 \<times> l2_order_book) list"

definition drain_at :: "nat \<Rightarrow> symbol_book \<Rightarrow> symbol_book" where
  "drain_at a sb = sb\<lparr>l2_fanout := update_queue a (\<lambda>q. snd (snd (wait_and_drain q))) (l2_fanout sb)\<rparr>"

definition revision :: "symbol_book \<Rightarrow> u64 \<times> l2_order_book" where
  "revision sb = (sb_seq sb, aggregate (sb_book sb))"

text \<open>What the rest of the system does to the server between two steps of this subscription.\<close>

inductive other_step :: "nat \<Rightarrow> symbol_book \<Rightarrow> symbol_book \<Rightarrow> bool" for a :: nat where
  heartbeat: "other_step a sb (send_heartbeat now sb)"
| subscribe: "b \<noteq> a \<Longrightarrow> queue_at b (l2_fanout sb) = None \<Longrightarrow>
    other_step a sb (snd (subscribe_begin now b sb))"
| subscribed: "b \<noteq> a \<Longrightarrow> other_step a sb (snd (subscribe_end wrote b sb))"
| drain: "b \<noteq> a \<Longrightarrow> other_step a sb (drain_at b sb)"
| unsubscribe: "b \<noteq> a \<Longrightarrow> other_step a sb (unsubscribe b sb)"
| subscribe_bbo: "other_step a sb (snd (subscribe_bbo_begin now b sb))"
| subscribed_bbo: "other_step a sb (snd (subscribe_bbo_end wrote b sb))"
| unsubscribe_bbo: "other_step a sb (unsubscribe_bbo b sb)"

text \<open>
  The steps of subscription \<open>a\<close>. A write may fail after any prefix of a drained batch, the call may
  be cancelled, and the queue may be found closed; the handler then unsubscribes and returns.
\<close>

inductive stream_step :: "nat \<Rightarrow> l2_stream \<Rightarrow> l2_stream \<Rightarrow> bool" for a :: nat where
  ingest: "op_sizes_in_range (book_op_of op) \<Longrightarrow>
    stream_step a s (s\<lparr>st_server := server_step (st_server s) op,
      st_history := st_history s @ [revision (server_step (st_server s) op)]\<rparr>)"
| other: "other_step a (st_server s) sb \<Longrightarrow> stream_step a s (s\<lparr>st_server := sb\<rparr>)"
| write_initial: "st_handler s = Writing m \<Longrightarrow>
    stream_step a s (s\<lparr>st_server := snd (subscribe_end True a (st_server s)),
      st_handler := Streaming, st_wire := st_wire s @ [m]\<rparr>)"
| write_initial_fails: "st_handler s = Writing m \<Longrightarrow>
    stream_step a s (s\<lparr>st_server := snd (subscribe_end False a (st_server s)), st_handler := Ended\<rparr>)"
| drained: "st_handler s = Streaming \<Longrightarrow> queue_at a (l2_fanout (st_server s)) = Some q \<Longrightarrow>
    wait_and_drain q = (Drained, batch, q') \<Longrightarrow>
    stream_step a s (s\<lparr>st_server := drain_at a (st_server s), st_wire := st_wire s @ batch\<rparr>)"
| write_fails: "st_handler s = Streaming \<Longrightarrow> queue_at a (l2_fanout (st_server s)) = Some q \<Longrightarrow>
    wait_and_drain q = (Drained, batch, q') \<Longrightarrow>
    stream_step a s (s\<lparr>st_server := unsubscribe a (drain_at a (st_server s)),
      st_wire := st_wire s @ take k batch, st_handler := Ended\<rparr>)"
| overflowed: "st_handler s = Streaming \<Longrightarrow> queue_at a (l2_fanout (st_server s)) = Some q \<Longrightarrow>
    wait_and_drain q = (Closed, batch, q') \<Longrightarrow>
    stream_step a s (s\<lparr>st_server := unsubscribe a (st_server s), st_handler := Ended\<rparr>)"
| cancelled: "st_handler s = Streaming \<Longrightarrow>
    stream_step a s (s\<lparr>st_server := unsubscribe a (st_server s), st_handler := Ended\<rparr>)"
| read: "st_wire s = m # ms \<Longrightarrow>
    stream_step a s (s\<lparr>st_wire := ms, st_client := client_read (st_client s) m\<rparr>)"

text \<open>Subscription \<open>a\<close> starts on a server that any history has brought into its current state.\<close>

definition subscription_start :: "nat \<Rightarrow> u64 \<Rightarrow> symbol_book \<Rightarrow> l2_stream" where
  "subscription_start a now sb =
     (let (m, sb') = subscribe_begin now a sb
      in \<lparr>st_server = sb', st_handler = Writing m, st_wire = [], st_client = new_client,
          st_history = [revision sb]\<rparr>)"

inductive stream_reaches :: "nat \<Rightarrow> l2_stream \<Rightarrow> bool" for a :: nat where
  start: "sb_inv sb \<Longrightarrow> queue_at a (l2_fanout sb) = None \<Longrightarrow>
    stream_reaches a (subscription_start a now sb)"
| step: "stream_reaches a s \<Longrightarrow> stream_step a s s' \<Longrightarrow> stream_reaches a s'"

section \<open>The invariant\<close>

text \<open>Everything on its way to the client: the stream, the captured snapshot, the queue.\<close>

definition in_flight :: "nat \<Rightarrow> l2_stream \<Rightarrow> l2_update list" where
  "in_flight a s =
     st_wire s @ (case st_handler s of Writing m \<Rightarrow> [m] | _ \<Rightarrow> [])
     @ (case queue_at a (l2_fanout (st_server s)) of None \<Rightarrow> [] | Some q \<Rightarrow> q_entries q)"

text \<open>A client that shows nothing yet, or a revision of the history.\<close>

definition client_shows :: "(u64 \<times> l2_order_book) list \<Rightarrow> client \<Rightarrow> bool" where
  "client_shows history c \<longleftrightarrow>
     \<not> c_stopped c
     \<and> (case c_last_seq c of None \<Rightarrow> c_book c = empty_book | Some n \<Rightarrow> (n, c_book c) \<in> set history)"

definition stream_inv :: "nat \<Rightarrow> l2_stream \<Rightarrow> bool" where
  "stream_inv a s \<longleftrightarrow>
     sb_inv (st_server s)
     \<and> revision (st_server s) \<in> set (st_history s)
     \<and> along (client_shows (st_history s)) client_read (st_client s) (in_flight a s)
     \<and> (st_handler s \<noteq> Ended \<longrightarrow>
         (\<exists>q. queue_at a (l2_fanout (st_server s)) = Some q \<and> q_policy q = Close
            \<and> (q_closed q \<longrightarrow> q_entries q = [])
            \<and> (\<not> q_closed q \<longrightarrow>
                 in_step (foldl client_read (st_client s) (in_flight a s)) (st_server s))))
     \<and> (st_handler s = Ended \<longrightarrow> queue_at a (l2_fanout (st_server s)) = None)"

lemma client_shows_mono:
  "client_shows h c \<Longrightarrow> set h \<subseteq> set h' \<Longrightarrow> client_shows h' c"
  by (auto simp: client_shows_def split: option.splits)

lemma in_step_shows: "in_step c sb \<Longrightarrow> revision sb \<in> set h \<Longrightarrow> client_shows h c"
  by (simp add: in_step_def client_shows_def revision_def)

text \<open>The captured snapshot and the stream, without the queue.\<close>

definition sent :: "l2_stream \<Rightarrow> l2_update list" where
  "sent s = st_wire s @ (case st_handler s of Writing m \<Rightarrow> [m] | _ \<Rightarrow> [])"

lemma in_flight_sent:
  "in_flight a s = sent s @ (case queue_at a (l2_fanout (st_server s)) of None \<Rightarrow> [] | Some q \<Rightarrow> q_entries q)"
  by (simp add: in_flight_def sent_def)

lemma inv_quiet:
  assumes inv: "stream_inv a s" and sb: "sb_inv sb'" "revision sb' = revision (st_server s)"
    and q: "queue_at a (l2_fanout sb') = queue_at a (l2_fanout (st_server s))"
    and h: "set (st_history s) \<subseteq> set h'"
  shows "stream_inv a (s\<lparr>st_server := sb', st_history := h'\<rparr>)"
proof -
  let ?s' = "s\<lparr>st_server := sb', st_history := h'\<rparr>"
  have fl: "in_flight a ?s' = in_flight a s" by (simp add: in_flight_def q)
  have st: "in_step c sb' \<longleftrightarrow> in_step c (st_server s)" for c
    using sb(2) by (simp add: in_step_def revision_def)
  have "along (client_shows h') client_read (st_client s) (in_flight a s)"
    using inv h by (auto simp: stream_inv_def intro: along_mono client_shows_mono)
  with inv sb h show ?thesis by (auto simp: stream_inv_def fl q st)
qed

lemma inv_broadcast:
  assumes inv: "stream_inv a s" and sb: "sb_inv sb'" "revision sb' \<in> set h'"
    and q: "l2_fanout sb' = snd (broadcast m (l2_fanout (st_server s)))"
    and h: "set (st_history s) \<subseteq> set h'"
    and m: "\<And>c. in_step c (st_server s) \<Longrightarrow> in_step (client_read c m) sb'"
  shows "stream_inv a (s\<lparr>st_server := sb', st_history := h'\<rparr>)"
proof -
  let ?s' = "s\<lparr>st_server := sb', st_history := h'\<rparr>"
  have al: "along (client_shows h') client_read (st_client s) (in_flight a s)"
    using inv h by (auto simp: stream_inv_def intro: along_mono client_shows_mono)
  then have al_sent: "along (client_shows h') client_read (st_client s) (sent s)"
    by (simp add: in_flight_sent along_append)
  have snt: "sent ?s' = sent s" by (simp add: sent_def)
  show ?thesis
  proof (cases "st_handler s = Ended")
    case True
    then have none: "queue_at a (l2_fanout (st_server s)) = None" using inv by (simp add: stream_inv_def)
    then have "queue_at a (l2_fanout sb') = None" by (simp add: q queue_at_broadcast)
    with True sb al_sent snt show ?thesis by (simp add: stream_inv_def in_flight_sent)
  next
    case False
    then obtain qu where qu: "queue_at a (l2_fanout (st_server s)) = Some qu" "q_policy qu = Close"
      "q_closed qu \<longrightarrow> q_entries qu = []"
      "\<not> q_closed qu \<longrightarrow> in_step (foldl client_read (st_client s) (in_flight a s)) (st_server s)"
      using inv by (auto simp: stream_inv_def)
    define qu' where "qu' = snd (push_or_close m qu)"
    have q': "queue_at a (l2_fanout sb') = Some qu'" by (simp add: q queue_at_broadcast qu qu'_def)
    have fl': "in_flight a ?s' = sent s @ q_entries qu'" by (simp add: in_flight_sent snt q')
    have pol: "q_policy qu' = Close" using qu by (simp add: qu'_def push_or_close_def)
    show ?thesis
    proof (cases "q_closed qu'")
      case True
      then have "q_entries qu' = []" using qu by (auto simp: qu'_def push_or_close_def split: if_splits)
      with True False sb al_sent q' pol fl' show ?thesis by (simp add: stream_inv_def)
    next
      case open_q: False
      then have "\<not> q_closed qu" and e: "q_entries qu' = q_entries qu @ [m]"
        using qu by (auto simp: qu'_def push_or_close_def split: if_splits)
      with qu have st: "in_step (foldl client_read (st_client s) (in_flight a s)) (st_server s)" by simp
      have fl: "in_flight a ?s' = in_flight a s @ [m]" 
        unfolding fl' e by (simp add: in_flight_sent qu)
      have "along (client_shows h') client_read (st_client s) (in_flight a s @ [m])"
        using al m [OF st] sb(2) by (auto simp: along_append dest: along_end intro: in_step_shows)
      with False open_q sb q' pol m [OF st] fl show ?thesis by (simp add: stream_inv_def)
    qed
  qed
qed

lemmas server_defs = subscribe_begin_def subscribe_end_def subscribe_bbo_begin_def
  subscribe_bbo_end_def unsubscribe_def unsubscribe_bbo_def drain_at_def revision_def

lemma other_step_inv:
  assumes inv: "stream_inv a s" and step: "other_step a (st_server s) sb'"
  shows "stream_inv a (s\<lparr>st_server := sb'\<rparr>)"
proof -
  have sb: "sb_inv (st_server s)" and pol: "f_policy (l2_fanout (st_server s)) = Close"
      "f_policy (bbo_fanout (st_server s)) = DropOldest"
    using inv by (auto simp: stream_inv_def sb_inv_def)
  have quiet: "stream_inv a (s\<lparr>st_server := x\<rparr>)"
    if "sb_inv x" "revision x = revision (st_server s)"
      "queue_at a (l2_fanout x) = queue_at a (l2_fanout (st_server s))" for x
    using inv_quiet [OF inv that, of "st_history s"] by simp
  from step show ?thesis
  proof cases
    case (heartbeat now)
    let ?m = "L2Heartbeat now (live_venues (sb_book (st_server s)))"
    have "stream_inv a (s\<lparr>st_server := sb', st_history := st_history s\<rparr>)"
    proof (rule inv_broadcast [OF inv, where m = ?m])
      show "sb_inv sb'"
        using sb by (simp add: heartbeat send_heartbeat_def sb_inv_def best_bid_def best_ask_def)
      show "revision sb' \<in> set (st_history s)"
        using inv by (simp add: heartbeat send_heartbeat_def revision_def stream_inv_def)
      show "in_step c (st_server s) \<Longrightarrow> in_step (client_read c ?m) sb'" for c
        by (simp add: heartbeat send_heartbeat_def in_step_def)
    qed (simp_all add: heartbeat send_heartbeat_def)
    then show ?thesis by simp
  qed (use sb pol in \<open>auto intro!: quiet simp: server_defs Let_def sb_inv_fanout queue_at_subscribe
      queue_at_update queue_at_unsubscribe option.map_ident split: option.split\<close>)
qed

lemma inv_ended:
  assumes inv: "stream_inv a s" and sb: "sb_inv sb'" "revision sb' = revision (st_server s)"
    and q: "queue_at a (l2_fanout sb') = None" and w: "in_flight a s = w @ rest"
  shows "stream_inv a (s\<lparr>st_server := sb', st_wire := w, st_handler := Ended\<rparr>)"
proof -
  have "along (client_shows (st_history s)) client_read (st_client s) w"
    using inv w by (simp add: stream_inv_def along_append)
  moreover have "revision sb' \<in> set (st_history s)" using inv sb by (simp add: stream_inv_def)
  ultimately show ?thesis using sb q by (simp add: stream_inv_def in_flight_def)
qed

lemma in_flight_moved:
  assumes inv: "stream_inv a s" and sb: "sb_inv sb'" "revision sb' = revision (st_server s)"
    and h: "st_handler s \<noteq> Ended"
    and q: "queue_at a (l2_fanout (st_server s)) = Some q" "queue_at a (l2_fanout sb') = Some q'"
      "q_policy q' = q_policy q" "q_closed q' = q_closed q" "q_closed q \<longrightarrow> q_entries q' = []"
    and w: "w @ q_entries q' = in_flight a s"
  shows "stream_inv a (s\<lparr>st_server := sb', st_handler := Streaming, st_wire := w\<rparr>)"
proof -
  let ?s' = "s\<lparr>st_server := sb', st_handler := Streaming, st_wire := w\<rparr>"
  have fl: "in_flight a ?s' = in_flight a s" using w q(2) by (simp add: in_flight_def)
  have st: "in_step c sb' \<longleftrightarrow> in_step c (st_server s)" for c
    using sb(2) by (simp add: in_step_def revision_def)
  show ?thesis using inv sb h q by (auto simp: stream_inv_def fl st)
qed

lemma inv_ingest:
  assumes inv: "stream_inv a s" and rng: "op_sizes_in_range (book_op_of op)"
  shows "stream_inv a (s\<lparr>st_server := server_step (st_server s) op,
      st_history := st_history s @ [revision (server_step (st_server s) op)]\<rparr>)"
proof -
  have sb: "sb_inv (st_server s)" using inv by (simp add: stream_inv_def)
  note rev = server_step_revision [OF sb rng]
  from rev(3) show ?thesis
  proof
    assume "same_revision (st_server s) (server_step (st_server s) op)"
    then show ?thesis by (intro inv_quiet [OF inv rev(1)]) (auto simp: same_revision_def revision_def)
  next
    assume "\<exists>dbs das. next_revision (op_clock op) dbs das (st_server s) (server_step (st_server s) op)"
    then obtain dbs das where n: "next_revision (op_clock op) dbs das (st_server s) (server_step (st_server s) op)"
      by blast
    have ag: "agg_inv (sb_book (st_server s))" "agg_inv (sb_book (server_step (st_server s) op))"
      using sb rev(1) by (simp_all add: sb_inv_def)
    show ?thesis
    proof (rule inv_broadcast [OF inv rev(1)])
      show "l2_fanout (server_step (st_server s) op) = snd (broadcast
          (L2Diff (sb_seq (st_server s) + 1) (fst (op_clock op)) dbs das) (l2_fanout (st_server s)))"
        using n by (simp add: next_revision_def)
      show "in_step c (st_server s) \<Longrightarrow> in_step (client_read c
          (L2Diff (sb_seq (st_server s) + 1) (fst (op_clock op)) dbs das)) (server_step (st_server s) op)" for c
        by (rule read_diff_in_step [OF _ n ag])
    qed auto
  qed
qed

lemma unsubscribe_keeps:
  assumes "sb_inv x"
  shows "sb_inv (unsubscribe a x)" "revision (unsubscribe a x) = revision x"
    "queue_at a (l2_fanout (unsubscribe a x)) = None"
  using assms by (auto simp: unsubscribe_def revision_def queue_at_unsubscribe sb_inv_fanout sb_inv_def
      best_bid_def best_ask_def)

lemma drain_at_keeps:
  assumes "stream_inv a s"
  shows "sb_inv (drain_at a (st_server s))" "revision (drain_at a (st_server s)) = revision (st_server s)"
proof -
  have "sb_inv (st_server s)" "f_policy (l2_fanout (st_server s)) = Close"
    using assms by (auto simp: stream_inv_def sb_inv_def)
  then show "sb_inv (drain_at a (st_server s))" "revision (drain_at a (st_server s)) = revision (st_server s)"
    by (simp_all add: drain_at_def revision_def sb_inv_fanout)
qed

text \<open>The initial write, and the batches drained from the queue.\<close>

lemma inv_write_initial:
  assumes inv: "stream_inv a s" and m: "st_handler s = Writing m"
  shows "stream_inv a (s\<lparr>st_server := snd (subscribe_end True a (st_server s)), st_handler := Streaming,
      st_wire := st_wire s @ [m]\<rparr>)"
    and "stream_inv a (s\<lparr>st_server := snd (subscribe_end False a (st_server s)), st_handler := Ended\<rparr>)"
proof -
  have sb: "sb_inv (st_server s)" and pol: "f_policy (l2_fanout (st_server s)) = Close"
    using inv by (auto simp: stream_inv_def sb_inv_def)
  obtain q where q: "queue_at a (l2_fanout (st_server s)) = Some q" "q_closed q \<longrightarrow> q_entries q = []"
    using inv m by (auto simp: stream_inv_def)
  show "stream_inv a (s\<lparr>st_server := snd (subscribe_end True a (st_server s)), st_handler := Streaming,
      st_wire := st_wire s @ [m]\<rparr>)"
    using sb pol q m
    by (intro in_flight_moved [OF inv, where q = q and q' = "end_bootstrap q"])
      (simp_all add: server_defs Let_def sb_inv_fanout queue_at_update end_bootstrap_def in_flight_def)
  show "stream_inv a (s\<lparr>st_server := snd (subscribe_end False a (st_server s)), st_handler := Ended\<rparr>)"
    using inv_ended [OF inv, of "snd (subscribe_end False a (st_server s))" "st_wire s"] sb pol
    by (auto simp: server_defs Let_def sb_inv_fanout queue_at_unsubscribe in_flight_def)
qed

lemma inv_drained:
  assumes inv: "stream_inv a s" and h: "st_handler s = Streaming" "queue_at a (l2_fanout (st_server s)) = Some q"
    and d: "wait_and_drain q = (Drained, batch, q')"
  shows "stream_inv a (s\<lparr>st_server := drain_at a (st_server s), st_wire := st_wire s @ batch\<rparr>)"
    and "stream_inv a (s\<lparr>st_server := unsubscribe a (drain_at a (st_server s)), st_wire := st_wire s @ take k batch,
      st_handler := Ended\<rparr>)"
proof -
  note dr = drain_at_keeps [OF inv]
  have e: "\<not> q_closed q" "batch = q_entries q" "q' = q\<lparr>q_entries := []\<rparr>"
    using d by (auto simp: wait_and_drain_def split: if_splits)
  have "stream_inv a (s\<lparr>st_server := drain_at a (st_server s), st_handler := Streaming, st_wire := st_wire s @ batch\<rparr>)"
    using h d e by (intro in_flight_moved [OF inv dr, where q = q and q' = q'])
      (simp_all add: drain_at_def queue_at_update in_flight_def)
  with h show "stream_inv a (s\<lparr>st_server := drain_at a (st_server s), st_wire := st_wire s @ batch\<rparr>)" by (cases s) simp
  have fl: "in_flight a s = (st_wire s @ take k batch) @ drop k batch" using h e by (simp add: in_flight_def)
  show "stream_inv a (s\<lparr>st_server := unsubscribe a (drain_at a (st_server s)), st_wire := st_wire s @ take k batch,
      st_handler := Ended\<rparr>)"
    by (rule inv_ended [OF inv unsubscribe_keeps(1) _ unsubscribe_keeps(3) fl]) (simp_all add: dr unsubscribe_keeps)
qed

lemma inv_unsubscribed:
  assumes inv: "stream_inv a s" and h: "st_handler s = Streaming"
  shows "stream_inv a (s\<lparr>st_server := unsubscribe a (st_server s), st_handler := Ended\<rparr>)"
  using inv_ended [OF inv unsubscribe_keeps, of "st_wire s"] inv by (auto simp: in_flight_def stream_inv_def)

lemma stream_step_inv: "stream_step a s s' \<Longrightarrow> stream_inv a s \<Longrightarrow> stream_inv a s'"
proof (induction rule: stream_step.induct)
  case (read s m ms)
  then have "in_flight a s = m # in_flight a (s\<lparr>st_wire := ms, st_client := client_read (st_client s) m\<rparr>)"
    by (simp add: in_flight_def)
  with read show ?case by (auto simp: stream_inv_def)
qed (auto intro: inv_ingest other_step_inv inv_write_initial inv_drained inv_unsubscribed)

lemma stream_start_inv:
  assumes "sb_inv sb" "queue_at a (l2_fanout sb) = None"
  shows "stream_inv a (subscription_start a now sb)"
proof -
  have ag: "agg_inv (sb_book sb)" and pol: "f_policy (l2_fanout sb) = Close"
    using assms by (simp_all add: sb_inv_def)
  have st: "in_step (client_read new_client (build_snapshot now sb)) sb"
    by (rule read_snapshot_in_step [OF ag]) (simp add: new_client_def)
  have q: "queue_at a (fanout_subscribe a (l2_fanout sb)) = Some (new_queue (f_capacity (l2_fanout sb)) Close)"
    using assms pol by (simp add: queue_at_subscribe)
  let ?s = "subscription_start a now sb"
  have fl: "in_flight a ?s = [build_snapshot now sb]"
    by (simp add: in_flight_def subscription_start_def subscribe_begin_def q new_queue_def)
  have sv: "st_server ?s = sb\<lparr>l2_fanout := fanout_subscribe a (l2_fanout sb)\<rparr>" "st_client ?s = new_client"
    "st_history ?s = [revision sb]" "st_handler ?s = Writing (build_snapshot now sb)"
    by (simp_all add: subscription_start_def subscribe_begin_def)
  have "client_shows [revision sb] new_client" by (simp add: client_shows_def new_client_def)
  moreover have "client_shows [revision sb] (client_read new_client (build_snapshot now sb))"
    by (rule in_step_shows [OF st]) simp
  moreover have "in_step (client_read new_client (build_snapshot now sb)) (st_server ?s)"
    using st by (simp add: in_step_def sv)
  ultimately show ?thesis
    using assms(1) pol q
    by (simp add: stream_inv_def fl sv revision_def sb_inv_fanout, simp add: new_queue_def)
qed

lemma stream_reaches_inv: "stream_reaches a s \<Longrightarrow> stream_inv a s"
  by (induction rule: stream_reaches.induct) (auto intro: stream_start_inv stream_step_inv)

section \<open>Delivery\<close>

text \<open>A step during which the server's book stays as it is.\<close>

definition quiet_step :: "nat \<Rightarrow> l2_stream \<Rightarrow> l2_stream \<Rightarrow> bool" where
  "quiet_step a s s' \<longleftrightarrow>
     stream_step a s s' \<and> revision (st_server s') = revision (st_server s) \<and> st_history s' = st_history s"

definition open_stream :: "nat \<Rightarrow> l2_stream \<Rightarrow> bool" where
  "open_stream a s \<longleftrightarrow>
     st_handler s \<noteq> Ended \<and> (\<exists>q. queue_at a (l2_fanout (st_server s)) = Some q \<and> \<not> q_closed q)"

definition delivered :: "nat \<Rightarrow> l2_stream \<Rightarrow> bool" where
  "delivered a s \<longleftrightarrow> st_handler s = Streaming \<and> in_flight a s = []"

text \<open>A message in the queue is drained and read; one on the stream is read.\<close>

definition delivery_work :: "nat \<Rightarrow> l2_stream \<Rightarrow> nat" where
  "delivery_work a s = 2 * length (in_flight a s) - length (st_wire s)"

lemma delivery_progress:
  assumes inv: "stream_inv a s" and op: "open_stream a s" and more: "\<not> delivered a s"
  shows "\<exists>s'. quiet_step a s s' \<and> (stream_inv a s' \<and> open_stream a s') \<and> delivery_work a s' < delivery_work a s"
proof -
  obtain q where q: "queue_at a (l2_fanout (st_server s)) = Some q" "\<not> q_closed q" and h: "st_handler s \<noteq> Ended"
    using op by (auto simp: open_stream_def)
  have go: "\<exists>s'. quiet_step a s s' \<and> (stream_inv a s' \<and> open_stream a s') \<and> delivery_work a s' < delivery_work a s"
    if "stream_step a s s'" "revision (st_server s') = revision (st_server s)" "st_history s' = st_history s"
      "open_stream a s'" "delivery_work a s' < delivery_work a s" for s'
    using that stream_step_inv [OF that(1) inv] by (auto simp: quiet_step_def)
  show ?thesis
  proof (cases "st_wire s")
    case (Cons m ms)
    show ?thesis
      by (rule go [OF stream_step.read [OF Cons]])
        (use op Cons in \<open>auto simp: open_stream_def delivery_work_def in_flight_def\<close>)
  next
    case Nil
    show ?thesis
    proof (cases "st_handler s")
      case (Writing m)
      show ?thesis
        by (rule go [OF stream_step.write_initial [OF Writing]])
          (use Nil Writing q in \<open>simp_all add: open_stream_def delivery_work_def in_flight_def server_defs Let_def
            queue_at_update end_bootstrap_def\<close>)
    next
      case Streaming
      with more Nil q have "q_entries q \<noteq> []" by (simp add: delivered_def in_flight_def)
      with q have d: "wait_and_drain q = (Drained, q_entries q, q\<lparr>q_entries := []\<rparr>)" by (simp add: wait_and_drain_def)
      show ?thesis
        by (rule go [OF stream_step.drained [OF Streaming q(1) d]])
          (use Nil Streaming q d \<open>q_entries q \<noteq> []\<close> in \<open>simp_all add: open_stream_def delivery_work_def in_flight_def
            drain_at_def revision_def queue_at_update\<close>)
    qed (use h in simp)
  qed
qed

interpretation delivery: finishing "quiet_step a" "\<lambda>s. stream_inv a s \<and> open_stream a s" "delivered a"
  "delivery_work a" for a
  by unfold_locales (use delivery_progress in blast)

lemma quiet_steps_revision: "(quiet_step a ^^ n) s s' \<Longrightarrow> revision (st_server s') = revision (st_server s)"
  by (induction n arbitrary: s') (auto simp: quiet_step_def)

lemma delivered_in_step:
  assumes "stream_inv a s" "open_stream a s" "in_flight a s = []"
  shows "in_step (st_client s) (st_server s)"
  using assms by (auto simp: stream_inv_def open_stream_def)

section \<open>A concrete run\<close>

text \<open>
  A venue reports its first level while the subscription still has its initial snapshot to write;
  the client then reads the snapshot and the diff.
\<close>

definition sample_op :: server_op where
  "sample_op = SApplyBatch (3, 4) (VenueId Okx Spot) [(100, 5)] []"

definition sample_stream :: l2_stream where
  "sample_stream = subscription_start 7 2 new_symbol_book"

definition sample_ingested :: l2_stream where
  "sample_ingested = sample_stream\<lparr>st_server := server_step (st_server sample_stream) sample_op,
     st_history := st_history sample_stream @ [revision (server_step (st_server sample_stream) sample_op)]\<rparr>"

definition sample_written :: l2_stream where
  "sample_written = sample_ingested\<lparr>st_server := snd (subscribe_end True 7 (st_server sample_ingested)),
     st_handler := Streaming, st_wire := st_wire sample_ingested @ [L2Snapshot 0 2 [] []]\<rparr>"

definition sample_drained :: l2_stream where
  "sample_drained = sample_written\<lparr>st_server := drain_at 7 (st_server sample_written),
     st_wire := st_wire sample_written @ [L2Diff 1 3 [(100, 5)] []]\<rparr>"

definition sample_read :: "l2_stream \<Rightarrow> l2_stream" where
  "sample_read s = s\<lparr>st_wire := tl (st_wire s), st_client := client_read (st_client s) (hd (st_wire s))\<rparr>"

lemma sample_stream_parts:
  "st_handler sample_stream = Writing (L2Snapshot 0 2 [] [])" "st_client sample_stream = new_client"
  "st_server sample_stream = new_symbol_book\<lparr>l2_fanout := fanout_subscribe 7 (new_fanout 256 Close)\<rparr>"
  "st_history sample_stream = [(0, empty_book)]" "st_wire sample_stream = []"
  by (simp_all add: sample_stream_def subscription_start_def subscribe_begin_def build_snapshot_def
      new_symbol_book_def revision_def kSubscriberQueueCapacity_def)

lemma sample_ingested_parts:
  "queue_at 7 (l2_fanout (st_server sample_ingested)) =
     Some ((new_queue 256 Close)\<lparr>q_entries := [L2Diff 1 3 [(100, 5)] []]\<rparr>)"
  "st_history sample_ingested = [(0, empty_book), (1, \<lparr>asks = [], bids = [(100, 5)]\<rparr>)]"
  by (simp_all add: sample_ingested_def sample_stream_parts sample_op_def sb_apply_batch_def all_valid_def
      is_valid_level_def apply_batch_def venue_book_def new_symbol_book_def apply_level_def set_level_def
      adjust_aggregate_def om_emplace_def fp_sub_def fp_add_def from_raw_checked_def i64_defs Let_def
      sink_calls_def publish_def collect_changes_def collect_def best_bid_def best_ask_def revision_def
      broadcast_def fanout_subscribe_def new_fanout_def new_queue_def push_or_close_def queue_at_def
      effective_capacity_def kBootstrapCapacityMultiplier_def)

lemma sample_written_queue:
  "queue_at 7 (l2_fanout (st_server sample_written)) =
     Some (end_bootstrap ((new_queue 256 Close)\<lparr>q_entries := [L2Diff 1 3 [(100, 5)] []]\<rparr>))"
  by (simp add: sample_written_def subscribe_end_def Let_def queue_at_update sample_ingested_parts)

lemma sample_stream_steps:
  "stream_step 7 sample_stream sample_ingested" "stream_step 7 sample_ingested sample_written"
  "stream_step 7 sample_written sample_drained"
  "st_wire sample_drained = [L2Snapshot 0 2 [] [], L2Diff 1 3 [(100, 5)] []]"
proof -
  show "stream_step 7 sample_stream sample_ingested"
    unfolding sample_ingested_def
    by (rule stream_step.ingest) (simp add: sample_op_def sizes_in_range_def venue_size_limit_def i64_max_def)
  show "stream_step 7 sample_ingested sample_written"
    unfolding sample_written_def
    by (rule stream_step.write_initial) (simp add: sample_ingested_def sample_stream_parts)
  show "stream_step 7 sample_written sample_drained"
    unfolding sample_drained_def
    by (rule stream_step.drained [OF _ sample_written_queue])
      (simp_all add: wait_and_drain_def end_bootstrap_def new_queue_def, simp add: sample_written_def)
  show "st_wire sample_drained = [L2Snapshot 0 2 [] [], L2Diff 1 3 [(100, 5)] []]"
    by (simp add: sample_drained_def sample_written_def sample_ingested_def sample_stream_parts)
qed

lemma sample_fresh_server: "sb_inv new_symbol_book" "queue_at 7 (l2_fanout new_symbol_book) = None"
  by (simp add: sb_inv_new) (simp add: new_symbol_book_def new_fanout_def queue_at_def)

lemma sample_run: "stream_reaches 7 (sample_read (sample_read sample_drained))"
proof -
  have "stream_reaches 7 sample_stream"
    unfolding sample_stream_def by (rule stream_reaches.start [OF sample_fresh_server])
  moreover have "stream_step 7 sample_drained (sample_read sample_drained)"
    unfolding sample_read_def by (intro stream_step.read) (simp add: sample_stream_steps)
  moreover have "stream_step 7 (sample_read sample_drained) (sample_read (sample_read sample_drained))"
    unfolding sample_read_def [of "sample_read sample_drained"]
    by (intro stream_step.read) (simp add: sample_read_def sample_stream_steps)
  ultimately show ?thesis using sample_stream_steps(1-3) by (meson stream_reaches.step)
qed

lemma sample_client:
  "c_last_seq (st_client (sample_read (sample_read sample_drained))) = Some 1"
  "st_history (sample_read (sample_read sample_drained))
     = [(0, empty_book), (1, \<lparr>asks = [], bids = [(100, 5)]\<rparr>)]"
  "st_handler (sample_read (sample_read sample_drained)) = Streaming"
  using sample_ingested_parts(2)
  by (simp_all add: sample_read_def sample_drained_def sample_written_def sample_ingested_def
      sample_stream_parts new_client_def is_book_seq_gap_def)

section \<open>Properties\<close>

text \<open>
  C2. The client's book is the server's. In every interleaving of ingestion, heartbeats, other
  subscribers, the handler thread and the client's reads, with failed writes, cancellation and
  overflow at any point: the client never sees a gap in \<^verbatim>\<open>book_seq\<close>, and from its first
  message on the book it shows under revision \<open>n\<close> is exactly, level for level and in order, the
  aggregate the server had at revision \<open>n\<close>. While the subscription is alive and its queue has not
  overflowed, a client for which nothing is in flight shows exactly the aggregate the server has.
\<close>

theorem client_shows_server_book:
  assumes "stream_reaches a s"
  shows "\<not> c_stopped (st_client s)
    \<and> (\<forall>n. c_last_seq (st_client s) = Some n \<longrightarrow> (n, c_book (st_client s)) \<in> set (st_history s))
    \<and> (open_stream a s \<and> in_flight a s = [] \<longrightarrow>
         c_book (st_client s) = aggregate (sb_book (st_server s))
         \<and> c_last_seq (st_client s) = Some (sb_seq (st_server s)))"
  using stream_reaches_inv [OF assms] delivered_in_step [OF stream_reaches_inv [OF assms]]
  by (auto simp: stream_inv_def client_shows_def in_step_def dest!: along_start)

lemma sample_open: "open_stream 7 (sample_read (sample_read sample_drained))"
  "in_flight 7 (sample_read (sample_read sample_drained)) = []"
proof -
  have q: "queue_at 7 (l2_fanout (st_server (sample_read (sample_read sample_drained)))) =
      Some (end_bootstrap (new_queue 256 Close))"
    using sample_written_queue
    by (simp add: sample_read_def sample_drained_def drain_at_def queue_at_update wait_and_drain_def
        end_bootstrap_def new_queue_def)
  then show "open_stream 7 (sample_read (sample_read sample_drained))"
    using sample_client(3) by (simp add: open_stream_def end_bootstrap_def new_queue_def)
  from q show "in_flight 7 (sample_read (sample_read sample_drained)) = []"
    using sample_client(3) sample_stream_steps(4) by (simp add: in_flight_def end_bootstrap_def new_queue_def sample_read_def)
qed

theorem client_shows_server_book_witness:
  "c_last_seq (st_client (sample_read (sample_read sample_drained))) = Some 1
   \<and> c_book (st_client (sample_read (sample_read sample_drained)))
       = aggregate (sb_book (st_server (sample_read (sample_read sample_drained))))"
  using client_shows_server_book [OF sample_run] sample_client(1) sample_open by blast

text \<open>
  C3. The client catches up. From every reachable state of a subscription that is alive and whose queue
  has not overflowed, boundedly many steps of the handler and the client (the initial write, the drain
  of the queue, the reads), at most two for each message on its way, lead to a state in which the
  handler still streams, nothing is in flight, and the client has exactly the aggregate and the
  revision the server had at the outset and still has.
\<close>

theorem client_catches_up:
  assumes "stream_reaches a s" "open_stream a s"
  shows "\<exists>n \<le> 2 * length (in_flight a s). \<exists>s'. (quiet_step a ^^ n) s s'
    \<and> st_handler s' = Streaming \<and> in_flight a s' = []
    \<and> revision (st_server s') = revision (st_server s)
    \<and> c_book (st_client s') = aggregate (sb_book (st_server s))
    \<and> c_last_seq (st_client s') = Some (sb_seq (st_server s))"
proof -
  obtain n s' where n: "n \<le> delivery_work a s" "(quiet_step a ^^ n) s s'"
    and s': "stream_inv a s'" "open_stream a s'" "delivered a s'"
    using delivery.finishes [of a s] stream_reaches_inv [OF assms(1)] assms(2) by blast
  have rev: "revision (st_server s') = revision (st_server s)" by (rule quiet_steps_revision [OF n(2)])
  have "in_step (st_client s') (st_server s')"
    using delivered_in_step [OF s'(1,2)] s'(3) by (simp add: delivered_def)
  with rev n s'(3) show ?thesis
    by (intro exI [of _ n] conjI exI [of _ s'])
      (simp_all add: delivery_work_def delivered_def in_step_def revision_def)
qed

text \<open>From the state in which the initial snapshot is still to be written and a diff is queued.\<close>

theorem client_catches_up_witness:
  "\<exists>n \<le> 4. \<exists>s'. (quiet_step 7 ^^ n) sample_ingested s'
     \<and> in_flight 7 s' = [] \<and> c_last_seq (st_client s') = Some (sb_seq (st_server sample_ingested))"
proof -
  have "stream_reaches 7 sample_stream"
    unfolding sample_stream_def by (rule stream_reaches.start [OF sample_fresh_server])
  then have r: "stream_reaches 7 sample_ingested" using sample_stream_steps(1) by (rule stream_reaches.step)
  have h: "st_handler sample_ingested = Writing (L2Snapshot 0 2 [] [])" "st_wire sample_ingested = []"
    by (simp_all add: sample_ingested_def sample_stream_parts)
  then have "open_stream 7 sample_ingested" "length (in_flight 7 sample_ingested) = 2"
    using sample_ingested_parts(1) by (simp_all add: open_stream_def in_flight_def new_queue_def)
  with client_catches_up [OF r] show ?thesis by fastforce
qed

end
