(* ===== verification/Bbo_Stream.thy ===== *)
theory Bbo_Stream
  imports Symbol_Book
begin

text \<open>
  One BBO subscription: its \<^verbatim>\<open>DropOldest\<close> queue may skip updates, and the promise is that what
  is newest is never lost. That holds as long as the handler drains often enough for heartbeats,
  which share the queue, not to fill it; without that it fails, and the development shows how.
\<close>

section \<open>The subscription as a step relation\<close>

text \<open>\<open>None\<close> once the initial state has been written.\<close>

record bbo_stream =
  bs_server :: symbol_book
  bs_initial :: "bbo_update option"
  bs_written :: "bbo_update list"

fun is_bbo :: "bbo_update \<Rightarrow> bool" where
  "is_bbo (Bbo n ts b a) \<longleftrightarrow> True"
| "is_bbo (BboHeartbeat ts vs) \<longleftrightarrow> False"

definition drain_bbo_at :: "nat \<Rightarrow> symbol_book \<Rightarrow> symbol_book" where
  "drain_bbo_at a sb =
     sb\<lparr>bbo_fanout := update_queue a (\<lambda>q. snd (snd (wait_and_drain q))) (bbo_fanout sb)\<rparr>"

definition waiting_heartbeats :: "bbo_update subscriber_queue \<Rightarrow> nat" where
  "waiting_heartbeats q = length (filter (\<lambda>m. \<not> is_bbo m) (q_entries q))"

text \<open>
  While the handler is in its loop. With \<open>prompt\<close>, a heartbeat only comes while the queue has room for more heartbeats than it
  holds: the handler drains before as many have piled up as the queue has places.
\<close>

inductive bbo_step :: "nat \<Rightarrow> bool \<Rightarrow> bbo_stream \<Rightarrow> bbo_stream \<Rightarrow> bool"
  for a :: nat and prompt :: bool where
  ingest: "op_sizes_in_range (book_op_of op) \<Longrightarrow>
    bbo_step a prompt s (s\<lparr>bs_server := server_step (bs_server s) op\<rparr>)"
| heartbeat: "(prompt \<Longrightarrow> \<exists>q. queue_at a (bbo_fanout (bs_server s)) = Some q
      \<and> waiting_heartbeats q + 1 < q_capacity q) \<Longrightarrow>
    bbo_step a prompt s (s\<lparr>bs_server := send_heartbeat now (bs_server s)\<rparr>)"
| subscribe: "b \<noteq> a \<Longrightarrow> queue_at b (bbo_fanout (bs_server s)) = None \<Longrightarrow>
    bbo_step a prompt s (s\<lparr>bs_server := snd (subscribe_bbo_begin now b (bs_server s))\<rparr>)"
| subscribed: "b \<noteq> a \<Longrightarrow>
    bbo_step a prompt s (s\<lparr>bs_server := snd (subscribe_bbo_end wrote b (bs_server s))\<rparr>)"
| unsubscribe: "b \<noteq> a \<Longrightarrow> bbo_step a prompt s (s\<lparr>bs_server := unsubscribe_bbo b (bs_server s)\<rparr>)"
| drain: "b \<noteq> a \<Longrightarrow> bbo_step a prompt s (s\<lparr>bs_server := drain_bbo_at b (bs_server s)\<rparr>)"
| write_initial: "bs_initial s = Some m \<Longrightarrow>
    bbo_step a prompt s (s\<lparr>bs_server := snd (subscribe_bbo_end True a (bs_server s)),
      bs_initial := None, bs_written := bs_written s @ [m]\<rparr>)"
| drained: "bs_initial s = None \<Longrightarrow> queue_at a (bbo_fanout (bs_server s)) = Some q \<Longrightarrow>
    wait_and_drain q = (Drained, batch, q') \<Longrightarrow>
    bbo_step a prompt s (s\<lparr>bs_server := drain_bbo_at a (bs_server s),
      bs_written := bs_written s @ batch\<rparr>)"

text \<open>
  The returns of the handler: the initial write failed, the queue was closed, a write of the batch
  failed after some updates were written, or the call was cancelled.
\<close>

inductive bbo_ends :: "nat \<Rightarrow> bbo_stream \<Rightarrow> bbo_stream \<Rightarrow> bool" for a :: nat where
  initial_fails: "bs_initial s = Some m \<Longrightarrow>
    bbo_ends a s (s\<lparr>bs_server := snd (subscribe_bbo_end False a (bs_server s)), bs_initial := None\<rparr>)"
| closed: "bs_initial s = None \<Longrightarrow> queue_at a (bbo_fanout (bs_server s)) = Some q \<Longrightarrow>
    wait_and_drain q = (Closed, batch, q') \<Longrightarrow>
    bbo_ends a s (s\<lparr>bs_server := unsubscribe_bbo a (bs_server s)\<rparr>)"
| write_fails: "bs_initial s = None \<Longrightarrow> queue_at a (bbo_fanout (bs_server s)) = Some q \<Longrightarrow>
    wait_and_drain q = (Drained, batch, q') \<Longrightarrow> n < length batch \<Longrightarrow>
    bbo_ends a s (s\<lparr>bs_server := unsubscribe_bbo a (drain_bbo_at a (bs_server s)),
      bs_written := bs_written s @ take n batch\<rparr>)"
| cancelled: "bs_initial s = None \<Longrightarrow> bbo_ends a s (s\<lparr>bs_server := unsubscribe_bbo a (bs_server s)\<rparr>)"

definition bbo_subscription_start :: "nat \<Rightarrow> u64 \<Rightarrow> symbol_book \<Rightarrow> bbo_stream" where
  "bbo_subscription_start a now sb =
     (let (m, sb') = subscribe_bbo_begin now a sb
      in \<lparr>bs_server = sb', bs_initial = Some m, bs_written = []\<rparr>)"

inductive bbo_reaches :: "nat \<Rightarrow> bool \<Rightarrow> bbo_stream \<Rightarrow> bool" for a :: nat and prompt :: bool where
  start: "sb_inv sb \<Longrightarrow> queue_at a (bbo_fanout sb) = None \<Longrightarrow> 0 < f_capacity (bbo_fanout sb) \<Longrightarrow>
    bbo_reaches a prompt (bbo_subscription_start a now sb)"
| step: "bbo_reaches a prompt s \<Longrightarrow> bbo_step a prompt s s' \<Longrightarrow> bbo_reaches a prompt s'"

section \<open>The newest state on its way\<close>

definition bbo_queue :: "nat \<Rightarrow> bbo_stream \<Rightarrow> bbo_update list" where
  "bbo_queue a s = (case queue_at a (bbo_fanout (bs_server s)) of None \<Rightarrow> [] | Some q \<Rightarrow> q_entries q)"

definition bbo_sent :: "bbo_stream \<Rightarrow> bbo_update list" where
  "bbo_sent s = bs_written s @ (case bs_initial s of None \<Rightarrow> [] | Some m \<Rightarrow> [m])"

text \<open>The last top of book among some messages.\<close>

definition latest :: "bbo_update list \<Rightarrow> ((price \<times> size_t) option \<times> (price \<times> size_t) option) option" where
  "latest ms = (case rev (filter is_bbo ms) of [] \<Rightarrow> None | m # _ \<Rightarrow> Some (bbo_bid m, bbo_ask m))"

definition top :: "symbol_book \<Rightarrow> (price \<times> size_t) option \<times> (price \<times> size_t) option" where
  "top sb = (best_bid sb, best_ask sb)"

definition bbo_inv :: "nat \<Rightarrow> bbo_stream \<Rightarrow> bool" where
  "bbo_inv a s \<longleftrightarrow>
     sb_inv (bs_server s)
     \<and> (\<exists>q. queue_at a (bbo_fanout (bs_server s)) = Some q \<and> q_policy q = DropOldest \<and> queue_ok q)
     \<and> latest (bbo_sent s @ bbo_queue a s) = Some (top (bs_server s))"

lemma latest_append:
  "latest (xs @ ys) = (case latest ys of None \<Rightarrow> latest xs | Some t \<Rightarrow> Some t)"
  by (auto simp: latest_def split: list.split)

lemma latest_Bbo [simp]: "latest [Bbo n ts b a] = Some (b, a)"
  by (simp add: latest_def)

lemma latest_BboHeartbeat [simp]: "latest [BboHeartbeat ts vs] = None"
  by (simp add: latest_def)

lemma latest_tl:
  "latest (tl q) = None \<or> latest (tl q) = latest q"
proof (cases q)
  case (Cons m ms)
  then show ?thesis using latest_append [of "[m]" ms] by (auto split: option.splits)
qed simp

lemma latest_None: "latest q = None \<longleftrightarrow> (\<forall>m \<in> set q. \<not> is_bbo m)"
proof -
  have "latest q = None \<longleftrightarrow> filter is_bbo q = []"
    by (cases "filter is_bbo q" rule: rev_cases) (simp_all add: latest_def)
  then show ?thesis by (simp add: filter_empty_conv)
qed

text \<open>A push onto the queue: the newest state becomes the pushed one, or stays.\<close>

lemma latest_push:
  assumes q: "q_policy q = DropOldest" "queue_ok q"
    and old: "latest (xs @ q_entries q) = Some t"
    and room: "is_bbo m \<or> waiting_heartbeats q + 1 < q_capacity q"
  shows "latest (xs @ q_entries (snd (push_or_close m q)))
    = (if is_bbo m then Some (bbo_bid m, bbo_ask m) else Some t)"
proof -
  have op: "\<not> q_closed q" using q by (auto simp: queue_ok_def)
  define e where
    "e = (if effective_capacity q \<le> length (q_entries q) then tl (q_entries q) else q_entries q)"
  have "q_capacity q \<le> effective_capacity q"
    by (simp add: effective_capacity_def kBootstrapCapacityMultiplier_def)
  then have e: "q_entries (snd (push_or_close m q)) = e @ [m]" "e = q_entries q \<or>
      e = tl (q_entries q) \<and> q_capacity q \<le> length (q_entries q)"
    using op q(1) by (auto simp: push_or_close_def e_def)
  show ?thesis
  proof (cases m)
    case (Bbo n ts b a)
    then show ?thesis unfolding e(1) by (simp add: latest_append)
  next
    case (BboHeartbeat ts vs)
    have "latest (xs @ e) = Some t"
      using e(2)
    proof
      assume tl: "e = tl (q_entries q) \<and> q_capacity q \<le> length (q_entries q)"
      show ?thesis
      proof (cases "latest e")
        case None
        then have "filter (\<lambda>m. \<not> is_bbo m) e = e" by (auto simp: latest_None filter_id_conv)
        moreover have "length (filter (\<lambda>m. \<not> is_bbo m) e) \<le> waiting_heartbeats q"
          using tl by (cases "q_entries q") (auto simp: waiting_heartbeats_def)
        ultimately have "length e \<le> waiting_heartbeats q" by simp
        with tl room BboHeartbeat have False by auto
        then show ?thesis ..
      next
        case (Some u)
        with tl latest_tl [of "q_entries q"] have "latest (q_entries q) = Some u" by auto
        with Some old show ?thesis by (simp add: latest_append)
      qed
    qed (use old in simp)
    with BboHeartbeat show ?thesis
      unfolding e(1) using latest_append [of "xs @ e" "[m]"] by simp
  qed
qed

lemma inv_queue:
  assumes inv: "bbo_inv a s" and sb: "sb_inv sb'"
    and q': "queue_at a (bbo_fanout sb') = Some q'" "q_policy q' = DropOldest" "queue_ok q'"
    and t: "latest (bbo_sent s @ q_entries q') = Some (top sb')"
  shows "bbo_inv a (s\<lparr>bs_server := sb'\<rparr>)"
  using assms by (simp add: bbo_inv_def bbo_queue_def bbo_sent_def)

lemma inv_untouched:
  assumes "bbo_inv a s" "sb_inv sb'" "top sb' = top (bs_server s)"
    "queue_at a (bbo_fanout sb') = queue_at a (bbo_fanout (bs_server s))"
  shows "bbo_inv a (s\<lparr>bs_server := sb'\<rparr>)"
  using assms by (simp add: bbo_inv_def bbo_queue_def bbo_sent_def)

lemma inv_push:
  assumes inv: "bbo_inv a s" and sb: "sb_inv sb'"
    and f: "bbo_fanout sb' = snd (broadcast m (bbo_fanout (bs_server s)))"
    and m: "if is_bbo m then top sb' = (bbo_bid m, bbo_ask m)
      else top sb' = top (bs_server s) \<and> (\<exists>q. queue_at a (bbo_fanout (bs_server s)) = Some q
        \<and> waiting_heartbeats q + 1 < q_capacity q)"
  shows "bbo_inv a (s\<lparr>bs_server := sb'\<rparr>)"
proof -
  obtain q where q: "queue_at a (bbo_fanout (bs_server s)) = Some q" "q_policy q = DropOldest" "queue_ok q"
    and old: "latest (bbo_sent s @ q_entries q) = Some (top (bs_server s))"
    using inv by (auto simp: bbo_inv_def bbo_queue_def)
  let ?q' = "snd (push_or_close m q)"
  have "latest (bbo_sent s @ q_entries ?q') = Some (top sb')"
    using latest_push [OF q(2,3) old, of m] m q(1) by (auto split: if_splits)
  moreover have "queue_at a (bbo_fanout sb') = Some ?q'" by (simp add: f queue_at_broadcast q(1))
  moreover have "q_policy ?q' = DropOldest" using q(2) by (simp add: push_or_close_def)
  ultimately show ?thesis using inv_queue [OF inv sb] push_queue_ok [OF q(3)] by blast
qed

lemma top_fanout [simp]: "top (sb\<lparr>bbo_fanout := g\<rparr>) = top sb"
  by (simp add: top_def best_bid_def best_ask_def)

lemmas bbo_server_defs = subscribe_bbo_begin_def subscribe_bbo_end_def unsubscribe_bbo_def drain_bbo_at_def

lemma inv_ingest_bbo:
  assumes inv: "bbo_inv a s" and rng: "op_sizes_in_range (book_op_of op)"
  shows "bbo_inv a (s\<lparr>bs_server := server_step (bs_server s) op\<rparr>)"
proof -
  let ?sb' = "server_step (bs_server s) op"
  have sb: "sb_inv (bs_server s)" using inv by (simp add: bbo_inv_def)
  note rev = server_step_revision [OF sb rng]
  from rev(3) consider "same_revision (bs_server s) ?sb'"
    | dbs das where "next_revision (op_clock op) dbs das (bs_server s) ?sb'" by blast
  then show ?thesis
  proof cases
    case 1
    then have "top ?sb' = top (bs_server s)" "bbo_fanout ?sb' = bbo_fanout (bs_server s)"
      by (simp_all add: same_revision_def top_def best_bid_def best_ask_def)
    with inv_untouched [OF inv rev(1)] show ?thesis by simp
  next
    case 2
    then have "bbo_announced (snd (op_clock op)) (bs_server s) ?sb'" by (simp add: next_revision_def)
    then show ?thesis
      using inv_untouched [OF inv rev(1)] inv_push [OF inv rev(1)]
      by (auto simp: bbo_announced_def top_def split: if_splits)
  qed
qed

lemma bbo_step_inv:
  assumes inv: "bbo_inv a s" and step: "bbo_step a True s s'"
  shows "bbo_inv a s'"
proof -
  have sb: "sb_inv (bs_server s)" and pol: "f_policy (bbo_fanout (bs_server s)) = DropOldest"
    using inv by (auto simp: bbo_inv_def sb_inv_def)
  obtain q where q: "queue_at a (bbo_fanout (bs_server s)) = Some q" "q_policy q = DropOldest" "queue_ok q"
    and old: "latest (bbo_sent s @ q_entries q) = Some (top (bs_server s))"
    using inv by (auto simp: bbo_inv_def bbo_queue_def)
  from step show ?thesis
  proof cases
    case (ingest op)
    with inv_ingest_bbo [OF inv ingest(2)] show ?thesis by simp
  next
    case (heartbeat now)
    let ?sb' = "send_heartbeat now (bs_server s)"
    have "sb_inv ?sb'" "top ?sb' = top (bs_server s)"
      using sb by (simp_all add: send_heartbeat_def sb_inv_def top_def best_bid_def best_ask_def)
    with inv_push [OF inv, of ?sb' "BboHeartbeat now (live_venues (sb_book (bs_server s)))"] heartbeat
    show ?thesis by (simp add: send_heartbeat_def)
  next
    case (write_initial m)
    have "queue_ok (end_bootstrap q)" using q(3) by (simp add: queue_ok_def end_bootstrap_def)
    with inv sb pol q write_initial show ?thesis
      by (simp add: bbo_inv_def bbo_server_defs Let_def sb_inv_fanout bbo_queue_def bbo_sent_def
          queue_at_update end_bootstrap_def)
  next
    case (drained q1 batch q1')
    then have "batch = q_entries q" "q1' = q\<lparr>q_entries := []\<rparr>" "q1 = q"
      using q(1) by (auto simp: wait_and_drain_def split: if_splits)
    with drained inv sb pol q show ?thesis
      by (simp add: bbo_inv_def bbo_server_defs sb_inv_fanout bbo_queue_def bbo_sent_def
          queue_at_update queue_ok_def)
  qed (use sb pol in \<open>auto intro!: inv_untouched [OF inv] simp: bbo_server_defs Let_def sb_inv_fanout
      queue_at_subscribe queue_at_update queue_at_unsubscribe option.map_ident\<close>)
qed

lemma bbo_start_inv:
  assumes "sb_inv sb" "queue_at a (bbo_fanout sb) = None" "0 < f_capacity (bbo_fanout sb)"
  shows "bbo_inv a (bbo_subscription_start a now sb)"
  using assms
  by (simp add: bbo_inv_def bbo_subscription_start_def subscribe_bbo_begin_def sb_inv_fanout bbo_queue_def
      bbo_sent_def queue_at_subscribe build_bbo_def top_def best_bid_def best_ask_def,
      simp add: new_queue_def queue_ok_def sb_inv_def best_bid_def best_ask_def)

lemma bbo_reaches_inv: "bbo_reaches a True s \<Longrightarrow> bbo_inv a s"
  by (induction rule: bbo_reaches.induct) (auto intro: bbo_start_inv bbo_step_inv)

text \<open>
  However the handler returns, the book is as it was and holds no queue of the subscriber any more;
  the branch for a closed queue, which the code keeps for completeness, is never taken.
\<close>

lemma bbo_queue_never_closed:
  "bbo_reaches a True s \<Longrightarrow> queue_at a (bbo_fanout (bs_server s)) = Some q \<Longrightarrow> fst (wait_and_drain q) \<noteq> Closed"
  using bbo_reaches_inv [of a s] by (auto simp: bbo_inv_def queue_ok_def wait_and_drain_def)

lemma bbo_ends_cleanly:
  assumes "bbo_reaches a True s" "bbo_ends a s s'"
  shows "queue_at a (bbo_fanout (bs_server s')) = None \<and> sb_book (bs_server s') = sb_book (bs_server s)
    \<and> sb_inv (bs_server s')"
  using assms(2) bbo_reaches_inv [OF assms(1)]
  by (cases rule: bbo_ends.cases)
    (auto simp: bbo_inv_def bbo_server_defs Let_def queue_at_unsubscribe sb_inv_def best_bid_def best_ask_def)

section \<open>A slow subscriber\<close>

text \<open>
  The subscriber is written its initial state, the book gets its first level, and then nothing
  happens for a while but heartbeats.
\<close>

definition quiet_start :: bbo_stream where
  "quiet_start = bbo_subscription_start 7 2 new_symbol_book"

definition quiet_written :: bbo_stream where
  "quiet_written = quiet_start\<lparr>bs_server := snd (subscribe_bbo_end True 7 (bs_server quiet_start)),
     bs_initial := None, bs_written := bs_written quiet_start @ [Bbo 0 2 None None]\<rparr>"

definition quiet_op :: server_op where
  "quiet_op = SApplyBatch (3, 4) (VenueId Okx Spot) [(100, 5)] []"

definition quiet_ingested :: bbo_stream where
  "quiet_ingested = quiet_written\<lparr>bs_server := server_step (bs_server quiet_written) quiet_op\<rparr>"

primrec quiet_beats :: "nat \<Rightarrow> bbo_stream \<Rightarrow> bbo_stream" where
  "quiet_beats 0 s = s"
| "quiet_beats (Suc n) s = quiet_beats n (s\<lparr>bs_server := send_heartbeat 9 (bs_server s)\<rparr>)"

lemma quiet_beats_parts:
  "sb_book (bs_server (quiet_beats n s)) = sb_book (bs_server s)"
  "bs_initial (quiet_beats n s) = bs_initial s" "bs_written (quiet_beats n s) = bs_written s"
  by (induction n arbitrary: s) (simp_all add: send_heartbeat_def)

lemma quiet_beats_queue:
  "queue_at a (bbo_fanout (bs_server s)) = Some q \<Longrightarrow>
   queue_at a (bbo_fanout (bs_server (quiet_beats n s))) =
     Some (push_all (replicate n (BboHeartbeat 9 (live_venues (sb_book (bs_server s))))) q)"
  by (induction n arbitrary: s q) (simp_all add: send_heartbeat_def queue_at_broadcast)

lemma quiet_start_parts:
  "bs_initial quiet_start = Some (Bbo 0 2 None None)" "bs_written quiet_start = []"
  "bs_server quiet_start = new_symbol_book\<lparr>bbo_fanout := fanout_subscribe 7 (new_fanout 256 DropOldest)\<rparr>"
  by (simp_all add: quiet_start_def bbo_subscription_start_def subscribe_bbo_begin_def build_bbo_def
      new_symbol_book_def best_bid_def best_ask_def first_level_def empty_aggregate_def empty_book_def
      kSubscriberQueueCapacity_def)

lemma quiet_ingested_parts:
  "queue_at 7 (bbo_fanout (bs_server quiet_ingested)) =
     Some ((end_bootstrap (new_queue 256 DropOldest))\<lparr>q_entries := [Bbo 1 4 (Some (100, 5)) None]\<rparr>)"
  "best_bid (bs_server quiet_ingested) = Some (100, 5)"
  by (simp_all add: quiet_ingested_def quiet_written_def quiet_start_parts quiet_op_def sb_apply_batch_def
      all_valid_def is_valid_level_def apply_batch_def venue_book_def new_symbol_book_def apply_level_def
      set_level_def adjust_aggregate_def om_emplace_def fp_sub_def fp_add_def from_raw_checked_def i64_defs
      Let_def sink_calls_def publish_def collect_changes_def collect_def best_bid_def best_ask_def
      broadcast_def fanout_subscribe_def new_fanout_def new_queue_def push_or_close_def queue_at_def
      effective_capacity_def subscribe_bbo_end_def update_queue_def end_bootstrap_def build_bbo_def
      first_level_def empty_aggregate_def empty_book_def)

lemma quiet_reaches_start: "bbo_reaches 7 prompt quiet_start"
  unfolding quiet_start_def
  by (rule bbo_reaches.start) (simp_all add: sb_inv_new,
      simp_all add: new_symbol_book_def new_fanout_def queue_at_def kSubscriberQueueCapacity_def)

lemma quiet_reaches: "bbo_reaches 7 prompt quiet_ingested"
proof -
  have "bbo_step 7 prompt quiet_start quiet_written"
    unfolding quiet_written_def by (rule bbo_step.write_initial) (simp add: quiet_start_parts)
  with quiet_reaches_start have "bbo_reaches 7 prompt quiet_written" by (rule bbo_reaches.step)
  moreover have "bbo_step 7 prompt quiet_written quiet_ingested"
    unfolding quiet_ingested_def by (rule bbo_step.ingest)
      (simp add: quiet_op_def sizes_in_range_def venue_size_limit_def i64_max_def)
  ultimately show ?thesis by (rule bbo_reaches.step)
qed

lemma quiet_reaches_beats: "bbo_reaches 7 False s \<Longrightarrow> bbo_reaches 7 False (quiet_beats n s)"
proof (induction n arbitrary: s)
  case (Suc n)
  have "bbo_step 7 False s (s\<lparr>bs_server := send_heartbeat 9 (bs_server s)\<rparr>)"
    by (rule bbo_step.heartbeat) simp
  with Suc show ?case by (auto intro: bbo_reaches.step)
qed simp

section \<open>Properties\<close>

text \<open>
  C11. A prompt BBO subscriber has the current top of book on its way. Whatever is ingested, and
  however many updates its full queue drops, as long as its handler drains before heartbeats alone
  could fill the queue, the newest \<^verbatim>\<open>Bbo\<close> among what was written and what is queued is the
  server's current best bid and ask.
\<close>

theorem bbo_subscriber_has_current_top:
  assumes "bbo_reaches a True s"
  shows "latest (bbo_sent s @ bbo_queue a s) = Some (best_bid (bs_server s), best_ask (bs_server s))"
  using bbo_reaches_inv [OF assms] by (simp add: bbo_inv_def top_def)

theorem bbo_subscriber_has_current_top_witness:
  "latest (bbo_sent quiet_ingested @ bbo_queue 7 quiet_ingested)
   = Some (Some (100, 5), best_ask (bs_server quiet_ingested))"
  using bbo_subscriber_has_current_top [OF quiet_reaches] quiet_ingested_parts(2) by simp

text \<open>
  C39. Heartbeats can push the current top of book out of a slow subscriber's queue. The comment on
  \<^verbatim>\<open>OverflowPolicy::DropOldest\<close> says a slow subscriber loses nothing, since a queued
  \<^verbatim>\<open>Bbo\<close> only ever gives way to a newer one; but heartbeats share the queue. There is a run
  after which the subscriber has been written everything that was queued for it and still does not
  have the current best bid and ask: its last \<^verbatim>\<open>Bbo\<close> was dropped for heartbeats.
\<close>

theorem heartbeats_can_evict_the_current_top:
  "\<exists>s. bbo_reaches 7 False s \<and> bs_initial s = None \<and> bbo_queue 7 s = []
     \<and> latest (bbo_sent s) \<noteq> Some (best_bid (bs_server s), best_ask (bs_server s))"
proof -
  define hb where "hb = BboHeartbeat 9 (live_venues (sb_book (bs_server quiet_ingested)))"
  define q where "q = (end_bootstrap (new_queue 256 DropOldest))\<lparr>q_entries := replicate 256 hb\<rparr>"
  define s where "s = quiet_beats 256 quiet_ingested"
  define s' where "s' = s\<lparr>bs_server := drain_bbo_at 7 (bs_server s), bs_written := bs_written s @ replicate 256 hb\<rparr>"
  have "push_all (replicate 256 hb)
      ((end_bootstrap (new_queue 256 DropOldest))\<lparr>q_entries := [Bbo 1 4 (Some (100, 5)) None]\<rparr>) = q"
    by (subst push_all_DropOldest) (simp_all add: end_bootstrap_def new_queue_def effective_capacity_def q_def)
  then have q: "queue_at 7 (bbo_fanout (bs_server s)) = Some q"
    using quiet_beats_queue [OF quiet_ingested_parts(1), of 256] by (simp only: s_def hb_def)
  have init: "bs_initial s = None" "bs_written s = [Bbo 0 2 None None]"
    by (simp_all add: s_def quiet_beats_parts quiet_ingested_def quiet_written_def quiet_start_parts)
  have ne: "replicate 256 hb \<noteq> []" by simp
  have dr: "wait_and_drain q = (Drained, replicate 256 hb, q\<lparr>q_entries := []\<rparr>)"
    unfolding wait_and_drain_def using ne by (simp add: q_def end_bootstrap_def new_queue_def)
  have "bbo_reaches 7 False s" unfolding s_def by (rule quiet_reaches_beats [OF quiet_reaches])
  moreover have "bbo_step 7 False s s'"
    unfolding s'_def by (rule bbo_step.drained [OF init(1) q dr])
  ultimately have "bbo_reaches 7 False s'" by (rule bbo_reaches.step)
  moreover have "bbo_queue 7 s' = []" by (simp add: s'_def bbo_queue_def drain_bbo_at_def queue_at_update q dr)
  moreover have "latest (replicate 256 hb) = None" by (simp add: latest_None hb_def)
  then have "latest (bbo_sent s') = Some (None, None)"
    using init by (simp add: s'_def bbo_sent_def latest_append [of "[Bbo 0 2 None None]", simplified])
  moreover have "best_bid (bs_server s') = Some (100, 5)"
    using quiet_ingested_parts(2) by (simp add: s'_def s_def best_bid_def drain_bbo_at_def quiet_beats_parts)
  moreover have "bs_initial s' = None" using init by (simp add: s'_def)
  ultimately show ?thesis by (intro exI [of _ s']) simp
qed

end
