(* ===== verification/Aggregator_Service.thy ===== *)
theory Aggregator_Service
  imports Stream_Replica Bbo_Stream
begin

text \<open>
  \<^verbatim>\<open>apps/aggregator/book_id.hpp\<close> and the class \<^verbatim>\<open>AggregatorService\<close>: the wire form of a book
  id, the fixed set of books, and the routing of requests and heartbeats to them. The hash map of
  the books is an association list; its order stands for whatever order the hash map has.
\<close>

section \<open>The code: book ids on the wire\<close>

text \<open>A protobuf \<^verbatim>\<open>BookId\<close>; the enumeration is open, so the market is any number.\<close>

record wire_book_id =
  wire_base :: string
  wire_quote :: string
  wire_market :: int

definition to_symbol_book_id :: "wire_book_id \<Rightarrow> book_id option" where
  "to_symbol_book_id w =
     (if wire_base w = [] \<or> wire_quote w = [] then None
      else if wire_market w = 1 then Some (BookId (BaseQuote (Asset (wire_base w)) (Asset (wire_quote w))) Spot)
      else if wire_market w = 2 then Some (BookId (BaseQuote (Asset (wire_base w)) (Asset (wire_quote w))) Perp)
      else None)"

definition fill_wire_book_id :: "book_id \<Rightarrow> wire_book_id" where
  "fill_wire_book_id i =
     \<lparr>wire_base = code (base (book_symbol i)), wire_quote = code (quote (book_symbol i)),
      wire_market = (case book_type i of Spot \<Rightarrow> 1 | Perp \<Rightarrow> 2)\<rparr>"

section \<open>The code: the service\<close>

datatype status = OK | INVALID_ARGUMENT string | NOT_FOUND string | RESOURCE_EXHAUSTED string

type_synonym service = "(book_id \<times> symbol_book) list"

definition try_emplace :: "service \<Rightarrow> book_id \<Rightarrow> service" where
  "try_emplace svc i = (if map_of svc i = None then svc @ [(i, new_symbol_book)] else svc)"

definition new_service :: "book_id list \<Rightarrow> service" where
  "new_service ids = foldl try_emplace [] ids"

definition book_of :: "book_id \<Rightarrow> service \<Rightarrow> symbol_book option" where
  "book_of i svc = map_of svc i"

text \<open>The book at \<open>i\<close> was changed through the pointer \<^verbatim>\<open>book()\<close> returned.\<close>

definition set_book :: "book_id \<Rightarrow> symbol_book \<Rightarrow> service \<Rightarrow> service" where
  "set_book i sb svc = map (\<lambda>(j, b). (j, if j = i then sb else b)) svc"

definition service_send_heartbeat :: "(book_id \<Rightarrow> u64) \<Rightarrow> service \<Rightarrow> service" where
  "service_send_heartbeat now svc = map (\<lambda>(i, sb). (i, send_heartbeat (now i) sb)) svc"

definition malformed_book :: status where
  "malformed_book =
     INVALID_ARGUMENT ''malformed book: base/quote must be non-empty and market must be SPOT or PERP''"

text \<open>
  The two streaming calls up to the first write: an error status, or the message to write first,
  with the queue at \<open>addr\<close> registered. What follows is \<open>stream_step\<close> and \<open>bbo_step\<close>.
\<close>

definition SubscribeL2Diff :: "u64 \<Rightarrow> nat \<Rightarrow> wire_book_id \<Rightarrow> service \<Rightarrow> (status + l2_update) \<times> service" where
  "SubscribeL2Diff now addr request svc =
     (case to_symbol_book_id request of
        None \<Rightarrow> (Inl malformed_book, svc)
      | Some i \<Rightarrow>
          (case book_of i svc of
             None \<Rightarrow> (Inl (NOT_FOUND (''unknown book: '' @ book_id_to_string i)), svc)
           | Some target \<Rightarrow>
               let (m, target') = subscribe_begin now addr target
               in (Inr m, set_book i target' svc)))"

definition SubscribeBbo :: "u64 \<Rightarrow> nat \<Rightarrow> wire_book_id \<Rightarrow> service \<Rightarrow> (status + bbo_update) \<times> service" where
  "SubscribeBbo now addr request svc =
     (case to_symbol_book_id request of
        None \<Rightarrow> (Inl malformed_book, svc)
      | Some i \<Rightarrow>
          (case book_of i svc of
             None \<Rightarrow> (Inl (NOT_FOUND (''unknown book: '' @ book_id_to_string i)), svc)
           | Some target \<Rightarrow>
               let (m, target') = subscribe_bbo_begin now addr target
               in (Inr m, set_book i target' svc)))"

definition ListBooks :: "service \<Rightarrow> wire_book_id list" where
  "ListBooks svc = map (\<lambda>(i, sb). fill_wire_book_id i) svc"

text \<open>Anything that happens to the service while it runs.\<close>

inductive service_step :: "service \<Rightarrow> service \<Rightarrow> bool" where
  ingest: "book_of i svc = Some sb \<Longrightarrow> op_sizes_in_range (book_op_of op) \<Longrightarrow>
    service_step svc (set_book i (server_step sb op) svc)"
| heartbeat: "service_step svc (service_send_heartbeat now svc)"
| subscribe: "service_step svc (snd (SubscribeL2Diff now addr request svc))"
| subscribe_bbo: "service_step svc (snd (SubscribeBbo now addr request svc))"
| handler: "book_of i svc = Some sb \<Longrightarrow> other_step a sb sb' \<Longrightarrow> service_step svc (set_book i sb' svc)"
| drain_bbo: "book_of i svc = Some sb \<Longrightarrow> service_step svc (set_book i (drain_bbo_at a sb) svc)"

inductive service_reaches :: "service \<Rightarrow> service \<Rightarrow> bool" for svc0 where
  init: "service_reaches svc0 svc0"
| step: "service_reaches svc0 svc \<Longrightarrow> service_step svc svc' \<Longrightarrow> service_reaches svc0 svc'"

section \<open>Wire ids\<close>

definition wellformed_id :: "book_id \<Rightarrow> bool" where
  "wellformed_id i \<longleftrightarrow> code (base (book_symbol i)) \<noteq> [] \<and> code (quote (book_symbol i)) \<noteq> []"

definition wellformed_wire :: "wire_book_id \<Rightarrow> bool" where
  "wellformed_wire w \<longleftrightarrow> wire_base w \<noteq> [] \<and> wire_quote w \<noteq> [] \<and> wire_market w \<in> {1, 2}"

lemma to_fill_book_id: "wellformed_id i \<Longrightarrow> to_symbol_book_id (fill_wire_book_id i) = Some i"
  by (cases i rule: book_id.exhaust; cases "book_symbol i"; cases "base (book_symbol i)";
      cases "quote (book_symbol i)")
    (auto simp: to_symbol_book_id_def fill_wire_book_id_def wellformed_id_def split: market_type.split)

lemma fill_to_book_id: "to_symbol_book_id w = Some i \<Longrightarrow> fill_wire_book_id i = w \<and> wellformed_id i"
  by (auto simp: to_symbol_book_id_def fill_wire_book_id_def wellformed_id_def split: if_splits)

lemma to_symbol_None: "to_symbol_book_id w = None \<longleftrightarrow> \<not> wellformed_wire w"
  by (auto simp: to_symbol_book_id_def wellformed_wire_def)

section \<open>The books of the service\<close>

lemma foldl_try_emplace:
  "distinct ids \<Longrightarrow> set ids \<inter> fst ` set svc = {} \<Longrightarrow>
   foldl try_emplace svc ids = svc @ map (\<lambda>i. (i, new_symbol_book)) ids"
  by (induction ids arbitrary: svc) (auto simp: try_emplace_def map_of_eq_None_iff)

lemma new_service_eq: "distinct ids \<Longrightarrow> new_service ids = map (\<lambda>i. (i, new_symbol_book)) ids"
  by (simp add: new_service_def foldl_try_emplace)

lemma keys_set_book [simp]: "map fst (set_book i sb svc) = map fst svc"
  by (simp add: set_book_def comp_def case_prod_unfold)

lemma keys_heartbeat [simp]: "map fst (service_send_heartbeat now svc) = map fst svc"
  by (simp add: service_send_heartbeat_def comp_def case_prod_unfold)

lemma book_of_set_book:
  "book_of j (set_book i sb svc) = (if j = i \<and> book_of j svc \<noteq> None then Some sb else book_of j svc)"
  by (induction svc) (auto simp: set_book_def book_of_def)

lemma book_of_heartbeat: "book_of i (service_send_heartbeat now svc) = map_option (send_heartbeat (now i)) (book_of i svc)"
  by (induction svc) (auto simp: service_send_heartbeat_def book_of_def)

definition service_inv :: "book_id list \<Rightarrow> service \<Rightarrow> bool" where
  "service_inv ids svc \<longleftrightarrow> map fst svc = ids \<and> (\<forall>i sb. book_of i svc = Some sb \<longrightarrow> sb_inv sb)"

lemma service_inv_new: "distinct ids \<Longrightarrow> service_inv ids (new_service ids)"
  by (auto simp: service_inv_def new_service_eq comp_def book_of_def map_of_map_restrict sb_inv_new
      restrict_map_def split: if_splits)

lemma service_inv_set_book: "service_inv ids svc \<Longrightarrow> sb_inv sb \<Longrightarrow> service_inv ids (set_book i sb svc)"
  by (auto simp: service_inv_def book_of_set_book split: if_splits)

lemma service_inv_book: "service_inv ids svc \<Longrightarrow> book_of i svc = Some sb \<Longrightarrow> sb_inv sb"
  by (simp add: service_inv_def)

lemma sb_inv_heartbeat: "sb_inv sb \<Longrightarrow> sb_inv (send_heartbeat now sb)"
  by (simp add: send_heartbeat_def sb_inv_def best_bid_def best_ask_def)

lemma sb_inv_subscribe:
  "sb_inv sb \<Longrightarrow> sb_inv (snd (subscribe_begin now a sb))"
  "sb_inv sb \<Longrightarrow> sb_inv (snd (subscribe_bbo_begin now a sb))"
  by (simp_all add: subscribe_begin_def subscribe_bbo_begin_def sb_inv_fanout sb_inv_def best_bid_def best_ask_def
      fanout_subscribe_def)

lemma sb_inv_drain: "sb_inv sb \<Longrightarrow> sb_inv (drain_at a sb)" "sb_inv sb \<Longrightarrow> sb_inv (drain_bbo_at a sb)"
  by (simp_all add: drain_at_def drain_bbo_at_def sb_inv_def best_bid_def best_ask_def)

lemma sb_inv_other_step: "other_step a sb sb' \<Longrightarrow> sb_inv sb \<Longrightarrow> sb_inv sb'"
  by (induction rule: other_step.induct)
    (simp_all add: sb_inv_heartbeat sb_inv_subscribe sb_inv_drain,
      simp_all add: server_defs Let_def sb_inv_def best_bid_def best_ask_def)

lemma subscribe_cases:
  "SubscribeL2Diff now a w svc =
     (if \<not> wellformed_wire w then (Inl malformed_book, svc)
      else let i = the (to_symbol_book_id w)
           in case book_of i svc of
                None \<Rightarrow> (Inl (NOT_FOUND (''unknown book: '' @ book_id_to_string i)), svc)
              | Some sb \<Rightarrow> (Inr (build_snapshot now sb), set_book i (snd (subscribe_begin now a sb)) svc))"
  "SubscribeBbo now a w svc =
     (if \<not> wellformed_wire w then (Inl malformed_book, svc)
      else let i = the (to_symbol_book_id w)
           in case book_of i svc of
                None \<Rightarrow> (Inl (NOT_FOUND (''unknown book: '' @ book_id_to_string i)), svc)
              | Some sb \<Rightarrow> (Inr (build_bbo now sb), set_book i (snd (subscribe_bbo_begin now a sb)) svc))"
  using to_symbol_None [of w]
  by (auto simp: SubscribeL2Diff_def SubscribeBbo_def subscribe_begin_def subscribe_bbo_begin_def Let_def
      split: option.split)

lemma service_step_inv: "service_step svc svc' \<Longrightarrow> service_inv ids svc \<Longrightarrow> service_inv ids svc'"
proof (induction rule: service_step.induct)
  case (ingest i svc sb op)
  then show ?case by (auto intro: service_inv_set_book server_step_revision(1) service_inv_book)
next
  case (heartbeat svc now)
  then show ?case by (auto simp: service_inv_def book_of_heartbeat sb_inv_heartbeat)
next
  case (subscribe svc now addr request)
  then show ?case
    by (auto simp: subscribe_cases Let_def split: option.split
        intro!: service_inv_set_book sb_inv_subscribe intro: service_inv_book)
next
  case (subscribe_bbo svc now addr request)
  then show ?case
    by (auto simp: subscribe_cases Let_def split: option.split
        intro!: service_inv_set_book sb_inv_subscribe intro: service_inv_book)
next
  case (handler i svc sb a sb')
  then have "sb_inv sb'" using sb_inv_other_step by (auto simp: service_inv_def)
  with handler show ?case by (auto intro: service_inv_set_book)
next
  case (drain_bbo i svc sb a)
  then have "sb_inv (drain_bbo_at a sb)" using sb_inv_drain by (auto simp: service_inv_def)
  with drain_bbo show ?case by (auto intro: service_inv_set_book)
qed

lemma service_reaches_inv:
  "service_reaches (new_service ids) svc \<Longrightarrow> distinct ids \<Longrightarrow> service_inv ids svc"
  by (induction rule: service_reaches.induct) (auto intro: service_inv_new service_step_inv)

lemma service_keys:
  assumes "service_inv ids svc"
  shows "i \<in> set ids \<longleftrightarrow> book_of i svc \<noteq> None" "ListBooks svc = map fill_wire_book_id ids"
proof -
  have ids: "map fst svc = ids" using assms by (simp add: service_inv_def)
  have "book_of i svc = None \<longleftrightarrow> i \<notin> set (map fst svc)" by (simp add: book_of_def map_of_eq_None_iff)
  then show "i \<in> set ids \<longleftrightarrow> book_of i svc \<noteq> None" unfolding ids by simp
  show "ListBooks svc = map fill_wire_book_id ids"
    unfolding ids [symmetric] by (simp add: ListBooks_def case_prod_unfold)
qed

section \<open>Routing\<close>

text \<open>
  C34. Requests are routed. Whatever ingestion, heartbeats and other subscribers did before,
  \<^verbatim>\<open>ListBooks\<close> lists every configured book once, and exactly the listed ids can be subscribed:
  such a call starts with the current snapshot (or best prices) of that very book, touches no other
  book, and is the start of a stream for which the replica theorems hold. Every other id is an error
  that changes nothing, \<^verbatim>\<open>INVALID_ARGUMENT\<close> exactly when it is malformed.
\<close>

theorem requests_are_routed:
  assumes "service_reaches (new_service ids) svc" "distinct ids" "\<forall>i \<in> set ids. wellformed_id i"
  shows "distinct (ListBooks svc) \<and> set (ListBooks svc) = fill_wire_book_id ` set ids
    \<and> (\<forall>i \<in> set ids. \<exists>sb. book_of i svc = Some sb
        \<and> fst (SubscribeL2Diff now a (fill_wire_book_id i) svc) = Inr (build_snapshot now sb)
        \<and> fst (SubscribeBbo now a (fill_wire_book_id i) svc) = Inr (build_bbo now sb)
        \<and> book_of i (snd (SubscribeL2Diff now a (fill_wire_book_id i) svc)) = Some (snd (subscribe_begin now a sb))
        \<and> book_of i (snd (SubscribeBbo now a (fill_wire_book_id i) svc)) = Some (snd (subscribe_bbo_begin now a sb))
        \<and> (\<forall>j. j \<noteq> i \<longrightarrow> book_of j (snd (SubscribeL2Diff now a (fill_wire_book_id i) svc)) = book_of j svc
             \<and> book_of j (snd (SubscribeBbo now a (fill_wire_book_id i) svc)) = book_of j svc)
        \<and> (queue_at a (l2_fanout sb) = None \<longrightarrow> stream_reaches a (subscription_start a now sb)))
    \<and> (\<forall>w. w \<notin> set (ListBooks svc) \<longrightarrow> (\<exists>e.
          SubscribeL2Diff now a w svc = (Inl e, svc) \<and> SubscribeBbo now a w svc = (Inl e, svc)
          \<and> e = (if wellformed_wire w
                 then NOT_FOUND (''unknown book: '' @ book_id_to_string (the (to_symbol_book_id w)))
                 else malformed_book)))"
proof -
  have inv: "service_inv ids svc" by (rule service_reaches_inv [OF assms(1,2)])
  have to: "to_symbol_book_id (fill_wire_book_id i) = Some i" "wellformed_wire (fill_wire_book_id i)"
    if "i \<in> set ids" for i
    using assms(3) that to_fill_book_id [of i] to_symbol_None [of "fill_wire_book_id i"] by auto
  then have "inj_on fill_wire_book_id (set ids)" by (metis inj_onI option.inject)
  then have listed: "distinct (ListBooks svc)" "set (ListBooks svc) = fill_wire_book_id ` set ids"
    using assms(2) by (simp_all add: service_keys(2) [OF inv] distinct_map)
  have found: "\<exists>sb. book_of i svc = Some sb \<and> sb_inv sb" if "i \<in> set ids" for i
    using service_keys(1) [OF inv, of i] service_inv_book [OF inv, of i] that by blast
  have missing: "book_of (the (to_symbol_book_id w)) svc = None"
    if "wellformed_wire w" "w \<notin> set (ListBooks svc)" for w
  proof -
    obtain i where i: "to_symbol_book_id w = Some i" using to_symbol_None [of w] \<open>wellformed_wire w\<close> by auto
    then have "i \<notin> set ids" using fill_to_book_id [OF i] that(2) listed(2) by blast
    with i show ?thesis using service_keys(1) [OF inv, of i] by simp
  qed
  have "\<exists>sb. book_of i svc = Some sb
      \<and> fst (SubscribeL2Diff now a (fill_wire_book_id i) svc) = Inr (build_snapshot now sb)
      \<and> fst (SubscribeBbo now a (fill_wire_book_id i) svc) = Inr (build_bbo now sb)
      \<and> book_of i (snd (SubscribeL2Diff now a (fill_wire_book_id i) svc)) = Some (snd (subscribe_begin now a sb))
      \<and> book_of i (snd (SubscribeBbo now a (fill_wire_book_id i) svc)) = Some (snd (subscribe_bbo_begin now a sb))
      \<and> (\<forall>j. j \<noteq> i \<longrightarrow> book_of j (snd (SubscribeL2Diff now a (fill_wire_book_id i) svc)) = book_of j svc
           \<and> book_of j (snd (SubscribeBbo now a (fill_wire_book_id i) svc)) = book_of j svc)
      \<and> (queue_at a (l2_fanout sb) = None \<longrightarrow> stream_reaches a (subscription_start a now sb))"
    if "i \<in> set ids" for i
    using found [OF that] to [OF that]
    by (auto simp: subscribe_cases Let_def book_of_set_book intro: stream_reaches.start)
  moreover have "\<exists>e. SubscribeL2Diff now a w svc = (Inl e, svc) \<and> SubscribeBbo now a w svc = (Inl e, svc)
      \<and> e = (if wellformed_wire w
             then NOT_FOUND (''unknown book: '' @ book_id_to_string (the (to_symbol_book_id w)))
             else malformed_book)"
    if "w \<notin> set (ListBooks svc)" for w
    using missing [OF _ that] by (simp add: subscribe_cases Let_def)
  ultimately show ?thesis using listed by blast
qed

definition sample_ids :: "book_id list" where
  "sample_ids = [BookId (BaseQuote (Asset ''BTC'') (Asset ''USDT'')) Spot]"

theorem requests_are_routed_witness:
  "distinct sample_ids \<and> list_all wellformed_id sample_ids
   \<and> ListBooks (new_service sample_ids) = [\<lparr>wire_base = ''BTC'', wire_quote = ''USDT'', wire_market = 1\<rparr>]
   \<and> fst (SubscribeL2Diff 7 0 \<lparr>wire_base = ''BTC'', wire_quote = ''USDT'', wire_market = 1\<rparr> (new_service sample_ids))
       = Inr (L2Snapshot 0 7 [] [])
   \<and> fst (SubscribeL2Diff 7 0 \<lparr>wire_base = ''BTC'', wire_quote = ''USDT'', wire_market = 2\<rparr> (new_service sample_ids))
       = Inl (NOT_FOUND ''unknown book: BTC_USDT.PERP'')
   \<and> fst (SubscribeL2Diff 7 0 \<lparr>wire_base = ''BTC'', wire_quote = [], wire_market = 1\<rparr> (new_service sample_ids))
       = Inl malformed_book"
proof -
  have ids: "distinct sample_ids" "\<forall>i \<in> set sample_ids. wellformed_id i"
    by (simp_all add: sample_ids_def wellformed_id_def)
  have bk: "book_of (BookId (BaseQuote (Asset ''BTC'') (Asset ''USDT'')) Spot) (new_service sample_ids) = Some new_symbol_book"
    "ListBooks (new_service sample_ids) = [\<lparr>wire_base = ''BTC'', wire_quote = ''USDT'', wire_market = 1\<rparr>]"
    by (simp_all add: sample_ids_def new_service_eq book_of_def ListBooks_def fill_wire_book_id_def)
  note routed = requests_are_routed [OF service_reaches.init ids, of 7 0]
  show ?thesis
    using routed ids bk
    by (auto simp: sample_ids_def fill_wire_book_id_def wellformed_wire_def to_symbol_book_id_def
        book_id_to_string_def book_suffix_def build_snapshot_def new_symbol_book_def)
qed

end
