(* ===== verification/Decimal_Parse.thy ===== *)
theory Decimal_Parse
  imports Fixed_Point
begin

text \<open>
  What \<^verbatim>\<open>BasicFixedPoint::from_decimal_string\<close> computes. The reference is the exact
  rational the digits denote, rounded once to the type's number of decimals (nearest, ties away
  from zero); the code reads at most \<^verbatim>\<open>decimals + 1\<close> fractional digits and carries by
  hand.
\<close>

section \<open>The reference\<close>

definition digits_value :: "string \<Rightarrow> int" where
  "digits_value cs = foldl (\<lambda>v c. v * 10 + digit_value c) 0 cs"

definition decimal_magnitude :: "nat \<Rightarrow> string \<Rightarrow> string \<Rightarrow> int" where
  "decimal_magnitude decimals ip fp =
     round_div_nearest_away
       ((digits_value ip * 10 ^ length fp + digits_value fp) * 10 ^ decimals) (10 ^ length fp)"

definition apply_sign :: "bool \<Rightarrow> int \<Rightarrow> int" where
  "apply_sign negative m = (if negative then - m else m)"

definition decimal_text :: "bool \<Rightarrow> string \<Rightarrow> bool \<Rightarrow> string \<Rightarrow> string" where
  "decimal_text negative ip dot fp =
     (if negative then ''-'' else []) @ ip @ (if dot then CHR ''.'' # fp else [])"

text \<open>Digits only, at least one of them, and no fraction without its dot.\<close>

definition decimal_shape :: "string \<Rightarrow> bool \<Rightarrow> string \<Rightarrow> bool" where
  "decimal_shape ip dot fp \<longleftrightarrow>
     list_all is_digit ip \<and> list_all is_digit fp \<and> (ip \<noteq> [] \<or> fp \<noteq> []) \<and> (dot \<or> fp = [])"

section \<open>The two digit loops\<close>

lemma digit_value_range: "is_digit c \<Longrightarrow> 0 \<le> digit_value c \<and> digit_value c \<le> 9"
proof -
  assume "is_digit c"
  then have "int 48 \<le> int (of_char c)" "int (of_char c) \<le> int 57"
    unfolding is_digit_def by (simp_all only: of_nat_le_iff)
  then show ?thesis unfolding digit_value_def by simp
qed

lemma is_digit_not_special: "is_digit c \<Longrightarrow> c \<noteq> CHR ''.'' \<and> c \<noteq> CHR ''-''"
  by (auto simp: is_digit_def)

lemma foldl_digits_shift:
  "foldl (\<lambda>v c. v * 10 + digit_value c) a cs =
     a * 10 ^ length cs + foldl (\<lambda>v c. v * 10 + digit_value c) 0 cs"
proof (induction cs arbitrary: a)
  case Nil
  then show ?case by simp
next
  case (Cons c cs)
  show ?case
    using Cons.IH [of "a * 10 + digit_value c"] Cons.IH [of "digit_value c"]
    by (simp add: algebra_simps)
qed

lemma digits_value_append:
  "digits_value (xs @ ys) = digits_value xs * 10 ^ length ys + digits_value ys"
  unfolding digits_value_def foldl_append
  by (rule foldl_digits_shift)

lemma digits_value_bounds:
  "list_all is_digit cs \<Longrightarrow> 0 \<le> digits_value cs \<and> digits_value cs < 10 ^ length cs"
proof (induction cs rule: rev_induct)
  case Nil
  then show ?case by (simp add: digits_value_def)
next
  case (snoc c cs)
  then have "0 \<le> digits_value cs" "digits_value cs + 1 \<le> 10 ^ length cs"
    and "0 \<le> digit_value c" "digit_value c \<le> 9"
    using digit_value_range [of c] by auto
  moreover have "digits_value [c] = digit_value c" by (simp add: digits_value_def)
  ultimately show ?case by (simp add: digits_value_append)
qed

lemma parse_int_part_digits:
  "list_all is_digit cs \<Longrightarrow> 0 \<le> v \<Longrightarrow> v \<le> i64_max \<Longrightarrow>
   parse_int_part v cs =
     (let w = v * 10 ^ length cs + digits_value cs
      in if w > i64_max then Inl result_out_of_range else Inr w)"
proof (induction cs arbitrary: v)
  case Nil
  then show ?case by (simp add: digits_value_def)
next
  case (Cons c cs)
  define v' where "v' = v * 10 + digit_value c"
  from Cons.prems have v': "0 \<le> v'" using digit_value_range [of c] by (simp add: v'_def)
  from Cons.prems have nonneg: "0 \<le> digits_value cs" using digits_value_bounds [of cs] by simp
  have total: "v * 10 ^ length (c # cs) + digits_value (c # cs)
      = v' * 10 ^ length cs + digits_value cs"
    using digits_value_append [of "[c]" cs]
    by (simp add: v'_def digits_value_def algebra_simps)
  have "v' \<le> v' * 10 ^ length cs" using v' by (simp add: mult_le_cancel_left1)
  with nonneg have "v' > i64_max \<longrightarrow> v' * 10 ^ length cs + digits_value cs > i64_max" by linarith
  with Cons.IH [of v'] Cons.prems v' total show ?case
    by (auto simp: Let_def simp flip: v'_def)
qed

lemma parse_frac_part_digits:
  "list_all is_digit cs \<Longrightarrow>
   parse_frac_part tk i v cs =
     Inr (v * 10 ^ length (take (tk - i) cs) + digits_value (take (tk - i) cs))"
proof (induction cs arbitrary: i v)
  case Nil
  then show ?case by (simp add: digits_value_def)
next
  case (Cons c cs)
  show ?case
  proof (cases "i < tk")
    case True
    then obtain n where n: "tk - i = Suc n" "tk - Suc i = n" by (metis Suc_diff_Suc)
    have "digits_value (c # take n cs) = digit_value c * 10 ^ length (take n cs) + digits_value (take n cs)"
      using digits_value_append [of "[c]" "take n cs"] by (simp add: digits_value_def)
    with True n Cons.IH [of "Suc i" "v * 10 + digit_value c"] Cons.prems show ?thesis
      by (simp add: algebra_simps)
  next
    case False
    with Cons.IH [of "Suc i" v] Cons.prems show ?thesis by (simp add: digits_value_def)
  qed
qed

lemma parse_int_part_Inr_digits: "parse_int_part v cs = Inr w \<Longrightarrow> list_all is_digit cs"
  by (induction v cs rule: parse_int_part.induct) (auto simp: Let_def split: if_splits)

lemma parse_frac_part_Inr_digits: "parse_frac_part tk i v cs = Inr w \<Longrightarrow> list_all is_digit cs"
  by (induction tk i v cs rule: parse_frac_part.induct) (auto split: if_splits)

section \<open>Reading only one digit past the precision is enough\<close>

lemma div_add_small:
  fixes x b c g :: int
  assumes "0 < b" "0 \<le> g" "g < c"
  shows "(x * c + g) div (b * c) = x div b"
proof -
  have "(x * c + g) div (b * c) = ((x * c + g) div c) div b"
    using assms zdiv_zmult2_eq [of b "x * c + g" c] by (simp add: mult.commute)
  also have "(x * c + g) div c = x" using assms by (simp add: div_pos_pos_trivial)
  finally show ?thesis .
qed

lemma round_div_shift:
  fixes m n d :: int
  assumes "0 \<le> n" "0 \<le> m" "0 < d"
  shows "round_div_nearest_away (m * d + n) d = m + round_div_nearest_away n d"
proof -
  have "(2 * (m * d + n) + d) div (2 * d) = ((2 * n + d) + m * (2 * d)) div (2 * d)"
    by (simp add: algebra_simps)
  also have "\<dots> = m + (2 * n + d) div (2 * d)" using assms by (subst div_mult_self1) auto
  finally show ?thesis using assms by (simp add: round_div_nonneg)
qed

lemma round_div_cancel:
  fixes n d c :: int
  assumes "0 \<le> n" "0 < d" "0 < c"
  shows "round_div_nearest_away (n * c) (d * c) = round_div_nearest_away n d"
proof -
  have "2 * (n * c) + d * c = (2 * n + d) * c + 0" by (simp add: algebra_simps)
  then show ?thesis
    using assms div_add_small [of "2 * d" 0 c "2 * n + d"]
    by (simp add: round_div_nonneg mult.assoc)
qed

lemma round_div_truncated:
  assumes "0 \<le> num" "0 \<le> g" "g < 10 ^ j"
  shows "round_div_nearest_away (num * 10 ^ j + g) (10 ^ Suc j) = round_div_nearest_away num 10"
proof -
  have "(2 * (num * 10 ^ j + g) + 10 ^ Suc j) div (2 * 10 ^ Suc j)
      = ((num + 5) * (2 * 10 ^ j) + 2 * g) div (10 * (2 * 10 ^ j))"
    by (simp add: algebra_simps)
  also have "\<dots> = (num + 5) div 10" using assms by (intro div_add_small) auto
  also have "\<dots> = (2 * num + 10) div 20" by simp
  finally show ?thesis using assms by (simp add: round_div_nonneg)
qed

lemma scale_fraction_correct:
  assumes "list_all is_digit fp" and that: "0 \<le> ip"
  shows "ip * 10 ^ d + scale_fraction d fp (digits_value (take (min (length fp) (d + 1)) fp)) =
           round_div_nearest_away ((ip * 10 ^ length fp + digits_value fp) * 10 ^ d) (10 ^ length fp)"
proof (cases "length fp > d")
  case True
  then obtain j where j: "length fp = d + Suc j" by (metis add_Suc_right less_imp_Suc_add)
  define num where "num = digits_value (take (d + 1) fp)"
  define g where "g = digits_value (drop (d + 1) fp)"
  have dj: "length (drop (d + 1) fp) = j" using j by simp
  have fp: "digits_value fp = num * 10 ^ j + g"
    using digits_value_append [of "take (d + 1) fp" "drop (d + 1) fp"] dj
    unfolding append_take_drop_id num_def g_def by simp
  have ranges: "0 \<le> num" "0 \<le> g" "g < 10 ^ j"
    using digits_value_bounds [of "take (d + 1) fp"] digits_value_bounds [of "drop (d + 1) fp"]
      assms dj by (auto simp: num_def g_def list_all_iff dest: in_set_takeD in_set_dropD)
  have "(ip * 10 ^ length fp + digits_value fp) * 10 ^ d
      = (ip * 10 ^ d * 10 ^ Suc j + (num * 10 ^ j + g)) * 10 ^ d"
    by (simp add: j fp power_add algebra_simps)
  then have "round_div_nearest_away ((ip * 10 ^ length fp + digits_value fp) * 10 ^ d) (10 ^ length fp)
      = round_div_nearest_away (ip * 10 ^ d * 10 ^ Suc j + (num * 10 ^ j + g)) (10 ^ Suc j)"
    using ranges that round_div_cancel [of "ip * 10 ^ d * 10 ^ Suc j + (num * 10 ^ j + g)" "10 ^ Suc j" "10 ^ d"]
    by (simp add: j power_add mult.commute mult.left_commute)
  also have "\<dots> = ip * 10 ^ d + round_div_nearest_away num 10"
    using ranges that by (simp add: round_div_shift round_div_truncated del: power_Suc)
  finally show ?thesis using True by (simp add: scale_fraction_def num_def min_def)
next
  case False
  then have "(ip * 10 ^ length fp + digits_value fp) * 10 ^ d
      = (ip * 10 ^ d + digits_value fp * 10 ^ (d - length fp)) * 10 ^ length fp"
    by (simp add: algebra_simps flip: power_add)
  with False show ?thesis by (simp add: scale_fraction_def)
qed

section \<open>The whole parser\<close>

lemma scale_fraction_nonneg:
  assumes "list_all is_digit fp"
  shows "0 \<le> scale_fraction d fp (digits_value (take tk fp))"
proof -
  have "list_all is_digit (take tk fp)" using assms by (auto simp: list_all_iff dest: in_set_takeD)
  then have "0 \<le> digits_value (take tk fp)" using digits_value_bounds by blast
  then show ?thesis by (simp add: scale_fraction_def round_div_nonneg_result)
qed

lemma assemble_eq:
  assumes "0 \<le> i" "0 \<le> f"
  shows "assemble d negative i f =
    (if i * 10 ^ d + f > i64_max then Inl result_out_of_range
     else Inr (apply_sign negative (i * 10 ^ d + f)))"
proof -
  have "j \<le> j * 10 ^ d" if "0 \<le> j" for j :: int using that by (simp add: mult_le_cancel_left1)
  then have "i \<le> i * 10 ^ d" "i + 1 \<le> (i + 1) * 10 ^ d" using assms by auto
  moreover have "wrap64 (if negative then - m else m) = apply_sign negative m"
    if "0 \<le> m" "\<not> i64_max < m" for m
    using that by (auto simp: apply_sign_def i64_defs)
  moreover have "(i + 1) * 10 ^ d = i * 10 ^ d + 10 ^ d" by (simp add: algebra_simps)
  ultimately show ?thesis
    using assms by (auto simp: assemble_def Let_def)
qed

lemma int_frac_part_of:
  assumes "list_all is_digit ip" "dot \<or> fp = []"
  shows "int_part_of (ip @ (if dot then CHR ''.'' # fp else [])) = ip"
    and "frac_part_of (ip @ (if dot then CHR ''.'' # fp else [])) = fp"
  using assms
  by (auto simp: int_part_of_def frac_part_of_def list_all_iff takeWhile_append dropWhile_append
      dest: is_digit_not_special)

lemma strip_sign_decimal_text:
  assumes "list_all is_digit ip"
  shows "strip_sign (decimal_text negative ip dot fp) =
    (negative, ip @ (if dot then CHR ''.'' # fp else []))"
  using assms by (cases ip) (auto simp: strip_sign_def decimal_text_def dest: is_digit_not_special)

lemma from_decimal_string_eval:
  assumes "decimal_shape ip dot fp"
  shows "from_decimal_string d (decimal_text negative ip dot fp) =
    (if decimal_magnitude d ip fp > i64_max then Inl result_out_of_range
     else Inr (apply_sign negative (decimal_magnitude d ip fp)))"
proof -
  from assms have dig: "list_all is_digit ip" "list_all is_digit fp"
    and ne: "ip \<noteq> [] \<or> fp \<noteq> []" and dot: "dot \<or> fp = []"
    by (auto simp: decimal_shape_def)
  define iv where "iv = digits_value ip"
  define fv where "fv = scale_fraction d fp (digits_value (take (min (length fp) (d + 1)) fp))"
  have iv: "0 \<le> iv" and fv: "0 \<le> fv"
    using dig digits_value_bounds [of ip] by (auto simp: iv_def fv_def scale_fraction_nonneg)
  have mag: "decimal_magnitude d ip fp = iv * 10 ^ d + fv"
    unfolding decimal_magnitude_def iv_def fv_def
    using scale_fraction_correct [OF dig(2), of "digits_value ip" d] iv by (simp add: iv_def)
  have "iv \<le> iv * 10 ^ d" using iv by (simp add: mult_le_cancel_left1)
  with fv have big: "iv > i64_max \<Longrightarrow> iv * 10 ^ d + fv > i64_max" by linarith
  have "parse_int_part 0 ip = (if iv > i64_max then Inl result_out_of_range else Inr iv)"
    using parse_int_part_digits [OF dig(1), of 0] by (simp add: iv_def Let_def i64_max_def)
  moreover have "parse_frac_part (min (length fp) (d + 1)) 0 0 fp
      = Inr (digits_value (take (min (length fp) (d + 1)) fp))"
    using parse_frac_part_digits [OF dig(2), of "min (length fp) (d + 1)" 0 0] by simp
  ultimately show ?thesis
    using ne big mag assemble_eq [OF iv fv, of d negative] int_frac_part_of [OF dig(1) dot]
    by (simp add: from_decimal_string_def strip_sign_decimal_text [OF dig(1)] fv_def)
qed

text \<open>
  C26. On every text of the accepted grammar (optional minus sign, digits, optionally a dot and
  digits, at least one digit in all) the parser returns the decimal it denotes, rounded once to
  the type's precision with ties away from zero, or \<^verbatim>\<open>result_out_of_range\<close> exactly when that
  magnitude exceeds \<^verbatim>\<open>raw_type\<close>'s maximum.
\<close>

theorem from_decimal_string_correct:
  assumes "decimal_shape ip dot fp"
  shows "from_decimal_string d (decimal_text negative ip dot fp) =
    (if decimal_magnitude d ip fp > i64_max then Inl result_out_of_range
     else Inr (apply_sign negative (decimal_magnitude d ip fp)))"
  by (rule from_decimal_string_eval [OF assms])

theorem from_decimal_string_correct_witness:
  "decimal_shape ''0'' True ''9996'' \<and>
   from_decimal_string 2 (decimal_text True ''0'' True ''9996'') = Inr (- 100)"
proof -
  have shape: "decimal_shape ''0'' True ''9996''" by (simp add: decimal_shape_def is_digit_def)
  have "decimal_magnitude 2 ''0'' ''9996'' = 100"
    by (simp add: decimal_magnitude_def digits_value_def digit_value_def round_div_nonneg)
  with shape show ?thesis
    using from_decimal_string_correct [OF shape, of 2 True] by (simp add: apply_sign_def i64_max_def)
qed

lemma from_decimal_string_Inr:
  assumes "from_decimal_string d text = Inr r"
  shows "\<exists>negative ip dot fp. text = decimal_text negative ip dot fp \<and> decimal_shape ip dot fp
    \<and> decimal_magnitude d ip fp \<le> i64_max \<and> r = apply_sign negative (decimal_magnitude d ip fp)"
proof -
  obtain negative rest where sr: "strip_sign text = (negative, rest)" by (cases "strip_sign text")
  define ip where "ip = int_part_of rest"
  define fp where "fp = frac_part_of rest"
  define dot where "dot = (CHR ''.'' \<in> set rest)"
  have dig: "list_all is_digit ip" "list_all is_digit fp" "ip \<noteq> [] \<or> fp \<noteq> []"
    using assms sr
    by (auto simp: from_decimal_string_def ip_def fp_def Let_def split: if_splits sum.splits
        dest: parse_int_part_Inr_digits parse_frac_part_Inr_digits)
  have rest: "rest = ip @ (if dot then CHR ''.'' # fp else [])" and df: "dot \<or> fp = []"
  proof -
    have dw: "dropWhile (\<lambda>c. c \<noteq> CHR ''.'') rest = (if dot then CHR ''.'' # fp else [])"
    proof (cases dot)
      case True
      then have "dropWhile (\<lambda>c. c \<noteq> CHR ''.'') rest \<noteq> []" by (auto simp: dot_def dropWhile_eq_Nil_conv)
      with True hd_dropWhile [OF this] show ?thesis
        by (cases "dropWhile (\<lambda>c. c \<noteq> CHR ''.'') rest") (auto simp: fp_def frac_part_of_def)
    next
      case False
      then show ?thesis by (auto simp: dot_def dropWhile_eq_Nil_conv)
    qed
    then show "rest = ip @ (if dot then CHR ''.'' # fp else [])"
      by (metis ip_def int_part_of_def takeWhile_dropWhile_id)
    show "dot \<or> fp = []"
    proof (rule disjCI)
      assume "fp \<noteq> []"
      then have "dropWhile (\<lambda>c. c \<noteq> CHR ''.'') rest \<noteq> []"
        unfolding fp_def frac_part_of_def by (metis list.sel(2))
      then show dot by (auto simp: dot_def dropWhile_eq_Nil_conv)
    qed
  qed
  have text_eq: "text = decimal_text negative ip dot fp"
    using sr rest by (auto simp: strip_sign_def decimal_text_def split: list.splits if_splits)
  have shape: "decimal_shape ip dot fp" using dig df by (simp add: decimal_shape_def)
  have "decimal_magnitude d ip fp \<le> i64_max \<and> r = apply_sign negative (decimal_magnitude d ip fp)"
    using from_decimal_string_eval [OF shape, of d negative] assms text_eq
    by (auto split: if_splits)
  with text_eq shape show ?thesis
    by (intro exI [of _ negative] exI [of _ ip] exI [of _ dot] exI [of _ fp]) simp
qed

text \<open>
  Nothing outside that grammar is accepted: whenever the parser returns a value, the text is a
  sign, digits, dot and digits of the accepted shape, its magnitude is in range and the value is
  that decimal. In particular \<^verbatim>\<open>""\<close>, \<^verbatim>\<open>"-"\<close>, \<^verbatim>\<open>"."\<close>, a leading plus, an
  exponent and trailing garbage are errors.
\<close>

lemma from_decimal_string_accepts_only_decimals:
  assumes "from_decimal_string d text = Inr r"
  shows "\<exists>negative ip dot fp. text = decimal_text negative ip dot fp \<and> decimal_shape ip dot fp
    \<and> decimal_magnitude d ip fp \<le> i64_max \<and> r = apply_sign negative (decimal_magnitude d ip fp)"
  by (rule from_decimal_string_Inr [OF assms])

end
