(* ===== verification/Double_Format.thy ===== *)
theory Double_Format
  imports Decimal_Parse "HOL-Library.Log_Nat"
begin

text \<open>
  The two places where a fixed-point value meets a \<^verbatim>\<open>double\<close>: the constructor from a literal, and
  \<^verbatim>\<open>to_double\<close> behind \<^verbatim>\<open>format_fixed\<close>, which the client prints every figure with. A double is
  the rational number it denotes; each operation rounds its exact result to 53 significant bits, ties
  to even. The exponent range plays no role: every value here lies between \<open>10 ^ (- 9)\<close> and
  \<open>2 ^ 64\<close>, or is zero. Printing with \<^verbatim>\<open>std::fixed\<close> rounds the exact value of the double to the
  given number of decimals.
\<close>

section \<open>The language: doubles and decimal output\<close>

definition round_half_even :: "rat \<Rightarrow> int" where
  "round_half_even x =
     (let f = \<lfloor>x\<rfloor>; r = x - of_int f
      in if r < 1 / 2 then f else if r > 1 / 2 then f + 1 else if even f then f else f + 1)"

definition two_pow :: "int \<Rightarrow> rat" where
  "two_pow e = (if 0 \<le> e then 2 ^ nat e else 1 / 2 ^ nat (- e))"

text \<open>The exponent of the leading bit of a positive number.\<close>

definition binade :: "rat \<Rightarrow> int" where
  "binade x =
     (let (n, d) = quotient_of x; e = bitlen n - bitlen d
      in if two_pow e \<le> x then e else e - 1)"

definition double :: "rat \<Rightarrow> rat" where
  "double x =
     (if x = 0 then 0
      else let ulp = two_pow (binade \<bar>x\<bar> - 52) in of_int (round_half_even (x / ulp)) * ulp)"

definition digit_char :: "nat \<Rightarrow> char" where
  "digit_char n = char_of (48 + n)"

fun decimal_digits :: "nat \<Rightarrow> string" where
  "decimal_digits n =
     (if n < 10 then [digit_char n] else decimal_digits (n div 10) @ [digit_char (n mod 10)])"

declare decimal_digits.simps [simp del]

primrec padded_digits :: "nat \<Rightarrow> nat \<Rightarrow> string" where
  "padded_digits 0 n = []"
| "padded_digits (Suc k) n = padded_digits k (n div 10) @ [digit_char (n mod 10)]"

text \<open>\<^verbatim>\<open>std::to_string\<close> of an integer, and \<^verbatim>\<open>out << std::fixed << std::setprecision(d) << x\<close>.\<close>

definition to_string :: "int \<Rightarrow> string" where
  "to_string v = (if v < 0 then ''-'' else []) @ decimal_digits (nat \<bar>v\<bar>)"

definition fixed_text :: "nat \<Rightarrow> rat \<Rightarrow> string" where
  "fixed_text d x =
     (let n = nat \<bar>round_half_even (x * 10 ^ d)\<bar>
      in (if x < 0 then ''-'' else []) @ decimal_digits (n div 10 ^ d)
         @ (if d = 0 then [] else CHR ''.'' # padded_digits d (n mod 10 ^ d)))"

section \<open>The code\<close>

text \<open>The cast to \<^verbatim>\<open>raw_type\<close> truncates towards zero.\<close>

definition from_double :: "nat \<Rightarrow> rat \<Rightarrow> raw" where
  "from_double decimals x =
     (let y = double (double (x * double (of_int (scale decimals))) + (if x \<ge> 0 then 1 / 2 else - (1 / 2)))
      in if y \<ge> 0 then \<lfloor>y\<rfloor> else \<lceil>y\<rceil>)"

definition to_double :: "nat \<Rightarrow> raw \<Rightarrow> rat" where
  "to_double decimals r = double (double (of_int r) / double (of_int (scale decimals)))"

definition format_fixed :: "nat \<Rightarrow> raw \<Rightarrow> string" where
  "format_fixed decimals r = fixed_text decimals (to_double decimals r)"

section \<open>Rounding to 53 bits\<close>

lemma round_half_even_near: "\<bar>of_int (round_half_even x) - x\<bar> \<le> 1 / 2"
proof -
  have "of_int \<lfloor>x\<rfloor> \<le> x" "x < of_int \<lfloor>x\<rfloor> + 1" by (simp, linarith)
  then show ?thesis by (auto simp: round_half_even_def Let_def abs_le_iff)
qed

lemma round_half_even_unique:
  assumes "\<bar>of_int n - x\<bar> < 1 / 2"
  shows "round_half_even x = n"
proof -
  have "\<bar>of_int (round_half_even x) - of_int n :: rat\<bar> < 1"
    using assms round_half_even_near [of x] by linarith
  then show ?thesis by linarith
qed

lemma round_half_even_of_int [simp]: "round_half_even (of_int n) = n"
  by (rule round_half_even_unique) simp

lemma two_pow_pos [simp]: "0 < two_pow e"
  by (simp add: two_pow_def)

lemma two_pow_add: "two_pow (a + b) = two_pow a * two_pow b"
proof -
  have powi: "two_pow e = 2 powi e" for e
    by (simp add: two_pow_def power_int_def inverse_eq_divide power_one_over)
  show ?thesis by (simp add: powi power_int_add)
qed

lemma two_pow_mono: "a \<le> b \<Longrightarrow> two_pow a \<le> two_pow b"
proof -
  assume "a \<le> b"
  then have "1 \<le> two_pow (b - a)" by (simp add: two_pow_def)
  moreover have "two_pow b = two_pow a * two_pow (b - a)" using two_pow_add [of a "b - a"] by simp
  ultimately show ?thesis using two_pow_pos [of a] by simp
qed

lemma bitlen_two_pow:
  assumes "0 < (n :: int)"
  shows "two_pow (bitlen n - 1) \<le> of_int n" "of_int n < two_pow (bitlen n)"
proof -
  have "2 ^ nat (bitlen n - 1) \<le> n" "n < 2 ^ nat (bitlen n)" using bitlen_bounds [OF assms] by auto
  then have "(2 :: rat) ^ nat (bitlen n - 1) \<le> of_int n" "of_int n < (2 :: rat) ^ nat (bitlen n)"
    by (metis of_int_le_iff of_int_numeral of_int_power, metis of_int_less_iff of_int_numeral of_int_power)
  moreover have "bitlen n \<noteq> 0" using assms by (simp add: bitlen_eq_zero_iff)
  then have "1 \<le> bitlen n" using bitlen_nonneg [of n] by linarith
  ultimately show "two_pow (bitlen n - 1) \<le> of_int n" "of_int n < two_pow (bitlen n)"
    by (simp_all add: two_pow_def bitlen_nonneg)
qed

lemma binade_bounds:
  assumes "0 < x"
  shows "two_pow (binade x) \<le> x" "x < two_pow (binade x + 1)"
proof -
  obtain n d where q: "quotient_of x = (n, d)" by force
  have x: "x = of_int n / of_int d" and d: "0 < d"
    using quotient_of_div [OF q] quotient_of_denom_pos [OF q] by auto
  then have n: "0 < n" using assms by (simp add: zero_less_divide_iff)
  define e where "e = bitlen n - bitlen d"
  have low: "two_pow (e - 1) \<le> x"
  proof -
    have "two_pow (e - 1) * of_int d \<le> two_pow (e - 1) * two_pow (bitlen d)"
      using bitlen_two_pow(2) [OF d] by (intro mult_left_mono) (simp_all add: less_imp_le)
    also have "\<dots> = two_pow (bitlen n - 1)" by (simp add: two_pow_add [symmetric] e_def)
    also have "\<dots> \<le> of_int n" by (rule bitlen_two_pow(1) [OF n])
    finally show ?thesis using d by (simp add: x pos_le_divide_eq)
  qed
  have up: "x < two_pow (e + 1)"
  proof -
    have "of_int n < two_pow (bitlen n)" by (rule bitlen_two_pow(2) [OF n])
    also have "\<dots> = two_pow (e + 1) * two_pow (bitlen d - 1)" by (simp add: two_pow_add [symmetric] e_def)
    also have "\<dots> \<le> two_pow (e + 1) * of_int d"
      using bitlen_two_pow(1) [OF d] by (intro mult_left_mono) (simp_all add: less_imp_le)
    finally show ?thesis using d by (simp add: x pos_divide_less_eq)
  qed
  have "binade x = (if two_pow e \<le> x then e else e - 1)" by (simp add: binade_def q e_def)
  then show "two_pow (binade x) \<le> x" "x < two_pow (binade x + 1)" using low up by auto
qed

lemma double_error: "\<bar>double x - x\<bar> \<le> \<bar>x\<bar> / 2 ^ 53"
proof (cases "x = 0")
  case False
  define u where "u = two_pow (binade \<bar>x\<bar> - 52)"
  have u: "0 < u" by (simp add: u_def)
  have "\<bar>double x - x\<bar> = \<bar>of_int (round_half_even (x / u)) - x / u\<bar> * u"
  proof -
    have "double x - x = (of_int (round_half_even (x / u)) - x / u) * u"
      using False u by (simp add: double_def u_def [symmetric] left_diff_distrib)
    then show ?thesis using u by (simp add: abs_mult)
  qed
  also have "\<dots> \<le> 1 / 2 * u" using round_half_even_near [of "x / u"] u by (intro mult_right_mono) auto
  also have "\<dots> = two_pow (binade \<bar>x\<bar>) * two_pow (- 53)"
    using two_pow_add [of "binade \<bar>x\<bar>" "- 52"] by (simp add: u_def two_pow_def [of "- 53"] two_pow_def [of "- 52"])
  also have "\<dots> \<le> \<bar>x\<bar> * two_pow (- 53)"
    using binade_bounds(1) [of "\<bar>x\<bar>"] False by (intro mult_right_mono) (simp_all add: less_imp_le)
  finally show ?thesis by (simp add: two_pow_def)
qed (simp add: double_def)

lemma double_of_int:
  assumes "\<bar>n\<bar> < 2 ^ 53"
  shows "double (of_int n) = of_int n"
proof (cases "n = 0")
  case False
  define e where "e = binade \<bar>of_int n\<bar>"
  have "two_pow e \<le> \<bar>of_int n\<bar>" using binade_bounds(1) [of "\<bar>of_int n\<bar>"] False by (simp add: e_def)
  also have "\<dots> < two_pow 53"
    using assms by (simp add: two_pow_def)
  finally have "e < 53" using two_pow_mono [of 53 e] by linarith
  then obtain k where k: "two_pow (e - 52) = 1 / 2 ^ k"
    by (cases "e = 52") (auto simp: two_pow_def intro: that [of 0])
  have "round_half_even (of_int n * 2 ^ k) = n * 2 ^ k"
    using round_half_even_of_int [of "n * 2 ^ k"] by simp
  then show ?thesis using False by (simp add: double_def e_def [symmetric] Let_def k)
qed (simp add: double_def)

section \<open>Decimal digits\<close>

lemma digit_char:
  assumes "n < 10"
  shows "is_digit (digit_char n)" "digit_value (digit_char n) = int n"
  using assms by (simp_all add: digit_char_def is_digit_def digit_value_def)

lemma digits_value_snoc: "digits_value (xs @ [c]) = digits_value xs * 10 + digit_value c"
  by (simp add: digits_value_def)

lemma decimal_digits_correct:
  "list_all is_digit (decimal_digits n) \<and> decimal_digits n \<noteq> [] \<and> digits_value (decimal_digits n) = int n"
proof (induction n rule: decimal_digits.induct)
  case (1 n)
  show ?case
  proof (cases "n < 10")
    case True
    then show ?thesis by (simp add: decimal_digits.simps [of n] digit_char digits_value_def)
  next
    case False
    have "int (n div 10) * 10 + int (n mod 10) = int n" by presburger
    with False 1 show ?thesis by (simp add: decimal_digits.simps [of n] digit_char digits_value_snoc)
  qed
qed

lemma padded_digits_correct:
  "list_all is_digit (padded_digits k n) \<and> length (padded_digits k n) = k
   \<and> digits_value (padded_digits k n) = int (n mod 10 ^ k)"
proof (induction k arbitrary: n)
  case (Suc k)
  have "n mod 10 ^ Suc k = (n div 10) mod 10 ^ k * 10 + n mod 10"
    using mod_mult2_eq [of n 10 "10 ^ k"] by simp
  with Suc show ?case by (simp add: digits_value_snoc digit_char)
qed (simp add: digits_value_def)

section \<open>Printing is lossless\<close>

lemma to_double_near:
  assumes "\<bar>r\<bar> < 2 ^ 52" "d \<le> 9"
  shows "\<bar>of_int r - to_double d r * 10 ^ d\<bar> < 1 / 2"
proof -
  define q :: rat where "q = of_int r / 10 ^ d"
  have "(10 :: int) ^ d \<le> 10 ^ 9" using assms(2) by (intro power_increasing) auto
  then have "double (of_int (10 ^ d)) = of_int (10 ^ d)" by (intro double_of_int) simp
  then have td: "to_double d r = double q"
    using assms(1) double_of_int [of r] by (simp add: to_double_def q_def)
  have "\<bar>double q * 10 ^ d - q * 10 ^ d\<bar> = \<bar>double q - q\<bar> * 10 ^ d"
    by (simp add: abs_mult left_diff_distrib [symmetric])
  also have "\<dots> \<le> \<bar>q\<bar> / 2 ^ 53 * 10 ^ d" using double_error [of q] by (intro mult_right_mono) auto
  also have "\<dots> = \<bar>of_int r\<bar> / 2 ^ 53" by (simp add: q_def)
  also have "\<dots> < 1 / 2"
  proof -
    have "\<bar>of_int r :: rat\<bar> < 2 ^ 52" using assms(1) by (metis of_int_abs of_int_less_iff of_int_numeral of_int_power)
    then show ?thesis by simp
  qed
  finally show ?thesis by (simp add: td q_def abs_minus_commute)
qed

lemma double_neg: "double x < 0 \<longleftrightarrow> x < 0"
proof -
  have "\<bar>double x - x\<bar> \<le> \<bar>x\<bar> / 2 ^ 53" by (rule double_error)
  then show ?thesis by (auto simp: abs_if split: if_splits)
qed

lemma format_fixed_text:
  assumes "\<bar>r\<bar> < 2 ^ 52" "0 < d" "d \<le> 9"
  shows "format_fixed d r = decimal_text (r < 0) (decimal_digits (nat \<bar>r\<bar> div 10 ^ d)) True
    (padded_digits d (nat \<bar>r\<bar> mod 10 ^ d))"
proof -
  have round: "round_half_even (to_double d r * 10 ^ d) = r"
    by (rule round_half_even_unique [OF to_double_near [OF assms(1,3)]])
  have "to_double d r < 0 \<longleftrightarrow> r < 0"
  proof -
    have "(10 :: int) ^ d \<le> 10 ^ 9" using assms(3) by (intro power_increasing) auto
    then have "double (of_int (10 ^ d)) = of_int (10 ^ d)" by (intro double_of_int) simp
    then show ?thesis
      using assms(1) double_of_int [of r] by (simp add: to_double_def double_neg divide_less_0_iff)
  qed
  with assms(2) show ?thesis by (simp add: format_fixed_def fixed_text_def round Let_def decimal_text_def)
qed

text \<open>
  C36. Printed figures are exact. For every value below \<open>2 ^ 52\<close> raw units (four and a half million
  units of a price or notional) the two roundings of \<^verbatim>\<open>to_double\<close> and the rounding of the output
  cancel: \<^verbatim>\<open>format_fixed\<close> prints exactly the decimal expansion, with all digits of the type, and
  parsing the printed text gives the value back.
\<close>

theorem printed_figures_are_exact:
  assumes "\<bar>r\<bar> < 2 ^ 52" "0 < d" "d \<le> 9"
  shows "from_decimal_string d (format_fixed d r) = Inr r
    \<and> (\<exists>ip fp. format_fixed d r = (if r < 0 then ''-'' else []) @ ip @ ''.'' @ fp
         \<and> list_all is_digit ip \<and> ip \<noteq> [] \<and> list_all is_digit fp \<and> length fp = d
         \<and> of_int \<bar>r\<bar> / 10 ^ d = (of_int (digits_value ip) + of_int (digits_value fp) / 10 ^ d :: rat))"
proof -
  define n where "n = nat \<bar>r\<bar>"
  define ip where "ip = decimal_digits (n div 10 ^ d)"
  define fp where "fp = padded_digits d (n mod 10 ^ d)"
  have printed: "format_fixed d r = decimal_text (r < 0) ip True fp"
    unfolding ip_def fp_def n_def by (rule format_fixed_text [OF assms])
  have ip: "list_all is_digit ip" "ip \<noteq> []" "digits_value ip = int (n div 10 ^ d)"
    using decimal_digits_correct by (simp_all add: ip_def)
  have fp: "list_all is_digit fp" "length fp = d" "digits_value fp = int (n mod 10 ^ d)"
    using padded_digits_correct [of d "n mod 10 ^ d"] by (simp_all add: fp_def)
  have "int (n div 10 ^ d) * 10 ^ d + int (n mod 10 ^ d) = int (n div 10 ^ d * 10 ^ d + n mod 10 ^ d)"
    by (simp only: of_nat_add of_nat_mult of_nat_power of_nat_numeral)
  then have "int (n div 10 ^ d) * 10 ^ d + int (n mod 10 ^ d) = int n" by (simp only: div_mult_mod_eq)
  then have sum: "digits_value ip * 10 ^ d + digits_value fp = \<bar>r\<bar>" by (simp add: ip fp n_def)
  have "decimal_magnitude d ip fp = \<bar>r\<bar>"
    by (simp add: decimal_magnitude_def fp(2) sum round_div_exact)
  moreover have "decimal_shape ip True fp" using ip fp by (simp add: decimal_shape_def)
  moreover have "\<bar>r\<bar> \<le> i64_max" using assms(1) by (simp add: i64_max_def)
  ultimately have "from_decimal_string d (format_fixed d r) = Inr r"
    by (simp add: printed from_decimal_string_eval apply_sign_def)
  moreover have "of_int \<bar>r\<bar> / 10 ^ d = (of_int (digits_value ip) + of_int (digits_value fp) / 10 ^ d :: rat)"
    by (simp add: sum [symmetric] add_divide_distrib)
  moreover have "format_fixed d r = (if r < 0 then ''-'' else []) @ ip @ ''.'' @ fp"
    by (simp add: printed decimal_text_def)
  ultimately show ?thesis using ip fp by blast
qed

lemma padded_digits_numeral:
  "padded_digits (numeral k) n = padded_digits (pred_numeral k) (n div 10) @ [digit_char (n mod 10)]"
  by (simp only: numeral_eq_Suc [of k] padded_digits.simps)

lemma decimal_digits_numeral:
  "n < 10 \<Longrightarrow> decimal_digits n = [digit_char n]"
  "10 \<le> n \<Longrightarrow> decimal_digits n = decimal_digits (n div 10) @ [digit_char (n mod 10)]"
  by (subst decimal_digits.simps, simp)+

theorem printed_figures_are_exact_witness:
  "from_decimal_string 9 (format_fixed 9 (- 80000500000001)) = Inr (- 80000500000001)
   \<and> format_fixed 9 (- 80000500000001) = ''-80000.500000001''"
proof -
  have "format_fixed 9 (- 80000500000001) = ''-80000.500000001''"
    by (simp add: format_fixed_text decimal_text_def padded_digits_numeral decimal_digits_numeral digit_char_def
        char_of_def bit_0)
  with printed_figures_are_exact [of "- 80000500000001" 9] show ?thesis by simp
qed

end
