(* ===== verification/Price_Bands.thy ===== *)
theory Price_Bands
  imports Complex_Main Aggregate_Book
begin

text \<open>
  \<^verbatim>\<open>book/price_bands.hpp\<close>: the depth of one side of a book within so many basis points of a
  reference price. The code walks the levels once, with one index into the ascending thresholds;
  the reference definition \<open>band_spec\<close> filters the levels afresh for every threshold, by an exact
  comparison of rationals. The locale \<open>band_policy\<close> states the two monotonicity laws of a side
  the single pass relies on; \<^verbatim>\<open>Ask\<close> and \<^verbatim>\<open>Bid\<close> are its interpretations.
\<close>

section \<open>The code\<close>

record price_band =
  pb_bps :: int
  boundary_price :: price
  cumulative_size :: size_t
  cumulative_notional :: notional

definition kBpsDenominator :: int where "kBpsDenominator = 10000"

definition offset_by_bps :: "price \<Rightarrow> int \<Rightarrow> bool \<Rightarrow> price expected" where
  "offset_by_bps price signed_bps round_down =
     (let factor = kBpsDenominator + signed_bps;
          scaled_numerator = price * factor;
          denom = kBpsDenominator;
          rounded = (if round_down then scaled_numerator sdiv denom
                     else (scaled_numerator + denom - 1) sdiv denom)
      in from_raw_safe rounded)"

definition within_bps :: "price \<Rightarrow> price \<Rightarrow> int \<Rightarrow> bool \<Rightarrow> bool" where
  "within_bps price best_price signed_bps ge =
     (let factor = kBpsDenominator + signed_bps;
          lhs = price * kBpsDenominator;
          rhs = best_price * factor
      in if ge then lhs \<ge> rhs else lhs \<le> rhs)"

text \<open>The two side policies, and the members they share.\<close>

datatype band_side = Ask | Bid

definition expected_key_compare :: "band_side \<Rightarrow> price \<Rightarrow> price \<Rightarrow> bool" where
  "expected_key_compare side = (case side of Ask \<Rightarrow> (<) | Bid \<Rightarrow> (>))"

definition round_inner :: "band_side \<Rightarrow> price \<Rightarrow> int \<Rightarrow> price expected" where
  "round_inner side price bps =
     (case side of Ask \<Rightarrow> offset_by_bps price bps True | Bid \<Rightarrow> offset_by_bps price (- bps) False)"

definition side_within :: "band_side \<Rightarrow> price \<Rightarrow> price \<Rightarrow> int \<Rightarrow> bool" where
  "side_within side price reference bps =
     (case side of Ask \<Rightarrow> within_bps price reference bps False
      | Bid \<Rightarrow> within_bps price reference (- bps) True)"

definition bps_thresholds_valid :: "band_side \<Rightarrow> int list \<Rightarrow> bool" where
  "bps_thresholds_valid side bps_thresholds \<longleftrightarrow>
     sorted bps_thresholds \<and> list_all (\<lambda>bps. bps \<ge> 0) bps_thresholds
     \<and> (side \<noteq> Bid \<or> list_all (\<lambda>bps. bps < kBpsDenominator) bps_thresholds)"

definition empty_side_bands :: "band_side \<Rightarrow> int list \<Rightarrow> price_band list expected" where
  "empty_side_bands side bps_thresholds =
     (if \<not> bps_thresholds_valid side bps_thresholds then Inl invalid_argument else Inr [])"

text \<open>
  The two \<^verbatim>\<open>while (next < size)\<close> loops. The list is \<open>bps_thresholds\<close> from \<^verbatim>\<open>next\<close> on; the
  result is the bands the loop pushes and, for the inner loop, the thresholds it leaves.
\<close>

fun close_bands ::
  "band_side \<Rightarrow> price \<Rightarrow> price \<Rightarrow> size_t \<Rightarrow> notional \<Rightarrow> int list
   \<Rightarrow> (price_band list \<times> int list) expected" where
  "close_bands side reference price cum_size cum_notional [] = Inr ([], [])"
| "close_bands side reference price cum_size cum_notional (bps # rest) =
     (if side_within side price reference bps then Inr ([], bps # rest)
      else case round_inner side reference bps of
          Inl e \<Rightarrow> Inl e
        | Inr boundary \<Rightarrow>
            (case close_bands side reference price cum_size cum_notional rest of
               Inl e \<Rightarrow> Inl e
             | Inr (bands, left) \<Rightarrow>
                 Inr (\<lparr>pb_bps = bps, boundary_price = boundary, cumulative_size = cum_size,
                       cumulative_notional = cum_notional\<rparr> # bands, left)))"

fun flush_bands ::
  "band_side \<Rightarrow> price \<Rightarrow> size_t \<Rightarrow> notional \<Rightarrow> int list \<Rightarrow> price_band list expected" where
  "flush_bands side reference cum_size cum_notional [] = Inr []"
| "flush_bands side reference cum_size cum_notional (bps # rest) =
     (case round_inner side reference bps of
        Inl e \<Rightarrow> Inl e
      | Inr boundary \<Rightarrow>
          (case flush_bands side reference cum_size cum_notional rest of
             Inl e \<Rightarrow> Inl e
           | Inr bands \<Rightarrow>
               Inr (\<lparr>pb_bps = bps, boundary_price = boundary, cumulative_size = cum_size,
                     cumulative_notional = cum_notional\<rparr> # bands)))"

text \<open>The walk over the levels, ending with the loop for the thresholds the book never reached.\<close>

fun walk_bands ::
  "band_side \<Rightarrow> price \<Rightarrow> size_t \<Rightarrow> notional \<Rightarrow> int list \<Rightarrow> levels
   \<Rightarrow> price_band list expected" where
  "walk_bands side reference cum_size cum_notional next [] =
     flush_bands side reference cum_size cum_notional next"
| "walk_bands side reference cum_size cum_notional next ((price, sz) # rest) =
     (if \<not> is_valid_level price sz then Inl argument_out_of_domain
      else (case close_bands side reference price cum_size cum_notional next of
          Inl e \<Rightarrow> Inl e
        | Inr (bands, next') \<Rightarrow>
            (if next' = [] then Inr bands
             else (case from_raw_safe (cum_notional + price_times_size price sz) of
                 Inl e \<Rightarrow> Inl e
               | Inr cum_notional' \<Rightarrow>
                   (case walk_bands side reference (fp_add cum_size sz) cum_notional' next' rest of
                      Inl e \<Rightarrow> Inl e
                    | Inr bands' \<Rightarrow> Inr (bands @ bands'))))))"

definition price_band_depth ::
  "band_side \<Rightarrow> levels \<Rightarrow> price \<Rightarrow> int list \<Rightarrow> price_band list expected" where
  "price_band_depth side lvls reference bps_thresholds =
     (if \<not> bps_thresholds_valid side bps_thresholds then Inl invalid_argument
      else if reference \<le> 0 then Inl argument_out_of_domain
      else walk_bands side reference 0 0 bps_thresholds lvls)"

definition bbo_price_band_depths ::
  "band_side \<Rightarrow> levels \<Rightarrow> int list \<Rightarrow> price_band list expected" where
  "bbo_price_band_depths side lvls bps_thresholds =
     (case lvls of
        [] \<Rightarrow> empty_side_bands side bps_thresholds
      | (best, s) # _ \<Rightarrow> price_band_depth side lvls best bps_thresholds)"

definition bid_price_band_depths :: "l2_order_book \<Rightarrow> int list \<Rightarrow> price_band list expected" where
  "bid_price_band_depths book bps_thresholds = bbo_price_band_depths Bid (bids book) bps_thresholds"

definition ask_price_band_depths :: "l2_order_book \<Rightarrow> int list \<Rightarrow> price_band list expected" where
  "ask_price_band_depths book bps_thresholds = bbo_price_band_depths Ask (asks book) bps_thresholds"

section \<open>The specification\<close>

text \<open>The exact boundary of a band, a rational number of price units.\<close>

definition edge :: "band_side \<Rightarrow> price \<Rightarrow> int \<Rightarrow> rat" where
  "edge side reference bps =
     (case side of Ask \<Rightarrow> of_int reference * (1 + of_int bps / 10000)
      | Bid \<Rightarrow> of_int reference * (1 - of_int bps / 10000))"

definition inside :: "band_side \<Rightarrow> price \<Rightarrow> int \<Rightarrow> price \<Rightarrow> bool" where
  "inside side reference bps p =
     (case side of Ask \<Rightarrow> of_int p \<le> edge side reference bps
      | Bid \<Rightarrow> of_int p \<ge> edge side reference bps)"

text \<open>The representable price nearest the boundary on its inner side.\<close>

definition inner_price :: "band_side \<Rightarrow> price \<Rightarrow> int \<Rightarrow> price" where
  "inner_price side reference bps =
     (case side of Ask \<Rightarrow> \<lfloor>edge side reference bps\<rfloor> | Bid \<Rightarrow> \<lceil>edge side reference bps\<rceil>)"

definition total_size :: "levels \<Rightarrow> int" where
  "total_size lvls = sum_list (map snd lvls)"

definition total_notional :: "levels \<Rightarrow> int" where
  "total_notional lvls = sum_list (map (\<lambda>(p, s). round_div_nearest_away (p * s) 1000000) lvls)"

definition band_spec :: "band_side \<Rightarrow> price \<Rightarrow> levels \<Rightarrow> int \<Rightarrow> price_band" where
  "band_spec side reference lvls bps =
     (let depth = filter (\<lambda>(p, s). inside side reference bps p) lvls
      in \<lparr>pb_bps = bps, boundary_price = inner_price side reference bps,
          cumulative_size = total_size depth, cumulative_notional = total_notional depth\<rparr>)"

lemma total_simps [simp]:
  "total_size [] = 0" "total_size ((p, s) # ls) = s + total_size ls"
  "total_notional [] = 0"
  "total_notional ((p, s) # ls) = round_div_nearest_away (p * s) 1000000 + total_notional ls"
  by (simp_all add: total_size_def total_notional_def)

lemma total_nonneg:
  assumes "all_valid lvls"
  shows "0 \<le> total_size lvls" "0 \<le> total_notional lvls"
proof -
  have "\<forall>x \<in> set lvls. 0 \<le> snd x \<and> 0 \<le> fst x * snd x"
    using assms by (auto simp: all_valid_def is_valid_level_def list_all_iff)
  then show "0 \<le> total_size lvls" "0 \<le> total_notional lvls"
    by (fastforce simp: total_size_def total_notional_def
        intro!: sum_list_nonneg round_div_nonneg_result)+
qed

section \<open>The boundary\<close>

lemma edge_ratio:
  "edge Ask r b = of_int (r * (10000 + b)) / of_int 10000"
  "edge Bid r b = of_int (r * (10000 - b)) / of_int 10000"
  by (simp_all add: edge_def field_simps)

lemma inner_price_Ask: "inner_price Ask r b = (r * (10000 + b)) div 10000"
  unfolding inner_price_def edge_ratio by (simp del: of_int_mult of_int_add of_int_numeral
      add: floor_divide_of_int_eq)

lemma inner_price_Bid: "inner_price Bid r b = - (- (r * (10000 - b)) div 10000)"
  unfolding inner_price_def edge_ratio by (simp del: of_int_mult of_int_diff of_int_numeral
      add: ceiling_divide_eq_div)

lemma side_within_inside: "side_within side p r b = inside side r b p"
proof (cases side)
  case Ask
  have "p * 10000 \<le> r * (10000 + b) \<longleftrightarrow> (of_int (p * 10000) :: rat) \<le> of_int (r * (10000 + b))"
    by (simp only: of_int_le_iff)
  also have "\<dots> \<longleftrightarrow> of_int p \<le> edge Ask r b" by (simp add: edge_ratio pos_le_divide_eq)
  finally show ?thesis
    by (simp add: Ask side_within_def inside_def within_bps_def kBpsDenominator_def Let_def)
next
  case Bid
  have "p * 10000 \<ge> r * (10000 - b) \<longleftrightarrow> (of_int (p * 10000) :: rat) \<ge> of_int (r * (10000 - b))"
    by (simp only: of_int_le_iff)
  also have "\<dots> \<longleftrightarrow> of_int p \<ge> edge Bid r b" by (simp add: edge_ratio pos_divide_le_eq)
  finally show ?thesis
    by (simp add: Bid side_within_def inside_def within_bps_def kBpsDenominator_def Let_def)
qed

lemma inside_inner_price:
  "inside Ask r b p \<longleftrightarrow> p \<le> inner_price Ask r b"
  "inside Bid r b p \<longleftrightarrow> inner_price Bid r b \<le> p"
  by (simp_all add: inside_def inner_price_def le_floor_iff ceiling_le_iff)

definition bps_in_domain :: "band_side \<Rightarrow> int \<Rightarrow> bool" where
  "bps_in_domain side b \<longleftrightarrow> 0 \<le> b \<and> (side = Bid \<longrightarrow> b < 10000)"

lemma thresholds_in_domain:
  "bps_thresholds_valid side bs \<longleftrightarrow> sorted bs \<and> (\<forall>b \<in> set bs. bps_in_domain side b)"
  by (cases side) (auto simp: bps_thresholds_valid_def bps_in_domain_def kBpsDenominator_def
      list_all_iff)

lemma ceiling_as_div:
  fixes n d :: int
  assumes "0 < d"
  shows "(n + d - 1) div d = - ((- n) div d)"
proof -
  define q where "q = (- n) div d"
  define m where "m = (- n) mod d"
  have n: "n = - q * d - m" using div_mult_mod_eq [of "- n" d] unfolding q_def m_def by linarith
  have m: "0 \<le> m" "m < d" using assms by (auto simp: m_def)
  have "n + d - 1 = (d - 1 - m) + (- q) * d" by (simp add: n)
  then have "(n + d - 1) div d = (d - 1 - m) div d + (- q)"
    using assms by (simp only: div_mult_self1)
  then show ?thesis using m by (simp add: q_def div_pos_pos_trivial)
qed

lemma round_inner_eq:
  assumes "0 < r" "bps_in_domain side b"
  shows "round_inner side r b = from_raw_safe (inner_price side r b)"
proof (cases side)
  case Ask
  with assms have "0 \<le> r * (10000 + b)" by (simp add: bps_in_domain_def)
  then show ?thesis
    by (simp add: Ask round_inner_def offset_by_bps_def kBpsDenominator_def Let_def inner_price_Ask)
next
  case Bid
  with assms have "0 \<le> r * (10000 - b)" by (simp add: bps_in_domain_def)
  then show ?thesis
    using ceiling_as_div [of 10000 "r * (10000 - b)"]
    by (simp add: Bid round_inner_def offset_by_bps_def kBpsDenominator_def Let_def inner_price_Bid)
qed

section \<open>The laws of a side, and the single pass\<close>

text \<open>
  What the walk relies on: a level inside a band stays inside every wider band, and every better
  level is inside with it.
\<close>

locale band_policy =
  fixes side :: band_side
  assumes wider: "0 < r \<Longrightarrow> b \<le> c \<Longrightarrow> side_within side p r b \<Longrightarrow> side_within side p r c"
    and better: "expected_key_compare side p q \<Longrightarrow> side_within side q r b \<Longrightarrow> side_within side p r b"
    and rounds: "0 < r \<Longrightarrow> bps_in_domain side b \<Longrightarrow>
      round_inner side r b = from_raw_safe (inner_price side r b)"
begin

abbreviation band :: "price \<Rightarrow> size_t \<Rightarrow> notional \<Rightarrow> int \<Rightarrow> price_band" where
  "band r cs cn b \<equiv> \<lparr>pb_bps = b, boundary_price = inner_price side r b,
     cumulative_size = cs, cumulative_notional = cn\<rparr>"

text \<open>The levels of a side inside a band, as the code decides it.\<close>

abbreviation depth :: "price \<Rightarrow> levels \<Rightarrow> int \<Rightarrow> levels" where
  "depth r lvls b \<equiv> filter (\<lambda>(p, s). side_within side p r b) lvls"

lemma close_bands_eq:
  assumes "0 < r" "\<forall>b \<in> set bs. bps_in_domain side b"
  shows "close_bands side r p cs cn bs =
    (if \<forall>b \<in> set (takeWhile (\<lambda>b. \<not> side_within side p r b) bs). fits_i64 (inner_price side r b)
     then Inr (map (band r cs cn) (takeWhile (\<lambda>b. \<not> side_within side p r b) bs),
               dropWhile (\<lambda>b. \<not> side_within side p r b) bs)
     else Inl result_out_of_range)"
  using assms(2)
proof (induction bs)
  case (Cons b bs)
  then show ?case
    using assms(1)
    by (cases "fits_i64 (inner_price side r b)")
      (auto simp: rounds from_raw_safe_Inl [THEN iffD2])
qed simp

lemma flush_bands_eq:
  assumes "0 < r" "\<forall>b \<in> set bs. bps_in_domain side b"
  shows "flush_bands side r cs cn bs =
    (if \<forall>b \<in> set bs. fits_i64 (inner_price side r b) then Inr (map (band r cs cn) bs)
     else Inl result_out_of_range)"
  using assms(2)
proof (induction bs)
  case (Cons b bs)
  then show ?case
    using assms(1)
    by (cases "fits_i64 (inner_price side r b)")
      (simp_all add: rounds from_raw_safe_Inl [THEN iffD2])
qed simp

text \<open>A threshold the first level lies outside of is outside of the whole side.\<close>

lemma depth_outside:
  assumes "om_wf (expected_key_compare side) ((p, s) # rest)" "\<not> side_within side p r b"
  shows "depth r ((p, s) # rest) b = []"
  using assms better by (fastforce simp: om_wf_Cons filter_empty_conv)

lemma sorted_dropWhile_within:
  assumes "sorted bs" "0 < r" "b \<in> set (dropWhile (\<lambda>b. \<not> side_within side p r b) bs)"
  shows "side_within side p r b"
  using assms by (induction bs) (auto split: if_splits intro: wider)

lemma takeWhile_outside:
  "b \<in> set (takeWhile (\<lambda>b. \<not> side_within side p r b) bs) \<Longrightarrow> \<not> side_within side p r b"
  by (auto dest: set_takeWhileD)

abbreviation band_at :: "price \<Rightarrow> size_t \<Rightarrow> notional \<Rightarrow> levels \<Rightarrow> int \<Rightarrow> price_band" where
  "band_at r cs cn lvls b \<equiv>
     band r (cs + total_size (depth r lvls b)) (cn + total_notional (depth r lvls b)) b"

abbreviation representable :: "price \<Rightarrow> notional \<Rightarrow> levels \<Rightarrow> int \<Rightarrow> bool" where
  "representable r cn lvls b \<equiv>
     fits_i64 (inner_price side r b) \<and> fits_i64 (cn + total_notional (depth r lvls b))"

lemma depth_valid: "all_valid lvls \<Longrightarrow> all_valid (depth r lvls b)"
  by (auto simp: all_valid_def list_all_iff)

lemma first_level_too_big:
  assumes "all_valid ((p, s) # rest)" "0 \<le> cn" "side_within side p r b"
    "\<not> fits_i64 (cn + round_div_nearest_away (p * s) 1000000)"
  shows "\<not> fits_i64 (cn + total_notional (depth r ((p, s) # rest) b))"
proof -
  have "all_valid rest" using assms(1) by (simp add: all_valid_def)
  then have "0 \<le> total_notional (depth r rest b)" by (intro total_nonneg depth_valid)
  moreover have "0 \<le> round_div_nearest_away (p * s) 1000000"
    using assms(1) by (intro round_div_nonneg_result) (auto simp: all_valid_def is_valid_level_def)
  ultimately show ?thesis using assms(2-4) by (auto simp: i64_defs)
qed

text \<open>One iteration of the outer loop, with the two parts the inner loop splits the thresholds in.\<close>

lemma walk_bands_Cons:
  assumes "0 < r" "\<forall>b \<in> set bs. bps_in_domain side b" "is_valid_level p s"
    "out = takeWhile (\<lambda>b. \<not> side_within side p r b) bs"
    "left = dropWhile (\<lambda>b. \<not> side_within side p r b) bs"
    "price_times_size p s = n" "fp_add cs s = cs + s"
  shows "walk_bands side r cs cn bs ((p, s) # rest) =
    (if \<not> (\<forall>b \<in> set out. fits_i64 (inner_price side r b)) then Inl result_out_of_range
     else if left = [] then Inr (map (band r cs cn) out)
     else if \<not> fits_i64 (cn + n) then Inl result_out_of_range
     else case walk_bands side r (cs + s) (cn + n) left rest of
         Inl e \<Rightarrow> Inl e
       | Inr bands \<Rightarrow> Inr (map (band r cs cn) out @ bands))"
  using assms(3,6,7) close_bands_eq [OF assms(1,2), of p cs cn, folded assms(4,5)]
  by (simp add: from_raw_safe_Inl [THEN iffD2])

lemma walk_bands_eq:
  assumes "om_wf (expected_key_compare side) lvls" "all_valid lvls" "sorted bs"
    "\<forall>b \<in> set bs. bps_in_domain side b" "0 < r"
    "0 \<le> cs" "0 \<le> cn" "fits_i64 cn" "cs + total_size lvls \<le> i64_max"
    "\<forall>(p, s) \<in> set lvls. fits_i64 (round_div_nearest_away (p * s) 1000000)"
  shows "walk_bands side r cs cn bs lvls =
    (if \<forall>b \<in> set bs. representable r cn lvls b then Inr (map (band_at r cs cn lvls) bs)
     else Inl result_out_of_range)"
  using assms
proof (induction lvls arbitrary: cs cn bs)
  case Nil
  then show ?case by (simp add: flush_bands_eq)
next
  case (Cons x rest)
  obtain p s where x: "x = (p, s)" by force
  define n where "n = round_div_nearest_away (p * s) 1000000"
  define out where "out = takeWhile (\<lambda>b. \<not> side_within side p r b) bs"
  define left where "left = dropWhile (\<lambda>b. \<not> side_within side p r b) bs"
  have valid: "is_valid_level p s" "all_valid rest" "0 \<le> s"
    using Cons.prems(2) x by (auto simp: all_valid_def is_valid_level_def)
  have n: "0 \<le> n" "price_times_size p s = n"
    using valid Cons.prems(10) x
    by (auto simp: n_def is_valid_level_def price_times_size_fits intro!: round_div_nonneg_result)
  have sz: "fp_add cs s = cs + s"
    using Cons.prems(6,9) valid total_nonneg(1) [OF valid(2)] x
    by (intro fp_add_fits) (auto simp: i64_defs)
  have bs: "bs = out @ left" by (simp add: out_def left_def)
  have out: "depth r (x # rest) b = []" if "b \<in> set out" for b
    using that depth_outside [of p s rest r b] Cons.prems(1) x
    by (auto simp: out_def dest: set_takeWhileD)
  have leftw: "side_within side p r b" if "b \<in> set left" for b
    using that unfolding left_def by (rule sorted_dropWhile_within [OF Cons.prems(3,5)])
  then have left: "depth r (x # rest) b = (p, s) # depth r rest b" if "b \<in> set left" for b
    using that by (simp add: x)
  have rep: "(\<forall>b \<in> set bs. representable r cn (x # rest) b) \<longleftrightarrow>
      (\<forall>b \<in> set out. fits_i64 (inner_price side r b))
      \<and> (\<forall>b \<in> set left. representable r (cn + n) rest b)"
    using Cons.prems(8) unfolding bs set_append ball_Un
    by (simp add: out left n_def add.assoc cong: ball_cong del: filter.simps)
  have bands: "map (band_at r cs cn (x # rest)) bs =
      map (band r cs cn) out @ map (band_at r (cs + s) (cn + n) rest) left"
    by (simp add: bs out left n_def add.assoc del: filter.simps)
  have big: "\<not> representable r (cn + n) rest b" if "\<not> fits_i64 (cn + n)" "b \<in> set left" for b
    using first_level_too_big [of p s rest cn r b] Cons.prems(2,7) x that left [of b]
      leftw [of b] by (simp add: n_def add.assoc del: filter.simps)
  have IH: "walk_bands side r (cs + s) (cn + n) left rest =
      (if \<forall>b \<in> set left. representable r (cn + n) rest b
       then Inr (map (band_at r (cs + s) (cn + n) rest) left) else Inl result_out_of_range)"
    if "fits_i64 (cn + n)"
    using Cons.prems valid n that x
    by (intro Cons.IH) (auto simp: om_wf_Cons left_def sorted_dropWhile dest: set_dropWhileD)
  show ?case
    unfolding rep bands
    unfolding x walk_bands_Cons [OF Cons.prems(5,4) valid(1) out_def left_def n(2) sz]
    using IH big by (cases left) (auto simp del: filter.simps)
qed

end

interpretation bands: band_policy side for side
proof
  fix r b c p q :: int
  show "0 < r \<Longrightarrow> b \<le> c \<Longrightarrow> side_within side p r b \<Longrightarrow> side_within side p r c"
  proof (cases side)
    case Ask
    assume "0 < r" "b \<le> c" "side_within side p r b"
    then have "p * 10000 \<le> r * (10000 + b)" "r * (10000 + b) \<le> r * (10000 + c)"
      by (simp_all add: Ask side_within_def within_bps_def kBpsDenominator_def)
    then show ?thesis by (simp add: Ask side_within_def within_bps_def kBpsDenominator_def)
  next
    case Bid
    assume "0 < r" "b \<le> c" "side_within side p r b"
    then have "r * (10000 - b) \<le> p * 10000" "r * (10000 - c) \<le> r * (10000 - b)"
      by (simp_all add: Bid side_within_def within_bps_def kBpsDenominator_def)
    then show ?thesis by (simp add: Bid side_within_def within_bps_def kBpsDenominator_def)
  qed
  show "expected_key_compare side p q \<Longrightarrow> side_within side q r b \<Longrightarrow> side_within side p r b"
    by (cases side) (auto simp: side_within_def within_bps_def kBpsDenominator_def Let_def
        expected_key_compare_def)
  show "0 < r \<Longrightarrow> bps_in_domain side b \<Longrightarrow>
      round_inner side r b = from_raw_safe (inner_price side r b)"
    by (rule round_inner_eq)
qed

section \<open>The bands of a side\<close>

text \<open>
  A side the bands are computed on: in iteration order, of accepted levels, and small enough that
  neither the running size nor the notional of a single level wraps (the two additions the code
  leaves to debug-only assertions).
\<close>

definition measurable_side :: "band_side \<Rightarrow> levels \<Rightarrow> bool" where
  "measurable_side side lvls \<longleftrightarrow>
     om_wf (expected_key_compare side) lvls \<and> all_valid lvls \<and> total_size lvls \<le> i64_max
     \<and> list_all (\<lambda>(p, s). fits_i64 (round_div_nearest_away (p * s) 1000000)) lvls"

definition figures_fit :: "band_side \<Rightarrow> price \<Rightarrow> levels \<Rightarrow> int \<Rightarrow> bool" where
  "figures_fit side r lvls b \<longleftrightarrow>
     fits_i64 (boundary_price (band_spec side r lvls b))
     \<and> fits_i64 (cumulative_notional (band_spec side r lvls b))"

lemma price_band_depth_eq:
  assumes "measurable_side side lvls" "bps_thresholds_valid side bs" "0 < r"
  shows "price_band_depth side lvls r bs =
    (if \<forall>b \<in> set bs. figures_fit side r lvls b then Inr (map (band_spec side r lvls) bs)
     else Inl result_out_of_range)"
proof -
  have "0 \<le> total_notional lvls" using assms(1) by (simp add: measurable_side_def total_nonneg)
  with assms show ?thesis
    using bands.walk_bands_eq [of side lvls bs r 0 0]
    by (simp add: price_band_depth_def measurable_side_def thresholds_in_domain figures_fit_def
        band_spec_def Let_def side_within_inside i64_defs list_all_iff)
qed

lemma total_filter_mono:
  assumes "all_valid lvls" "\<And>p. P p \<Longrightarrow> Q p"
  shows "total_size (filter (\<lambda>(p, s). P p) lvls) \<le> total_size (filter (\<lambda>(p, s). Q p) lvls)"
    "total_notional (filter (\<lambda>(p, s). P p) lvls) \<le> total_notional (filter (\<lambda>(p, s). Q p) lvls)"
proof -
  have "total_size (filter (\<lambda>(p, s). P p) lvls) \<le> total_size (filter (\<lambda>(p, s). Q p) lvls)
    \<and> total_notional (filter (\<lambda>(p, s). P p) lvls) \<le> total_notional (filter (\<lambda>(p, s). Q p) lvls)"
    using assms(1)
  proof (induction lvls)
    case (Cons x lvls)
    obtain p s where x: "x = (p, s)" by force
    with Cons.prems have "0 \<le> s" "0 \<le> round_div_nearest_away (p * s) 1000000"
      by (auto simp: all_valid_def is_valid_level_def intro!: round_div_nonneg_result)
    with Cons x assms(2) [of p] show ?case by (auto simp: all_valid_def)
  qed simp
  then show "total_size (filter (\<lambda>(p, s). P p) lvls) \<le> total_size (filter (\<lambda>(p, s). Q p) lvls)"
    "total_notional (filter (\<lambda>(p, s). P p) lvls) \<le> total_notional (filter (\<lambda>(p, s). Q p) lvls)"
    by auto
qed

lemma band_spec_mono:
  assumes "all_valid lvls" "0 < r" "b \<le> c"
  shows "cumulative_size (band_spec side r lvls b) \<le> cumulative_size (band_spec side r lvls c)"
    "cumulative_notional (band_spec side r lvls b) \<le> cumulative_notional (band_spec side r lvls c)"
proof -
  have "inside side r b p \<Longrightarrow> inside side r c p" for p
    using bands.wider [of r b c side p] assms by (simp add: side_within_inside)
  with assms(1) show
    "cumulative_size (band_spec side r lvls b) \<le> cumulative_size (band_spec side r lvls c)"
    "cumulative_notional (band_spec side r lvls b) \<le> cumulative_notional (band_spec side r lvls c)"
    by (simp_all add: band_spec_def Let_def total_filter_mono)
qed

lemma best_price_inside: "0 < r \<Longrightarrow> 0 \<le> b \<Longrightarrow> inside side r b r"
  by (cases side) (simp_all add: inside_def edge_def mult_le_cancel_left1 mult_le_cancel_left2)

lemma offset_product_fits_i128:
  assumes "fits_i64 r" "0 < r" "0 \<le> b" "b \<le> 2147483647"
  shows "fits_i128 (r * (10000 + b))" "fits_i128 (r * (10000 - b) + 10000 - 1)"
proof -
  have "r * (10000 + b) \<le> 9223372036854775807 * 2147493647"
    using assms by (intro mult_mono) (auto simp: i64_defs)
  moreover have "\<bar>r * (10000 - b)\<bar> \<le> r * (10000 + b)"
    using assms by (simp add: abs_mult)
  moreover have "0 \<le> r * (10000 + b)" using assms by simp
  ultimately show "fits_i128 (r * (10000 + b))" "fits_i128 (r * (10000 - b) + 10000 - 1)"
    by (auto simp: i128_defs abs_le_iff)
qed

text \<open>
  C9. The single pass computes the specification: on every ordered side of valid levels, and for
  every ascending list of thresholds, \<^verbatim>\<open>price_band_depth\<close> reports for each threshold the
  total size and the total notional of exactly the levels whose price is within that many basis
  points of the reference, compared as rationals, together with the boundary rounded inwards;
  it fails only when one of these figures does not fit its type, and then with
  \<^verbatim>\<open>result_out_of_range\<close>. Malformed thresholds and a non-positive reference have errors of
  their own.
\<close>

theorem price_band_depth_correct:
  assumes "measurable_side side lvls"
  shows "price_band_depth side lvls r bs =
    (if \<not> bps_thresholds_valid side bs then Inl invalid_argument
     else if r \<le> 0 then Inl argument_out_of_domain
     else if \<forall>b \<in> set bs. figures_fit side r lvls b then Inr (map (band_spec side r lvls) bs)
     else Inl result_out_of_range)"
  using price_band_depth_eq [OF assms, of bs r] by (simp add: price_band_depth_def)

definition sample_side :: levels where
  "sample_side = [(100000000000, 2000000), (100500000000, 3000000), (101000000000, 500000),
     (120000000000, 1000000)]"

lemma sample_side_measurable: "measurable_side Ask sample_side"
  by (simp add: measurable_side_def sample_side_def om_wf_def expected_key_compare_def all_valid_def
      is_valid_level_def i64_defs round_div_nonneg)

lemma figures_fit_Ask: "figures_fit Ask r lvls b \<longleftrightarrow>
    fits_i64 (r * (10000 + b) div 10000)
    \<and> fits_i64 (total_notional (filter (\<lambda>(p, s). p \<le> r * (10000 + b) div 10000) lvls))"
  by (simp add: figures_fit_def band_spec_def Let_def inner_price_Ask inside_inner_price)

theorem price_band_depth_correct_witness:
  "measurable_side Ask sample_side
   \<and> price_band_depth Ask sample_side 100000000000 [0, 50, 100] =
       Inr (map (band_spec Ask 100000000000 sample_side) [0, 50, 100])
   \<and> band_spec Ask 100000000000 sample_side 100 =
       \<lparr>pb_bps = 100, boundary_price = 101000000000, cumulative_size = 5500000,
        cumulative_notional = 552000000000\<rparr>"
  using price_band_depth_correct [OF sample_side_measurable, of 100000000000 "[0, 50, 100]"]
  by (simp add: sample_side_measurable figures_fit_Ask bps_thresholds_valid_def)
    (simp add: sample_side_def i64_defs round_div_nonneg band_spec_def inner_price_Ask
      inside_inner_price)

text \<open>
  The reported boundary is the last price of the band: for a threshold of the side's domain the
  128-bit product of \<^verbatim>\<open>offset_by_bps\<close> and of the membership test cannot overflow; whenever
  a boundary is reported it is positive, and a price is within the band exactly when it is not
  beyond that boundary, although the boundary is rounded and the test is not; and on the bid side
  a boundary is always reported.
\<close>

lemma boundary_is_the_last_price_within:
  assumes "fits_i64 r" "0 < r" "bps_in_domain side b" "b \<le> 2147483647"
  shows "fits_i128 (r * (10000 + b)) \<and> fits_i128 (r * (10000 - b) + 10000 - 1)
    \<and> (\<forall>bp. round_inner side r b = Inr bp \<longrightarrow> 0 < bp
         \<and> (\<forall>p. side_within side p r b \<longleftrightarrow> (case side of Ask \<Rightarrow> p \<le> bp | Bid \<Rightarrow> bp \<le> p)))
    \<and> (side = Bid \<longrightarrow> is_ok (round_inner side r b))"
proof -
  have "inside side r b r" using best_price_inside assms by (simp add: bps_in_domain_def)
  then have best: "side = Ask \<Longrightarrow> r \<le> inner_price Ask r b" "side = Bid \<Longrightarrow> inner_price Bid r b \<le> r"
    by (auto simp: inside_inner_price)
  have bid: "0 < inner_price Bid r b" if "side = Bid"
  proof -
    have "0 < r * (10000 - b)" using assms that by (simp add: bps_in_domain_def)
    then show ?thesis by (simp add: inner_price_Bid div_neg_pos_less0)
  qed
  have "fits_i64 (inner_price Bid r b)" if "side = Bid"
    using best(2) bid that assms(1) by (simp add: i64_defs)
  moreover have "0 < bp \<and> (\<forall>p. side_within side p r b \<longleftrightarrow> (case side of Ask \<Rightarrow> p \<le> bp | Bid \<Rightarrow> bp \<le> p))"
    if "round_inner side r b = Inr bp" for bp
    using that best bid assms(2,3)
    by (cases side) (auto simp: round_inner_eq from_raw_safe_Inr side_within_inside
        inside_inner_price)
  ultimately show ?thesis
    using assms offset_product_fits_i128 [of r b] by (auto simp: round_inner_eq bps_in_domain_def)
qed

text \<open>
  Depth against a side's own best price: an empty side has no bands, malformed thresholds are
  refused whether or not the side is empty, and on a non-empty measurable side the bands that are
  reported are one per threshold in order, each counts the best level, and they are nested: a wider
  threshold never reports less size or less notional.
\<close>

lemma bbo_bands_are_nested:
  assumes "measurable_side side lvls"
  shows "(\<not> bps_thresholds_valid side bs \<longrightarrow> bbo_price_band_depths side lvls bs = Inl invalid_argument)
    \<and> (bps_thresholds_valid side bs \<longrightarrow> bbo_price_band_depths side [] bs = Inr [])
    \<and> (\<forall>best s rest bands. lvls = (best, s) # rest \<and> bbo_price_band_depths side lvls bs = Inr bands \<longrightarrow>
         map pb_bps bands = bs \<and> (\<forall>band \<in> set bands. s \<le> cumulative_size band)
         \<and> sorted (map cumulative_size bands) \<and> sorted (map cumulative_notional bands))"
proof -
  have main: "map pb_bps bands = bs \<and> (\<forall>band \<in> set bands. s \<le> cumulative_size band)
      \<and> sorted (map cumulative_size bands) \<and> sorted (map cumulative_notional bands)"
    if l: "lvls = (best, s) # rest" and res: "bbo_price_band_depths side lvls bs = Inr bands"
    for best s rest bands
  proof -
    have valid: "all_valid lvls" "all_valid rest" "0 < best"
      using assms l by (auto simp: measurable_side_def all_valid_def is_valid_level_def)
    have ok: "bps_thresholds_valid side bs"
      using res l by (auto simp: bbo_price_band_depths_def price_band_depth_def split: if_splits)
    have bands: "bands = map (band_spec side best lvls) bs"
      using res l price_band_depth_eq [OF assms ok valid(3)]
      by (auto simp: bbo_price_band_depths_def split: if_splits)
    have "s \<le> cumulative_size (band_spec side best lvls b)" if "b \<in> set bs" for b
    proof -
      have "inside side best b best"
        using that ok valid best_price_inside by (auto simp: thresholds_in_domain bps_in_domain_def)
      moreover have "0 \<le> total_size (filter (\<lambda>(p, s). inside side best b p) rest)"
        using valid(2) by (intro total_nonneg) (auto simp: all_valid_def list_all_iff)
      ultimately show ?thesis by (simp add: l band_spec_def Let_def)
    qed
    moreover have "sorted (map (cumulative_size \<circ> band_spec side best lvls) bs)"
      "sorted (map (cumulative_notional \<circ> band_spec side best lvls) bs)"
      using ok band_spec_mono [OF valid(1,3)]
      by (auto simp: thresholds_in_domain mono_on_def intro!: sorted_map_mono)
    moreover have "map pb_bps bands = bs" by (simp add: bands comp_def band_spec_def Let_def)
    ultimately show ?thesis by (simp add: bands)
  qed
  then show ?thesis
    by (auto simp: bbo_price_band_depths_def empty_side_bands_def price_band_depth_def
        split: list.split)
qed

end
