(* ===== verification/Volume_Bands.thy ===== *)
theory Volume_Bands
  imports Price_Bands
begin

text \<open>
  \<^verbatim>\<open>book/volume_bands.hpp\<close>: the volume-weighted average price of filling a notional
  threshold from the best price of a side onwards. The code fills all ascending thresholds in one
  pass and computes each average as one 128-bit fraction; the reference definition
  \<open>volume_spec\<close> searches the crossing level of every threshold afresh and divides rationals.
\<close>

section \<open>The code\<close>

record volume_band =
  notional_threshold :: notional
  vwap :: "price option"
  filled_notional :: notional

definition vwap_at_partial_fill ::
  "notional \<Rightarrow> size_t \<Rightarrow> notional \<Rightarrow> price \<Rightarrow> price expected" where
  "vwap_at_partial_fill cum_notional cum_size remaining price =
     (if price \<le> 0 then Inl argument_out_of_domain
      else let kScale = 1000000;
               vwap_notional_raw = cum_notional + remaining;
               notional_price_product = vwap_notional_raw * price
           in if notional_price_product > i128_max sdiv kScale
                \<or> notional_price_product < - (i128_max sdiv kScale)
              then Inl result_out_of_range
              else let numerator = notional_price_product * kScale;
                       denominator = cum_size * price + remaining * kScale
                   in if denominator \<le> 0 then Inl argument_out_of_domain
                      else Inr (from_raw_checked (round_div_nearest_away numerator denominator)))"

text \<open>The average of one crossed threshold: the body of the inner loop up to its error check.\<close>

definition crossing_vwap ::
  "notional \<Rightarrow> size_t \<Rightarrow> price \<Rightarrow> size_t \<Rightarrow> notional \<Rightarrow> notional \<Rightarrow> price expected" where
  "crossing_vwap cum_notional cum_size price sz level_notional threshold =
     (let remaining = fp_sub threshold cum_notional
      in if remaining = level_notional
         then notional_div_size (fp_add cum_notional remaining) (fp_add cum_size sz)
         else vwap_at_partial_fill cum_notional cum_size remaining price)"

text \<open>The inner loop: the bands it pushes, and the thresholds it leaves.\<close>

fun fill_bands ::
  "notional \<Rightarrow> size_t \<Rightarrow> price \<Rightarrow> size_t \<Rightarrow> notional \<Rightarrow> notional \<Rightarrow> notional list
   \<Rightarrow> (volume_band list \<times> notional list) expected" where
  "fill_bands cum_notional cum_size price sz level_notional next_cum_notional [] = Inr ([], [])"
| "fill_bands cum_notional cum_size price sz level_notional next_cum_notional (t # rest) =
     (if next_cum_notional \<ge> t then
        (case crossing_vwap cum_notional cum_size price sz level_notional t of
           Inl e \<Rightarrow> Inl e
         | Inr v \<Rightarrow>
             (case fill_bands cum_notional cum_size price sz level_notional next_cum_notional rest of
                Inl e \<Rightarrow> Inl e
              | Inr (bands, left) \<Rightarrow>
                  Inr (\<lparr>notional_threshold = t, vwap = Some v, filled_notional = t\<rparr> # bands, left)))
      else Inr ([], t # rest))"

fun walk_volume ::
  "notional \<Rightarrow> size_t \<Rightarrow> notional list \<Rightarrow> levels \<Rightarrow> volume_band list expected" where
  "walk_volume cum_notional cum_size next [] =
     Inr (map (\<lambda>t. \<lparr>notional_threshold = t, vwap = None, filled_notional = cum_notional\<rparr>) next)"
| "walk_volume cum_notional cum_size next ((price, sz) # rest) =
     (if \<not> is_valid_level price sz then Inl argument_out_of_domain
      else let level_notional = price_times_size price sz
           in (case from_raw_safe (cum_notional + level_notional) of
                 Inl e \<Rightarrow> Inl e
               | Inr next_cum_notional \<Rightarrow>
                   (case fill_bands cum_notional cum_size price sz level_notional
                           next_cum_notional next of
                      Inl e \<Rightarrow> Inl e
                    | Inr (bands, next') \<Rightarrow>
                        (case walk_volume next_cum_notional (fp_add cum_size sz) next' rest of
                           Inl e \<Rightarrow> Inl e
                         | Inr bands' \<Rightarrow> Inr (bands @ bands')))))"

definition volume_thresholds_valid :: "notional list \<Rightarrow> bool" where
  "volume_thresholds_valid thresholds \<longleftrightarrow>
     sorted thresholds \<and> list_all (\<lambda>t. t > 0) thresholds"

definition volume_band_prices :: "levels \<Rightarrow> notional list \<Rightarrow> volume_band list expected" where
  "volume_band_prices lvls thresholds =
     (if \<not> volume_thresholds_valid thresholds then Inl invalid_argument
      else walk_volume 0 0 thresholds lvls)"

definition bid_volume_band_prices ::
  "l2_order_book \<Rightarrow> notional list \<Rightarrow> volume_band list expected" where
  "bid_volume_band_prices book thresholds = volume_band_prices (bids book) thresholds"

definition ask_volume_band_prices ::
  "l2_order_book \<Rightarrow> notional list \<Rightarrow> volume_band list expected" where
  "ask_volume_band_prices book thresholds = volume_band_prices (asks book) thresholds"

section \<open>The specification\<close>

abbreviation level_value :: "price \<Rightarrow> size_t \<Rightarrow> notional" where
  "level_value p s \<equiv> round_div_nearest_away (p * s) 1000000"

text \<open>The level at which a threshold is crossed, with what was accumulated before it.\<close>

fun crossing :: "notional \<Rightarrow> size_t \<Rightarrow> levels \<Rightarrow> notional \<Rightarrow> (notional \<times> size_t \<times> price \<times> size_t) option"
  where
  "crossing cn cs [] t = None"
| "crossing cn cs ((p, s) # rest) t =
     (if t \<le> cn + level_value p s then Some (cn, cs, p, s)
      else crossing (cn + level_value p s) (cs + s) rest t)"

text \<open>The quantity bought or sold to fill \<open>t\<close>, in units of size, and the average price paid.\<close>

definition fill_quantity :: "notional \<Rightarrow> size_t \<Rightarrow> price \<Rightarrow> size_t \<Rightarrow> notional \<Rightarrow> rat" where
  "fill_quantity cn cs p s t =
     of_int cs + (if t = cn + level_value p s then of_int s
                  else of_int (t - cn) * 1000000 / of_int p)"

definition exact_vwap :: "notional \<Rightarrow> size_t \<Rightarrow> price \<Rightarrow> size_t \<Rightarrow> notional \<Rightarrow> rat" where
  "exact_vwap cn cs p s t = of_int t * 1000000 / fill_quantity cn cs p s t"

definition nearest :: "rat \<Rightarrow> int" where
  "nearest x = \<lfloor>x + 1 / 2\<rfloor>"

definition volume_spec_from :: "notional \<Rightarrow> size_t \<Rightarrow> levels \<Rightarrow> notional \<Rightarrow> volume_band" where
  "volume_spec_from cn cs lvls t =
     (case crossing cn cs lvls t of
        None \<Rightarrow> \<lparr>notional_threshold = t, vwap = None, filled_notional = cn + total_notional lvls\<rparr>
      | Some (n, c, p, s) \<Rightarrow>
          \<lparr>notional_threshold = t, vwap = Some (nearest (exact_vwap n c p s t)),
           filled_notional = t\<rparr>)"

definition volume_spec :: "levels \<Rightarrow> notional \<Rightarrow> volume_band" where
  "volume_spec = volume_spec_from 0 0"

text \<open>The guard in front of the 128-bit scaling, which only a fill inside a level goes through.\<close>

definition scalable_from :: "notional \<Rightarrow> size_t \<Rightarrow> levels \<Rightarrow> notional \<Rightarrow> bool" where
  "scalable_from cn cs lvls t \<longleftrightarrow>
     (case crossing cn cs lvls t of
        None \<Rightarrow> True
      | Some (n, c, p, s) \<Rightarrow> t = n + level_value p s \<or> fits_i128 (t * p * 1000000))"

text \<open>Levels whose averages stay representable: prices half a thousandth below the maximum.\<close>

definition volume_price_limit :: price where
  "volume_price_limit = i64_max - 500000"

definition measurable_levels :: "levels \<Rightarrow> bool" where
  "measurable_levels lvls \<longleftrightarrow>
     all_valid lvls \<and> total_size lvls \<le> i64_max
     \<and> list_all (\<lambda>(p, s). p \<le> volume_price_limit \<and> fits_i64 (level_value p s)) lvls"

section \<open>One average\<close>

lemma round_div_nearest: "0 \<le> n \<Longrightarrow> 0 < d \<Longrightarrow> round_div_nearest_away n d = nearest (of_int n / of_int d)"
proof -
  assume "0 \<le> n" "0 < d"
  have "of_int n / of_int d + 1 / 2 = (of_int (2 * n + d) / of_int (2 * d) :: rat)"
    using \<open>0 < d\<close> by (simp add: field_simps)
  then have "nearest (of_int n / of_int d) = (2 * n + d) div (2 * d)"
    unfolding nearest_def by (simp only: floor_divide_of_int_eq)
  with \<open>0 \<le> n\<close> \<open>0 < d\<close> show ?thesis by (simp add: round_div_nonneg)
qed

lemma exact_vwap_partial:
  assumes "0 < p" "0 \<le> cs" "cn < t" "t \<noteq> cn + level_value p s"
  shows "exact_vwap cn cs p s t =
    of_int (t * p * 1000000) / of_int (cs * p + (t - cn) * 1000000)"
  using assms by (simp add: exact_vwap_def fill_quantity_def field_simps)

lemma exact_vwap_edge:
  "exact_vwap cn cs p s (cn + level_value p s) =
    of_int ((cn + level_value p s) * 1000000) / of_int (cs + s)"
  by (simp add: exact_vwap_def fill_quantity_def)

lemma round_div_le:
  assumes "0 \<le> n" "0 < d" "n \<le> k * d"
  shows "round_div_nearest_away n d \<le> k"
  using round_div_mono_nonneg [OF assms(1,3,2)] assms(2) by simp

lemma scaled_guard:
  "0 \<le> x \<Longrightarrow> fits_i128 (x * 1000000) \<longleftrightarrow> \<not> (x > i128_max sdiv 1000000 \<or> x < - (i128_max sdiv 1000000))"
  by (auto simp: i128_defs)

text \<open>
  What was accumulated from levels priced between \<open>Q\<close> and \<open>P\<close>: rounding each level's notional
  moves the average by at most half a unit of notional per unit of size.
\<close>

definition average_between :: "price \<Rightarrow> price \<Rightarrow> notional \<Rightarrow> size_t \<Rightarrow> bool" where
  "average_between Q P cn cs \<longleftrightarrow>
     0 \<le> cn \<and> 0 \<le> cs \<and> cs * (Q - 500000) \<le> cn * 1000000 \<and> cn * 1000000 \<le> cs * (P + 500000)"

lemma level_average:
  assumes "0 \<le> p" "0 \<le> s" "Q \<le> p" "p \<le> P"
  shows "average_between Q P (level_value p s) s"
proof (cases "s = 0")
  case False
  define n where "n = level_value p s"
  have "0 \<le> p * s" using assms by simp
  then have n: "0 \<le> n" unfolding n_def by (simp add: round_div_nonneg_result)
  have "\<bar>2 * (n * 1000000 - p * s)\<bar> \<le> 1000000" unfolding n_def by (rule round_div_near) simp
  moreover have "1 * 500000 \<le> s * 500000" using False assms(2) by (intro mult_right_mono) auto
  ultimately have near: "n * 1000000 \<le> s * p + s * 500000" "s * p - s * 500000 \<le> n * 1000000"
    by (auto simp: abs_le_iff mult.commute)
  have "s * (Q - 500000) \<le> s * (p - 500000)" "s * (p + 500000) \<le> s * (P + 500000)"
    using assms by (auto intro!: mult_left_mono)
  with near have "s * (Q - 500000) \<le> n * 1000000" "n * 1000000 \<le> s * (P + 500000)"
    by (auto simp: distrib_left right_diff_distrib)
  with n assms(2) show ?thesis by (simp add: average_between_def n_def)
qed (simp add: average_between_def)

lemma average_add:
  "average_between Q P cn cs \<Longrightarrow> average_between Q P n s \<Longrightarrow> average_between Q P (cn + n) (cs + s)"
  by (simp add: average_between_def distrib_right)

lemma round_div_between:
  assumes "0 \<le> n" "0 < d" "l * d \<le> n" "n \<le> k * d"
  shows "l \<le> round_div_nearest_away n d" "round_div_nearest_away n d \<le> k"
proof -
  show "l \<le> round_div_nearest_away n d"
  proof (cases "0 \<le> l")
    case True
    with assms round_div_mono_nonneg [of "l * d" n d] show ?thesis by simp
  next
    case False
    with round_div_nonneg_result [OF assms(1,2)] show ?thesis by simp
  qed
  show "round_div_nearest_away n d \<le> k" using round_div_le assms by blast
qed

lemma partial_average:
  assumes "average_between Q P cn cs" "0 < p" "Q \<le> p" "p \<le> P" "cn < t"
  shows "(Q - 500000) * (cs * p + (t - cn) * 1000000) \<le> t * p * 1000000"
    "t * p * 1000000 \<le> (P + 500000) * (cs * p + (t - cn) * 1000000)"
proof -
  define k where "k = t - cn"
  have k: "0 \<le> k" "t = cn + k" using assms(5) by (auto simp: k_def)
  have a: "cs * (Q - 500000) * p \<le> cn * 1000000 * p" "cn * 1000000 * p \<le> cs * (P + 500000) * p"
    using assms(1,2) by (auto simp: average_between_def intro!: mult_right_mono)
  have "(Q - 500000) * k \<le> p * k" "p * k \<le> (P + 500000) * k"
    using assms(3,4) k by (auto intro!: mult_right_mono)
  with a show "(Q - 500000) * (cs * p + (t - cn) * 1000000) \<le> t * p * 1000000"
    "t * p * 1000000 \<le> (P + 500000) * (cs * p + (t - cn) * 1000000)"
    unfolding k_def [symmetric] k(2) by (simp_all add: algebra_simps)
qed

text \<open>The two ways the code computes an average are one nearest rational, near the prices.\<close>

lemma edge_vwap:
  assumes "average_between Q P cn cs" "0 < p" "0 \<le> s" "Q \<le> p" "p \<le> P" "cn < t"
    "t = cn + level_value p s" "v = round_div_nearest_away (t * 1000000) (cs + s)"
  shows "nearest (exact_vwap cn cs p s t) = v \<and> 0 < cs + s \<and> 0 \<le> v \<and> Q - 500000 \<le> v \<and> v \<le> P + 500000"
proof -
  have avg: "average_between Q P t (cs + s)"
    unfolding assms(7) using assms(1-5) by (intro average_add level_average) auto
  have "s \<noteq> 0" using assms(6,7) by auto
  then have den: "0 < cs + s" using assms(1,3) by (simp add: average_between_def)
  have t: "0 \<le> t * 1000000" using assms(1,6) by (simp add: average_between_def)
  have "nearest (exact_vwap cn cs p s t) = v"
    using t den unfolding assms(7,8) exact_vwap_edge by (simp only: round_div_nearest)
  with den avg show ?thesis
    using round_div_between [OF t den, of "Q - 500000" "P + 500000"] round_div_nonneg_result [OF t den]
    by (simp add: assms(8) average_between_def mult.commute)
qed

lemma partial_vwap:
  assumes "average_between Q P cn cs" "0 < p" "Q \<le> p" "p \<le> P" "cn < t" "t \<noteq> cn + level_value p s"
    "den = cs * p + (t - cn) * 1000000" "v = round_div_nearest_away (t * p * 1000000) den"
  shows "nearest (exact_vwap cn cs p s t) = v \<and> 0 < den \<and> 0 \<le> v \<and> Q - 500000 \<le> v \<and> v \<le> P + 500000"
proof -
  have pos: "0 \<le> cn" "0 \<le> cs" using assms(1) by (auto simp: average_between_def)
  have den: "0 < den" using pos assms(2,5) by (simp add: assms(7) add_nonneg_pos)
  have num: "0 \<le> t * p * 1000000" using pos assms(2,5) by simp
  have "nearest (exact_vwap cn cs p s t) = v"
    unfolding assms(8) exact_vwap_partial [OF assms(2) pos(2) assms(5,6)]
    using round_div_nearest [OF num den] by (simp only: assms(7))
  with den show ?thesis
    using round_div_between [OF num den, of "Q - 500000" "P + 500000"]
      partial_average [OF assms(1-5)] round_div_nonneg_result [OF num den]
    by (simp add: assms(7,8))
qed

lemma crossing_vwap_eq:
  assumes "average_between Q P cn cs" "P + 500000 \<le> i64_max" "0 < p" "0 \<le> s" "Q \<le> p" "p \<le> P"
    "cn < t" "t \<le> cn + level_value p s" "fits_i64 (cn + level_value p s)" "cs + s \<le> i64_max"
  shows "crossing_vwap cn cs p s (level_value p s) t =
      (if t = cn + level_value p s \<or> fits_i128 (t * p * 1000000)
       then Inr (nearest (exact_vwap cn cs p s t)) else Inl result_out_of_range)"
proof -
  have pos: "0 \<le> cn" "0 \<le> cs" using assms(1) by (auto simp: average_between_def)
  have rem: "fp_sub t cn = t - cn"
    using pos assms(7,8,9) by (intro fp_sub_fits) (auto simp: i64_defs)
  have range: "wrap64 x = x" if "0 \<le> x" "x \<le> P + 500000" for x
    using that assms(2) by (intro wrap64_id) (auto simp: i64_defs)
  show ?thesis
  proof (cases "t = cn + level_value p s")
    case True
    have sums: "fp_add cn (level_value p s) = t" "fp_add cs s = cs + s"
      using assms(4,7,9,10) pos True fp_add_fits by (auto simp: i64_defs)
    have "t - cn = level_value p s" using True by simp
    with edge_vwap [OF assms(1,3-7) True refl] range show ?thesis
      by (simp add: crossing_vwap_def rem sums notional_div_size_eq True [symmetric])
  next
    case False
    then have "t - cn \<noteq> level_value p s" by simp
    moreover have "0 \<le> t * p" using pos assms(3,7) by simp
    ultimately show ?thesis
      using partial_vwap [OF assms(1,3,5-7) False refl refl] range False assms(3)
        scaled_guard [of "t * p"]
      by (simp add: crossing_vwap_def rem vwap_at_partial_fill_def Let_def from_raw_checked_def)
  qed
qed

section \<open>The single pass\<close>

lemma fill_bands_eq:
  assumes "\<And>t. t \<in> set ts \<Longrightarrow> t \<le> cn' \<Longrightarrow>
    crossing_vwap cn cs p s n t = (if ok t then Inr (v t) else Inl result_out_of_range)"
  shows "fill_bands cn cs p s n cn' ts =
    (if \<forall>t \<in> set (takeWhile (\<lambda>t. t \<le> cn') ts). ok t
     then Inr (map (\<lambda>t. \<lparr>notional_threshold = t, vwap = Some (v t), filled_notional = t\<rparr>)
                 (takeWhile (\<lambda>t. t \<le> cn') ts),
               dropWhile (\<lambda>t. t \<le> cn') ts)
     else Inl result_out_of_range)"
  using assms
proof (induction ts)
  case (Cons t ts)
  then show ?case by (cases "t \<le> cn'"; cases "ok t") auto
qed simp

lemma sorted_left_beyond:
  "sorted ts \<Longrightarrow> t \<in> set (dropWhile (\<lambda>t. t \<le> cn') ts) \<Longrightarrow> cn' < t" for t :: int
  by (induction ts) (auto split: if_splits)

abbreviation crossed_band :: "notional \<Rightarrow> size_t \<Rightarrow> price \<Rightarrow> size_t \<Rightarrow> notional \<Rightarrow> volume_band" where
  "crossed_band cn cs p s t \<equiv>
     \<lparr>notional_threshold = t, vwap = Some (nearest (exact_vwap cn cs p s t)), filled_notional = t\<rparr>"

lemma spec_crossed_here:
  assumes "t \<le> cn + level_value p s"
  shows "volume_spec_from cn cs ((p, s) # rest) t = crossed_band cn cs p s t"
    "scalable_from cn cs ((p, s) # rest) t \<longleftrightarrow>
      t = cn + level_value p s \<or> fits_i128 (t * p * 1000000)"
  using assms by (simp_all add: volume_spec_from_def scalable_from_def)

lemma spec_crossed_later:
  assumes "cn + level_value p s < t"
  shows "volume_spec_from cn cs ((p, s) # rest) t =
      volume_spec_from (cn + level_value p s) (cs + s) rest t"
    "scalable_from cn cs ((p, s) # rest) t \<longleftrightarrow>
      scalable_from (cn + level_value p s) (cs + s) rest t"
  using assms by (simp_all add: volume_spec_from_def scalable_from_def split: option.split)

text \<open>The thresholds a level crosses, and those it leaves to the levels behind it.\<close>

lemma spec_split:
  assumes "\<And>t. t \<in> set out \<Longrightarrow> t \<le> cn + level_value p s" "\<And>t. t \<in> set left \<Longrightarrow> cn + level_value p s < t"
  shows "(\<forall>t \<in> set (out @ left). scalable_from cn cs ((p, s) # rest) t) \<longleftrightarrow>
      (\<forall>t \<in> set out. t = cn + level_value p s \<or> fits_i128 (t * p * 1000000))
      \<and> (\<forall>t \<in> set left. scalable_from (cn + level_value p s) (cs + s) rest t)"
    and "map (volume_spec_from cn cs ((p, s) # rest)) (out @ left) =
      map (crossed_band cn cs p s) out @ map (volume_spec_from (cn + level_value p s) (cs + s) rest) left"
  using assms by (simp_all add: ball_Un spec_crossed_here spec_crossed_later cong: ball_cong)

lemma level_adds:
  assumes "0 < p" "0 \<le> s" "p \<le> volume_price_limit" "average_between 0 volume_price_limit cn cs"
    "cs + (s + total_size rest) \<le> i64_max" "all_valid rest"
  shows "average_between 0 volume_price_limit (cn + level_value p s) (cs + s)"
    and "cs + s \<le> i64_max" "fp_add cs s = cs + s"
proof -
  show avg: "average_between 0 volume_price_limit (cn + level_value p s) (cs + s)"
    using assms(1-4) by (intro average_add level_average) auto
  show "cs + s \<le> i64_max" "fp_add cs s = cs + s"
    using assms(2,4,5) total_nonneg(1) [OF assms(6)] avg
    by (auto simp: i64_defs average_between_def intro!: fp_add_fits)
qed

lemma walk_volume_eq:
  assumes "all_valid lvls" "average_between 0 volume_price_limit cn cs" "cs + total_size lvls \<le> i64_max"
    "\<forall>(p, s) \<in> set lvls. p \<le> volume_price_limit \<and> fits_i64 (level_value p s)"
    "sorted ts" "\<forall>t \<in> set ts. cn < t" "fits_i64 cn"
  shows "walk_volume cn cs ts lvls =
    (if fits_i64 (cn + total_notional lvls) \<and> (\<forall>t \<in> set ts. scalable_from cn cs lvls t)
     then Inr (map (volume_spec_from cn cs lvls) ts) else Inl result_out_of_range)"
  using assms
proof (induction lvls arbitrary: cn cs ts)
  case Nil
  then show ?case by (simp add: volume_spec_from_def scalable_from_def)
next
  case (Cons x rest)
  obtain p s where x: "x = (p, s)" by force
  define n where "n = level_value p s"
  define out where "out = takeWhile (\<lambda>t. t \<le> cn + n) ts"
  define left where "left = dropWhile (\<lambda>t. t \<le> cn + n) ts"
  have valid: "is_valid_level p s" "0 < p" "0 \<le> s" "all_valid rest" "p \<le> volume_price_limit"
    using Cons.prems(1,4) x by (auto simp: all_valid_def is_valid_level_def)
  have n: "price_times_size p s = n" using Cons.prems(4) x by (simp add: n_def price_times_size_fits)
  have "cs + (s + total_size rest) \<le> i64_max" using Cons.prems(3) x by simp
  note adds = level_adds [OF valid(2,3,5) Cons.prems(2) this valid(4), folded n_def]
  have ts: "ts = out @ left" by (simp add: out_def left_def)
  have left: "cn + n < t" if "t \<in> set left" for t
    using that sorted_left_beyond [OF Cons.prems(5)] unfolding left_def by blast
  have out: "t \<le> cn + n" if "t \<in> set out" for t
    using that unfolding out_def by (auto dest: set_takeWhileD)
  show ?case
  proof (cases "fits_i64 (cn + n)")
    case False
    then have "\<not> fits_i64 (cn + total_notional (x # rest))"
      using Cons.prems(7) adds(1) total_nonneg(2) [OF valid(4)] x
      by (auto simp: i64_defs n_def average_between_def)
    with False valid(1) show ?thesis by (simp add: x n from_raw_safe_Inl [THEN iffD2])
  next
    case True
    have fill: "fill_bands cn cs p s n (cn + n) ts =
        (if \<forall>t \<in> set out. t = cn + n \<or> fits_i128 (t * p * 1000000)
         then Inr (map (crossed_band cn cs p s) out, left)
         else Inl result_out_of_range)"
      unfolding out_def left_def n_def
      using Cons.prems(2,6) valid adds(2) True
      by (intro fill_bands_eq crossing_vwap_eq)
        (auto simp: n_def volume_price_limit_def)
    have IH: "walk_volume (cn + n) (cs + s) left rest =
        (if fits_i64 (cn + n + total_notional rest)
            \<and> (\<forall>t \<in> set left. scalable_from (cn + n) (cs + s) rest t)
         then Inr (map (volume_spec_from (cn + n) (cs + s) rest) left) else Inl result_out_of_range)"
      using Cons.prems(3-5) valid adds(1) left True x
      by (intro Cons.IH) (auto simp: sorted_dropWhile left_def add.assoc)
    note split = spec_split [of out cn p s left, folded n_def, OF out left]
    have scal: "(\<forall>t \<in> set ts. scalable_from cn cs (x # rest) t) \<longleftrightarrow>
        (\<forall>t \<in> set out. t = cn + n \<or> fits_i128 (t * p * 1000000))
        \<and> (\<forall>t \<in> set left. scalable_from (cn + n) (cs + s) rest t)"
      using split(1) [where cs = cs and rest = rest] by (simp only: ts x)
    have spec: "map (volume_spec_from cn cs (x # rest)) ts =
        map (crossed_band cn cs p s) out @ map (volume_spec_from (cn + n) (cs + s) rest) left"
      using split(2) [where cs = cs and rest = rest] by (simp only: ts x)
    show ?thesis
      unfolding spec scal using valid(1) True
      by (simp add: x n Let_def fill IH adds(3) n_def [symmetric] add.assoc)
  qed
qed

lemma volume_band_prices_eq:
  assumes "measurable_levels lvls" "volume_thresholds_valid ts"
  shows "volume_band_prices lvls ts =
    (if fits_i64 (total_notional lvls) \<and> (\<forall>t \<in> set ts. scalable_from 0 0 lvls t)
     then Inr (map (volume_spec lvls) ts) else Inl result_out_of_range)"
  using assms walk_volume_eq [of lvls 0 0 ts]
  by (auto simp: volume_band_prices_def measurable_levels_def volume_thresholds_valid_def
      volume_spec_def list_all_iff average_between_def i64_defs)

lemma crossing_None:
  assumes "all_valid lvls" "cn < t"
  shows "crossing cn cs lvls t = None \<longleftrightarrow> cn + total_notional lvls < t"
  using assms
proof (induction lvls arbitrary: cn cs)
  case (Cons x rest)
  obtain p s where x: "x = (p, s)" by force
  have "all_valid rest" using Cons.prems(1) by (simp add: all_valid_def)
  with Cons total_nonneg(2) [of rest] show ?case by (auto simp: x add.assoc)
qed simp

lemma crossing_Some:
  assumes "crossing cn cs lvls t = Some (n, c, p, s)" "all_valid lvls" "cn < t"
    "\<forall>(p, s) \<in> set lvls. Q \<le> p \<and> p \<le> P" "average_between Q P cn cs"
  shows "average_between Q P n c \<and> n < t \<and> t \<le> n + level_value p s \<and> 0 < p \<and> 0 \<le> s \<and> Q \<le> p \<and> p \<le> P"
  using assms
proof (induction lvls arbitrary: cn cs)
  case (Cons x rest)
  obtain p' s' where x: "x = (p', s')" by force
  have valid: "0 < p'" "0 \<le> s'" "all_valid rest" "Q \<le> p'" "p' \<le> P"
    using Cons.prems(2,4) x by (auto simp: all_valid_def is_valid_level_def)
  show ?case
  proof (cases "t \<le> cn + level_value p' s'")
    case True
    with Cons.prems x valid show ?thesis by auto
  next
    case False
    moreover have "average_between Q P (cn + level_value p' s') (cs + s')"
      using Cons.prems(5) valid by (intro average_add level_average) auto
    ultimately show ?thesis using Cons.prems(1,4) x valid by (intro Cons.IH) auto
  qed
qed simp

section \<open>What the bands report\<close>

text \<open>
  C10. The single pass computes the specification: for every ascending list of positive thresholds,
  \<^verbatim>\<open>volume_band_prices\<close> reports for each one the exact volume-weighted average price of
  filling it from the best level on, rounded once to the nearest representable price, or that the
  side does not hold it and how much it does hold. It fails only when the notional of the whole side
  is not representable, or the guard of the 128-bit scaling refuses a fill inside a level, which
  it does exactly when the scaled product would not fit \<^verbatim>\<open>__int128\<close>.
\<close>

theorem volume_band_prices_correct:
  assumes "measurable_levels lvls"
  shows "volume_band_prices lvls ts =
    (if \<not> volume_thresholds_valid ts then Inl invalid_argument
     else if fits_i64 (total_notional lvls) \<and> (\<forall>t \<in> set ts. scalable_from 0 0 lvls t)
     then Inr (map (volume_spec lvls) ts)
     else Inl result_out_of_range)"
  using volume_band_prices_eq [OF assms, of ts] by (simp add: volume_band_prices_def)

definition sample_levels :: levels where
  "sample_levels = [(100000000000, 2000000), (100500000000, 3000000), (101000000000, 500000)]"

lemma sample_levels_measurable: "measurable_levels sample_levels"
  by (simp add: measurable_levels_def sample_levels_def all_valid_def is_valid_level_def i64_defs
      round_div_nonneg volume_price_limit_def)

theorem volume_band_prices_correct_witness:
  "measurable_levels sample_levels
   \<and> volume_band_prices sample_levels [100000000000, 501500000000, 900000000000] =
       Inr [\<lparr>notional_threshold = 100000000000, vwap = Some 100000000000,
             filled_notional = 100000000000\<rparr>,
            \<lparr>notional_threshold = 501500000000, vwap = Some 100300000000,
             filled_notional = 501500000000\<rparr>,
            \<lparr>notional_threshold = 900000000000, vwap = None, filled_notional = 552000000000\<rparr>]"
  using volume_band_prices_correct [OF sample_levels_measurable,
      of "[100000000000, 501500000000, 900000000000]"]
  by (simp add: sample_levels_measurable volume_thresholds_valid_def)
    (simp add: sample_levels_def scalable_from_def volume_spec_def volume_spec_from_def
      round_div_nonneg i64_defs i128_defs nearest_def exact_vwap_def fill_quantity_def floor_eq_iff)

text \<open>
  One average, for any in-range accumulation: no intermediate of \<^verbatim>\<open>vwap_at_partial_fill\<close>
  overflows \<^verbatim>\<open>__int128\<close> (the product before the guard, the scaled numerator after it, the
  denominator); the denominator is positive, so the last check never fires; and the result is the
  exact quotient to within half a unit of price, narrowed to \<^verbatim>\<open>raw_type\<close>.
\<close>

lemma vwap_at_partial_fill_no_overflow:
  assumes "fits_i64 cn" "0 \<le> cn" "fits_i64 cs" "0 \<le> cs" "fits_i64 k" "0 < k" "fits_i64 p" "0 < p"
  defines "num \<equiv> (cn + k) * p * 1000000" and "den \<equiv> cs * p + k * 1000000"
  shows "fits_i128 ((cn + k) * p) \<and> fits_i128 den \<and> 0 < den
    \<and> (fits_i128 num \<longrightarrow>
        vwap_at_partial_fill cn cs k p = Inr (wrap64 (round_div_nearest_away num den))
        \<and> \<bar>2 * (round_div_nearest_away num den * den - num)\<bar> \<le> den)
    \<and> (\<not> fits_i128 num \<longrightarrow> vwap_at_partial_fill cn cs k p = Inl result_out_of_range)"
proof -
  have den: "0 < den" using assms(4,6,8) by (simp add: den_def add_nonneg_pos)
  have "(cn + k) * p \<le> 18446744073709551614 * 9223372036854775807"
    using assms(1-8) by (intro mult_mono) (auto simp: i64_defs)
  moreover have "cs * p \<le> 9223372036854775807 * 9223372036854775807"
    using assms(1-8) by (intro mult_mono) (auto simp: i64_defs)
  moreover have "k * 1000000 \<le> 9223372036854775807000000" using assms(5) by (simp add: i64_defs)
  moreover have prod: "0 \<le> (cn + k) * p" using assms by simp
  ultimately have "fits_i128 ((cn + k) * p)" "fits_i128 den"
    using den by (auto simp: i128_defs den_def)
  with den prod round_div_near [OF den, of num] scaled_guard [OF prod] show ?thesis
    using assms(8)
    by (auto simp: vwap_at_partial_fill_def Let_def num_def den_def from_raw_checked_def)
qed

text \<open>
  Whatever it returns is consistent: one band per threshold, in order; a band is filled to its
  threshold or to the whole notional of the side, whichever is less; the average is absent exactly
  when the side holds less than the threshold; and a reported average lies between the lowest and
  the highest price of the side, to within the half thousandth (0.0005) that the rounding of the
  levels' notionals can cost.
\<close>

lemma volume_bands_are_consistent:
  assumes "measurable_levels lvls" "volume_band_prices lvls ts = Inr bands"
    "\<forall>(p, s) \<in> set lvls. Q \<le> p \<and> p \<le> P"
  shows "map notional_threshold bands = ts
    \<and> (\<forall>band \<in> set bands.
         filled_notional band = min (notional_threshold band) (total_notional lvls)
         \<and> (vwap band = None \<longleftrightarrow> total_notional lvls < notional_threshold band)
         \<and> (\<forall>v. vwap band = Some v \<longrightarrow> Q - 500000 \<le> v \<and> v \<le> P + 500000))"
proof -
  have valid: "volume_thresholds_valid ts" "all_valid lvls"
    using assms(1,2) by (auto simp: volume_band_prices_def measurable_levels_def split: if_splits)
  have bands: "bands = map (volume_spec lvls) ts"
    using assms(2) volume_band_prices_eq [OF assms(1) valid(1)] by (auto split: if_splits)
  have one: "notional_threshold (volume_spec lvls t) = t
      \<and> filled_notional (volume_spec lvls t) = min t (total_notional lvls)
      \<and> (vwap (volume_spec lvls t) = None \<longleftrightarrow> total_notional lvls < t)
      \<and> (\<forall>v. vwap (volume_spec lvls t) = Some v \<longrightarrow> Q - 500000 \<le> v \<and> v \<le> P + 500000)"
    if "0 < t" for t
  proof (cases "crossing 0 0 lvls t")
    case None
    with crossing_None [OF valid(2) that, of 0] show ?thesis
      by (auto simp: volume_spec_def volume_spec_from_def)
  next
    case (Some r)
    obtain n c p s where r: "r = (n, c, p, s)" by (cases r)
    have "\<not> total_notional lvls < t" using crossing_None [OF valid(2) that, of 0] Some by auto
    moreover have cr: "average_between Q P n c" "n < t" "0 < p" "0 \<le> s" "Q \<le> p" "p \<le> P"
      using crossing_Some [OF _ valid(2) that assms(3), of 0 n c p s] Some r
      by (auto simp: average_between_def)
    have "Q - 500000 \<le> nearest (exact_vwap n c p s t) \<and> nearest (exact_vwap n c p s t) \<le> P + 500000"
      using edge_vwap [OF cr(1,3-6,2) _ refl] partial_vwap [OF cr(1,3,5,6,2) _ refl refl]
      by (cases "t = n + level_value p s") auto
    ultimately show ?thesis by (simp add: volume_spec_def volume_spec_from_def Some r)
  qed
  have "0 < t" if "t \<in> set ts" for t
    using that valid(1) by (auto simp: volume_thresholds_valid_def list_all_iff)
  with one show ?thesis by (auto simp: bands map_idI)
qed

end
