(* ===== verification/Band_Config.thy ===== *)
theory Band_Config
  imports Double_Format Volume_Bands
begin

text \<open>
  \<^verbatim>\<open>apps/aggregator/band_config.hpp\<close>: the thresholds of the bands, their labels, and the flags
  that override them. The theorem is that a list these parsers accept is one the band functions
  accept, for both sides of the book.
\<close>

section \<open>The code: labels\<close>

text \<open>\<^verbatim>\<open>text.find_last_not_of(c)\<close>, \<open>None\<close> for \<^verbatim>\<open>npos\<close>.\<close>

definition find_last_not_of :: "char \<Rightarrow> string \<Rightarrow> nat option" where
  "find_last_not_of c s =
     (let rest = dropWhile (\<lambda>x. x = c) (rev s)
      in if rest = [] then None else Some (length rest - 1))"

text \<open>
  The result has \<^verbatim>\<open>last_significant + 1\<close> characters, one less when that is the dot; the text
  has a dot, so the search does not fail.
\<close>

definition trim_trailing_zeros :: "string \<Rightarrow> string" where
  "trim_trailing_zeros decimal =
     (case find_char CHR ''.'' decimal 0 of
        None \<Rightarrow> decimal
      | Some dot \<Rightarrow>
          (case find_last_not_of CHR ''0'' decimal of
             None \<Rightarrow> decimal
           | Some last_significant \<Rightarrow>
               take (if last_significant = dot then last_significant else last_significant + 1) decimal))"

definition format_notional_label :: "notional \<Rightarrow> string" where
  "format_notional_label r =
     (if r smod scale notional_decimals \<noteq> 0 then trim_trailing_zeros (format_fixed notional_decimals r)
      else
        let units = r sdiv scale notional_decimals
        in if units \<noteq> 0 \<and> units smod 1000000000 = 0 then to_string (units sdiv 1000000000) @ ''B''
           else if units \<noteq> 0 \<and> units smod 1000000 = 0 then to_string (units sdiv 1000000) @ ''M''
           else if units \<noteq> 0 \<and> units smod 1000 = 0 then to_string (units sdiv 1000) @ ''K''
           else to_string units)"

definition format_bps_label :: "int \<Rightarrow> string" where
  "format_bps_label bps = to_string bps @ ''bps''"

fun build_labels :: "'a list \<Rightarrow> ('a \<Rightarrow> string) \<Rightarrow> string list" where
  "build_labels [] label_fn = []"
| "build_labels (t # rest) label_fn =
     (label_fn t @ (if rest = [] then ''+'' else [])) # build_labels rest label_fn"

section \<open>The code: lists of thresholds\<close>

text \<open>The loop of \<^verbatim>\<open>split_csv\<close> from the position \<^verbatim>\<open>start\<close> on.\<close>

function split_csv_from :: "string \<Rightarrow> nat \<Rightarrow> string list" where
  "split_csv_from csv start =
     (case find_char CHR '','' csv start of
        None \<Rightarrow> [drop start csv]
      | Some comma \<Rightarrow> take (comma - start) (drop start csv) # split_csv_from csv (comma + 1))"
  by pat_completeness auto

lemma find_char_bound: "find_char c s start = Some n \<Longrightarrow> start \<le> n \<and> n < length s"
  using find_char_from_Some [of c start "drop start s" n] by (auto simp: find_char_def)

termination split_csv_from
  by (relation "measure (\<lambda>(csv, start). Suc (length csv) - start)") (auto dest: find_char_bound)

declare split_csv_from.simps [simp del]

definition split_csv :: "string \<Rightarrow> string list" where
  "split_csv csv = split_csv_from csv 0"

fun adjacent_not_less :: "'a::linorder list \<Rightarrow> bool" where
  "adjacent_not_less (x # y # rest) \<longleftrightarrow> x \<ge> y \<or> adjacent_not_less (y # rest)"
| "adjacent_not_less _ \<longleftrightarrow> False"

fun parse_tokens :: "(string \<Rightarrow> 'a option) \<Rightarrow> string list \<Rightarrow> 'a list option" where
  "parse_tokens parse_token [] = Some []"
| "parse_tokens parse_token (token # rest) =
     (if token = [] then None
      else case parse_token token of
          None \<Rightarrow> None
        | Some v \<Rightarrow>
            (case parse_tokens parse_token rest of None \<Rightarrow> None | Some vs \<Rightarrow> Some (v # vs)))"

definition parse_ascending_list ::
  "string \<Rightarrow> (string \<Rightarrow> 'a::linorder option) \<Rightarrow> ('a \<Rightarrow> bool) \<Rightarrow> 'a list option" where
  "parse_ascending_list csv parse_token extra_valid =
     (case parse_tokens parse_token (split_csv csv) of
        None \<Rightarrow> None
      | Some result \<Rightarrow>
          if result = [] then None
          else if adjacent_not_less result then None
          else if \<not> list_all extra_valid result then None
          else Some result)"

definition parse_volume_thresholds :: "string \<Rightarrow> notional list option" where
  "parse_volume_thresholds csv =
     parse_ascending_list csv
       (\<lambda>token. if find_char CHR ''.'' token 0 \<noteq> None then None
                else case from_decimal_string notional_decimals token of Inl e \<Rightarrow> None | Inr v \<Rightarrow> Some v)
       (\<lambda>n. n > 0)"

text \<open>
  \<^verbatim>\<open>std::from_chars\<close> for an \<^verbatim>\<open>int\<close>: an optional minus sign and the longest run of digits, with
  what is left; \<open>None\<close> when there is no digit or the value does not fit.
\<close>

definition from_chars :: "string \<Rightarrow> (int \<times> string) option" where
  "from_chars s =
     (let (negative, rest) = strip_sign s; digits = takeWhile is_digit rest;
          v = apply_sign negative (digits_value digits)
      in if digits = [] \<or> v < - 2147483648 \<or> v > 2147483647 then None
         else Some (v, dropWhile is_digit rest))"

definition parse_price_bps :: "string \<Rightarrow> int list option" where
  "parse_price_bps csv =
     parse_ascending_list csv
       (\<lambda>token. case from_chars token of
          None \<Rightarrow> None
        | Some (v, rest) \<Rightarrow> if rest \<noteq> [] then None else Some v)
       (\<lambda>bps. bps \<ge> 0 \<and> bps < kBpsDenominator)"

section \<open>The code: flags\<close>

record cli_flags =
  volume_thresholds_csv :: "string option"
  price_bps_csv :: "string option"

definition kVolumeFlag :: string where "kVolumeFlag = ''--volume-thresholds=''"

definition kPriceFlag :: string where "kPriceFlag = ''--price-bps=''"

text \<open>The loop over the arguments: the flags so far, and the arguments kept.\<close>

fun extract_flags_from :: "cli_flags \<Rightarrow> string list \<Rightarrow> string + (cli_flags \<times> string list)" where
  "extract_flags_from flags [] = Inr (flags, [])"
| "extract_flags_from flags (arg # rest) =
     (if starts_with arg kVolumeFlag then
        (if volume_thresholds_csv flags \<noteq> None then Inl ''--volume-thresholds= given more than once''
         else extract_flags_from (flags\<lparr>volume_thresholds_csv := Some (drop (length kVolumeFlag) arg)\<rparr>) rest)
      else if starts_with arg kPriceFlag then
        (if price_bps_csv flags \<noteq> None then Inl ''--price-bps= given more than once''
         else extract_flags_from (flags\<lparr>price_bps_csv := Some (drop (length kPriceFlag) arg)\<rparr>) rest)
      else case extract_flags_from flags rest of
          Inl e \<Rightarrow> Inl e
        | Inr (flags', args) \<Rightarrow> Inr (flags', arg # args))"

definition extract_flags :: "string list \<Rightarrow> string + (cli_flags \<times> string list)" where
  "extract_flags args =
     extract_flags_from \<lparr>volume_thresholds_csv = None, price_bps_csv = None\<rparr> args"

section \<open>The code: defaults\<close>

definition kDefaultVolumeBandThresholds :: "notional list" where
  "kDefaultVolumeBandThresholds =
     map (from_double notional_decimals) [1000000, 5000000, 10000000, 25000000, 50000000]"

definition kDefaultPriceBandBps :: "int list" where
  "kDefaultPriceBandBps = [50, 100, 200, 500, 1000]"

record band_config =
  volume_thresholds :: "notional list"
  volume_labels :: "string list"
  price_bps :: "int list"
  price_labels :: "string list"

section \<open>Splitting\<close>

text \<open>Tokens joined by commas.\<close>

fun join_csv :: "string list \<Rightarrow> string" where
  "join_csv [] = []"
| "join_csv [token] = token"
| "join_csv (token # rest) = token @ CHR '','' # join_csv rest"

lemma find_char_split:
  assumes "find_char c s start = Some n"
  shows "drop start s = take (n - start) (drop start s) @ c # drop (n + 1) s"
    "c \<notin> set (take (n - start) (drop start s))"
proof -
  have f: "start \<le> n" "n - start < length (drop start s)" "drop start s ! (n - start) = c"
    "c \<notin> set (take (n - start) (drop start s))"
    using find_char_from_Some [of c start "drop start s" n] assms by (auto simp: find_char_def)
  then show "c \<notin> set (take (n - start) (drop start s))" by simp
  have "drop start s = take (n - start) (drop start s) @ c # drop (Suc (n - start)) (drop start s)"
    using id_take_nth_drop [OF f(2)] f(3) by simp
  moreover have "drop (Suc (n - start)) (drop start s) = drop (n + 1) s" using f(1) by simp
  ultimately show "drop start s = take (n - start) (drop start s) @ c # drop (n + 1) s" by simp
qed

lemma split_csv_from_correct:
  "start \<le> length csv \<Longrightarrow>
   join_csv (split_csv_from csv start) = drop start csv \<and> split_csv_from csv start \<noteq> []
   \<and> (\<forall>token \<in> set (split_csv_from csv start). CHR '','' \<notin> set token)"
proof (induction csv start rule: split_csv_from.induct)
  case (1 csv start)
  show ?case
  proof (cases "find_char CHR '','' csv start")
    case None
    moreover have "CHR '','' \<notin> set (drop start csv)" using None by (simp add: find_char_None)
    ultimately show ?thesis by (simp add: split_csv_from.simps [of csv start])
  next
    case (Some comma)
    note IH = 1(1) [OF Some]
    have "comma + 1 \<le> length csv" using find_char_bound [OF Some] by simp
    note IH = IH [OF this]
    then obtain t ts where ts: "split_csv_from csv (comma + 1) = t # ts" by (cases "split_csv_from csv (comma + 1)") auto
    with IH Some find_char_split [OF Some] show ?thesis
      by (simp add: split_csv_from.simps [of csv start])
  qed
qed

lemma join_csv_inj:
  "join_csv xs = join_csv ys \<Longrightarrow> xs \<noteq> [] \<Longrightarrow> ys \<noteq> [] \<Longrightarrow>
   \<forall>t \<in> set xs. CHR '','' \<notin> set t \<Longrightarrow> \<forall>t \<in> set ys. CHR '','' \<notin> set t \<Longrightarrow> xs = ys"
proof (induction xs arbitrary: ys rule: join_csv.induct)
  case (2 token)
  then show ?case by (cases ys rule: join_csv.cases) auto
next
  case (3 token t rest)
  then obtain u v us where ys: "ys = u # v # us" by (cases ys rule: join_csv.cases) auto
  with 3(2) have eq: "token @ CHR '','' # join_csv (t # rest) = u @ CHR '','' # join_csv (v # us)" by simp
  have "token = u \<and> join_csv (t # rest) = join_csv (v # us)"
    using eq 3(5,6) ys by (simp add: append_sep_eq)
  with 3 ys show ?case by simp
qed simp

text \<open>The tokens are exactly what lies between the commas.\<close>

lemma split_csv_join: "tokens \<noteq> [] \<Longrightarrow> \<forall>t \<in> set tokens. CHR '','' \<notin> set t \<Longrightarrow> split_csv (join_csv tokens) = tokens"
  using split_csv_from_correct [of 0 "join_csv tokens"]
  by (intro join_csv_inj) (auto simp: split_csv_def)

section \<open>Accepted lists\<close>

lemma adjacent_not_less_sorted: "\<not> adjacent_not_less xs \<longleftrightarrow> sorted_wrt (<) xs"
proof (induction xs rule: adjacent_not_less.induct)
  case (1 x y rest)
  then show ?case by (auto simp: not_le intro: less_trans)
qed simp_all

lemma parse_tokens_Some:
  "parse_tokens p tokens = Some vs \<longleftrightarrow> [] \<notin> set tokens \<and> map p tokens = map Some vs"
proof (induction tokens arbitrary: vs)
  case (Cons token rest)
  show ?case using Cons.IH [of "tl vs"] by (cases vs; cases "parse_tokens p rest") (auto split: option.splits)
qed auto

lemma parse_ascending_list_Some:
  "parse_ascending_list csv p valid = Some vs \<longleftrightarrow>
     [] \<notin> set (split_csv csv) \<and> map p (split_csv csv) = map Some vs \<and> sorted_wrt (<) vs \<and> list_all valid vs"
proof -
  have "split_csv csv \<noteq> []" using split_csv_from_correct [of 0 csv] by (simp add: split_csv_def)
  then have ne: "map p (split_csv csv) = map Some vs \<Longrightarrow> vs \<noteq> []" for vs by auto
  show ?thesis
    using ne [of vs] parse_tokens_Some [of p "split_csv csv" vs]
    by (auto simp: parse_ascending_list_def adjacent_not_less_sorted [symmetric]
        split: option.splits if_splits)
qed

lemma map_eq_map_Some:
  assumes "\<And>t v. t \<in> set ts \<Longrightarrow> v \<in> set vs \<Longrightarrow> p t = Some v \<longleftrightarrow> ok t \<and> v = value t"
  shows "map p ts = map Some vs \<longleftrightarrow> list_all ok ts \<and> vs = map value ts"
  using assms
proof (induction ts arbitrary: vs)
  case (Cons t ts)
  then show ?case by (cases vs) auto
qed auto

text \<open>A token of digits only.\<close>

definition numeral_token :: "string \<Rightarrow> bool" where
  "numeral_token t \<longleftrightarrow> t \<noteq> [] \<and> list_all is_digit t"

lemma numeral_token_shape: "numeral_token t \<Longrightarrow> decimal_shape t False [] \<and> decimal_text False t False [] = t"
  by (simp add: numeral_token_def decimal_shape_def decimal_text_def)

lemma decimal_magnitude_integer: "decimal_magnitude d ip [] = digits_value ip * 10 ^ d"
proof -
  have "digits_value [] = 0" by (simp add: digits_value_def)
  then show ?thesis using round_div_exact [of 1 "digits_value ip * 10 ^ d"] by (simp add: decimal_magnitude_def)
qed

lemma is_digit_not_dot: "list_all is_digit t \<Longrightarrow> CHR ''.'' \<notin> set t \<and> CHR ''-'' \<notin> set t"
  by (auto simp: list_all_iff is_digit_def)

lemma digits_value_nonneg: "list_all is_digit t \<Longrightarrow> 0 \<le> digits_value t"
  using digits_value_bounds [of t] by simp

lemma volume_token:
  assumes "0 < v"
  shows "(if find_char CHR ''.'' t 0 \<noteq> None then None
      else case from_decimal_string d t of Inl e \<Rightarrow> None | Inr x \<Rightarrow> Some x) = Some v
    \<longleftrightarrow> (numeral_token t \<and> digits_value t * 10 ^ d \<le> i64_max) \<and> v = digits_value t * 10 ^ d"
    (is "?parse = Some v \<longleftrightarrow> ?ok \<and> v = ?value")
proof
  assume l: "?parse = Some v"
  then have dot: "CHR ''.'' \<notin> set t" and v: "from_decimal_string d t = Inr v"
    by (auto simp: find_char_None split: if_splits sum.splits)
  obtain negative ip dt fp where parts: "t = decimal_text negative ip dt fp" "decimal_shape ip dt fp"
    "decimal_magnitude d ip fp \<le> i64_max" "v = apply_sign negative (decimal_magnitude d ip fp)"
    using from_decimal_string_Inr [OF v] by blast
  then have "\<not> dt" "fp = []" using dot by (auto simp: decimal_text_def decimal_shape_def)
  moreover have "0 \<le> decimal_magnitude d ip []"
    using parts(2) digits_value_nonneg [of ip] by (simp add: decimal_magnitude_integer decimal_shape_def)
  ultimately have "\<not> negative" using parts(4) assms by (auto simp: apply_sign_def)
  with parts \<open>\<not> dt\<close> \<open>fp = []\<close> show "?ok \<and> v = ?value"
    by (simp add: decimal_text_def decimal_shape_def numeral_token_def decimal_magnitude_integer apply_sign_def)
next
  assume r: "?ok \<and> v = ?value"
  then have "decimal_shape t False []" "decimal_text False t False [] = t" "CHR ''.'' \<notin> set t"
    using numeral_token_shape is_digit_not_dot by (auto simp: numeral_token_def)
  with from_decimal_string_eval [of t False "[]" d False] r show "?parse = Some v"
    by (simp add: decimal_magnitude_integer apply_sign_def find_char_None)
qed

text \<open>A token of \<^verbatim>\<open>--price-bps=\<close>: digits, after an optional minus sign.\<close>

definition signed_token :: "string \<Rightarrow> bool" where
  "signed_token t \<longleftrightarrow> numeral_token (snd (strip_sign t))"

definition token_value :: "string \<Rightarrow> int" where
  "token_value t = apply_sign (fst (strip_sign t)) (digits_value (snd (strip_sign t)))"

lemma bps_token:
  assumes "0 \<le> v" "v < 10000"
  shows "(case from_chars t of None \<Rightarrow> None | Some (v, rest) \<Rightarrow> if rest \<noteq> [] then None else Some v) = Some v
    \<longleftrightarrow> signed_token t \<and> v = token_value t"
proof -
  obtain negative rest where sr: "strip_sign t = (negative, rest)" by force
  show ?thesis
  proof (cases "list_all is_digit rest")
    case True
    then have runs: "takeWhile is_digit rest = rest" "dropWhile is_digit rest = []" by (simp_all add: list_all_iff)
    define w where "w = apply_sign negative (digits_value rest)"
    have "from_chars t = (if rest = [] \<or> w < - 2147483648 \<or> w > 2147483647 then None else Some (w, []))"
      by (simp add: from_chars_def sr runs Let_def w_def)
    with True sr assms show ?thesis
      by (auto simp: signed_token_def token_value_def numeral_token_def w_def [symmetric] split: if_splits)
  next
    case False
    then have "dropWhile is_digit rest \<noteq> []" by (simp add: list_all_iff)
    with False sr show ?thesis
      by (auto simp: from_chars_def signed_token_def numeral_token_def Let_def split: if_splits)
  qed
qed

lemma sorted_wrt_less_sorted: "sorted_wrt (<) (xs :: int list) \<Longrightarrow> sorted xs"
  by (simp add: strict_sorted_iff)

text \<open>
  C35. The threshold flags. A list is accepted exactly when every token between the commas is a
  numeral (for the basis points with an optional sign) and the values, exactly scaled, are strictly
  ascending, positive and representable, respectively in \<open>[0, 10000)\<close>; the result is the list of
  these values. Every accepted list is one the band functions accept, on both sides of the book.
\<close>

theorem threshold_flags_parse:
  "(parse_volume_thresholds csv = Some ts \<longleftrightarrow>
      list_all numeral_token (split_csv csv) \<and> ts = map (\<lambda>t. digits_value t * 10 ^ 9) (split_csv csv)
      \<and> sorted_wrt (<) ts \<and> list_all (\<lambda>n. 0 < n \<and> n \<le> i64_max) ts)
   \<and> (parse_price_bps csv = Some bs \<longleftrightarrow>
      list_all signed_token (split_csv csv) \<and> bs = map token_value (split_csv csv)
      \<and> sorted_wrt (<) bs \<and> list_all (\<lambda>b. 0 \<le> b \<and> b < 10000) bs)
   \<and> (parse_volume_thresholds csv = Some ts \<longrightarrow> volume_thresholds_valid ts)
   \<and> (parse_price_bps csv = Some bs \<longrightarrow> bps_thresholds_valid Bid bs \<and> bps_thresholds_valid Ask bs)
   \<and> join_csv (split_csv csv) = csv \<and> (\<forall>t \<in> set (split_csv csv). CHR '','' \<notin> set t)"
proof -
  have vol: "parse_volume_thresholds csv = Some ts \<longleftrightarrow>
      list_all numeral_token (split_csv csv) \<and> ts = map (\<lambda>t. digits_value t * 10 ^ 9) (split_csv csv)
      \<and> sorted_wrt (<) ts \<and> list_all (\<lambda>n. 0 < n \<and> n \<le> i64_max) ts"
  proof (cases "list_all (\<lambda>n. 0 < n) ts")
    case True
    then have "map (\<lambda>t. if find_char CHR ''.'' t 0 \<noteq> None then None
          else case from_decimal_string notional_decimals t of Inl e \<Rightarrow> None | Inr x \<Rightarrow> Some x) (split_csv csv)
        = map Some ts \<longleftrightarrow>
        list_all (\<lambda>t. numeral_token t \<and> digits_value t * 10 ^ 9 \<le> i64_max) (split_csv csv)
        \<and> ts = map (\<lambda>t. digits_value t * 10 ^ 9) (split_csv csv)"
      unfolding notional_decimals_def by (intro map_eq_map_Some volume_token) (auto simp: list_all_iff)
    with True show ?thesis
      unfolding parse_volume_thresholds_def parse_ascending_list_Some
      by (auto simp: list_all_iff numeral_token_def)
  next
    case False
    then show ?thesis
      unfolding parse_volume_thresholds_def parse_ascending_list_Some by (auto simp: list_all_iff)
  qed
  have bps: "parse_price_bps csv = Some bs \<longleftrightarrow>
      list_all signed_token (split_csv csv) \<and> bs = map token_value (split_csv csv)
      \<and> sorted_wrt (<) bs \<and> list_all (\<lambda>b. 0 \<le> b \<and> b < 10000) bs"
  proof (cases "list_all (\<lambda>b. 0 \<le> b \<and> b < 10000) bs")
    case True
    then have "map (\<lambda>t. case from_chars t of None \<Rightarrow> None | Some (v, rest) \<Rightarrow> if rest \<noteq> [] then None else Some v)
          (split_csv csv) = map Some bs \<longleftrightarrow>
        list_all signed_token (split_csv csv) \<and> bs = map token_value (split_csv csv)"
      by (intro map_eq_map_Some bps_token) (auto simp: list_all_iff)
    moreover have "signed_token t \<Longrightarrow> t \<noteq> []" for t
      by (auto simp: signed_token_def numeral_token_def strip_sign_def)
    ultimately show ?thesis
      using True unfolding parse_price_bps_def parse_ascending_list_Some kBpsDenominator_def
      by (auto simp: list_all_iff)
  next
    case False
    then show ?thesis
      unfolding parse_price_bps_def parse_ascending_list_Some kBpsDenominator_def by auto
  qed
  show ?thesis
    using vol bps split_csv_from_correct [of 0 csv] sorted_wrt_less_sorted
    by (auto simp: volume_thresholds_valid_def bps_thresholds_valid_def kBpsDenominator_def split_csv_def list_all_iff)
qed

theorem threshold_flags_parse_witness:
  "parse_volume_thresholds ''1000000,5000000'' = Some [1000000 * 10 ^ 9, 5000000 * 10 ^ 9]
   \<and> parse_volume_thresholds ''5000000,1000000'' = None
   \<and> volume_thresholds_valid [1000000 * 10 ^ 9, 5000000 * 10 ^ 9]"
proof -
  have split: "split_csv ''1000000,5000000'' = [''1000000'', ''5000000'']"
    "split_csv ''5000000,1000000'' = [''5000000'', ''1000000'']"
    using split_csv_join [of "[''1000000'', ''5000000'']"] split_csv_join [of "[''5000000'', ''1000000'']"]
    by simp_all
  have tokens: "numeral_token ''1000000''" "numeral_token ''5000000''"
    "digits_value ''1000000'' = 1000000" "digits_value ''5000000'' = 5000000"
    by (simp_all add: numeral_token_def is_digit_def digits_value_def digit_value_def)
  have "parse_volume_thresholds ''5000000,1000000'' \<noteq> Some ts" for ts
    using threshold_flags_parse [of "''5000000,1000000''" ts undefined] split tokens by auto
  moreover have "parse_volume_thresholds ''1000000,5000000'' = Some [1000000 * 10 ^ 9, 5000000 * 10 ^ 9]"
    using threshold_flags_parse [of "''1000000,5000000''" "[1000000 * 10 ^ 9, 5000000 * 10 ^ 9]" undefined]
      split tokens by (simp add: i64_max_def)
  ultimately show ?thesis
    using threshold_flags_parse [of "''1000000,5000000''" "[1000000 * 10 ^ 9, 5000000 * 10 ^ 9]" undefined]
    by blast
qed

section \<open>Defaults and labels\<close>

lemma default_volume_thresholds:
  "kDefaultVolumeBandThresholds =
     [1000000 * 10 ^ 9, 5000000 * 10 ^ 9, 10000000 * 10 ^ 9, 25000000 * 10 ^ 9, 50000000 * 10 ^ 9]"
  by code_simp

lemma default_thresholds_valid:
  "volume_thresholds_valid kDefaultVolumeBandThresholds"
  "bps_thresholds_valid Bid kDefaultPriceBandBps" "bps_thresholds_valid Ask kDefaultPriceBandBps"
  by (simp_all add: volume_thresholds_valid_def default_volume_thresholds bps_thresholds_valid_def
      kDefaultPriceBandBps_def kBpsDenominator_def)

lemma length_build_labels [simp]: "length (build_labels ts f) = length ts"
  by (induction ts) simp_all

lemma build_labels_snoc: "build_labels (ts @ [t]) f = map f ts @ [f t @ ''+'']"
  by (induction ts) simp_all

end
