(* ===== verification/Client_Output.thy ===== *)
theory Client_Output
  imports Aggregator_Service Band_Config "HOL-Library.List_Lexorder" "HOL-Library.Char_ord"
begin

text \<open>
  What \<^verbatim>\<open>client_main.cpp\<close> prints: the lines of \<^verbatim>\<open>publish_bbo\<close>, \<^verbatim>\<open>publish_l2_bands\<close> and
  \<^verbatim>\<open>list_books\<close>. A stream is the list of the messages \<^verbatim>\<open>Read\<close> returned before it failed,
  and the status \<^verbatim>\<open>Finish\<close> returned; the lines a call of \<^verbatim>\<open>print_line\<close> has written are
  returned in order.
\<close>

section \<open>The code: texts\<close>

datatype mode = BboMode | VolumeBands | PriceBands | ListMode

definition parse_mode :: "string \<Rightarrow> mode option" where
  "parse_mode token =
     (if token = ''bbo'' then Some BboMode
      else if token = ''volume-bands'' then Some VolumeBands
      else if token = ''price-bands'' then Some PriceBands
      else if token = ''list'' then Some ListMode
      else None)"

definition format_level :: "price \<times> size_t \<Rightarrow> string" where
  "format_level level = format_fixed price_decimals (fst level) @ ''@'' @ format_fixed size_decimals (snd level)"

definition format_live_venues :: "string list \<Rightarrow> string" where
  "format_live_venues vs =
     ''live_venues=['' @ concat (map (\<lambda>venue. venue @ '' '') (sort vs)) @ '']''"

text \<open>\<^verbatim>\<open>if (i) out << ' '\<close> in front of every part but the first.\<close>

fun space_separated :: "string list \<Rightarrow> string" where
  "space_separated [] = []"
| "space_separated [part] = part"
| "space_separated (part # rest) = part @ '' '' @ space_separated rest"

definition format_volume_bands :: "volume_band list \<Rightarrow> string list \<Rightarrow> string" where
  "format_volume_bands bands labels =
     space_separated (map (\<lambda>(band, label).
       label @ ''='' @ (case vwap band of
          Some p \<Rightarrow> format_fixed price_decimals p
        | None \<Rightarrow> ''NA(filled='' @ format_fixed notional_decimals (filled_notional band) @ '')'')) (zip bands labels))"

definition format_price_bands :: "price_band list \<Rightarrow> string list \<Rightarrow> string" where
  "format_price_bands bands labels =
     (if bands = [] then ''(no bbo)''
      else space_separated (map (\<lambda>(band, label).
        label @ ''='' @ format_fixed size_decimals (cumulative_size band) @ ''@''
        @ format_fixed notional_decimals (cumulative_notional band)) (zip bands labels)))"

text \<open>The value, or \<^verbatim>\<open>ERROR\<close>.\<close>

definition or_error :: "('a \<Rightarrow> string) \<Rightarrow> 'a expected \<Rightarrow> string" where
  "or_error f r = (case r of Inl e \<Rightarrow> ''ERROR'' | Inr x \<Rightarrow> f x)"

section \<open>The code: the incremental stream\<close>

definition mode_tag :: "mode \<Rightarrow> string" where
  "mode_tag m = (if m = VolumeBands then ''VOLUME_BANDS'' else ''PRICE_BANDS'')"

text \<open>The text \<^verbatim>\<open>print_bands\<close> returns; it prints it behind the tag.\<close>

definition print_bands :: "mode \<Rightarrow> band_config \<Rightarrow> u64 \<Rightarrow> l2_order_book \<Rightarrow> string" where
  "print_bands m config book_seq book =
     ''book_seq='' @ to_string (uint book_seq) @
     (if m = VolumeBands then
        '' bid['' @ or_error (\<lambda>bands. format_volume_bands bands (volume_labels config))
                     (bid_volume_band_prices book (volume_thresholds config)) @ '']'' @
        '' ask['' @ or_error (\<lambda>bands. format_volume_bands bands (volume_labels config))
                     (ask_volume_band_prices book (volume_thresholds config)) @ '']''
      else
        '' bid['' @ or_error (\<lambda>bands. format_price_bands bands (price_labels config))
                     (bid_price_band_depths book (price_bps config)) @ '']'' @
        '' ask['' @ or_error (\<lambda>bands. format_price_bands bands (price_labels config))
                     (ask_price_band_depths book (price_bps config)) @ '']'')"

definition tagged :: "book_id \<Rightarrow> string \<Rightarrow> string \<Rightarrow> string" where
  "tagged book tag line = ''['' @ book_id_to_string book @ '' '' @ tag @ ''] '' @ line"

text \<open>The locals of \<^verbatim>\<open>publish_l2_bands\<close>; \<open>try_cancelled\<close> once it has given the call up.\<close>

record l2_publisher =
  pub_client :: client
  last_line :: string
  last_live_venues :: "string option"
  pub_out :: "string list"
  try_cancelled :: bool

definition new_publisher :: l2_publisher where
  "new_publisher = \<lparr>pub_client = new_client, last_line = [], last_live_venues = None, pub_out = [],
     try_cancelled = False\<rparr>"

definition publish_line :: "mode \<Rightarrow> band_config \<Rightarrow> book_id \<Rightarrow> u64 \<Rightarrow> l2_publisher \<Rightarrow> l2_publisher" where
  "publish_line m config book seq p =
     (let line = print_bands m config seq (c_book (pub_client p))
      in p\<lparr>pub_out := pub_out p @ [tagged book (mode_tag m) line], last_line := line\<rparr>)"

fun l2_read :: "mode \<Rightarrow> band_config \<Rightarrow> book_id \<Rightarrow> l2_publisher \<Rightarrow> l2_update \<Rightarrow> l2_publisher" where
  "l2_read m config book p (L2Snapshot seq ts bs as) =
     (if c_stopped (pub_client p) then p
      else publish_line m config book seq (p\<lparr>pub_client := client_read (pub_client p) (L2Snapshot seq ts bs as)\<rparr>))"
| "l2_read m config book p (L2Diff seq ts bs as) =
     (if c_stopped (pub_client p) then p
      else let p' = p\<lparr>pub_client := client_read (pub_client p) (L2Diff seq ts bs as)\<rparr>
           in if is_book_seq_gap (c_last_seq (pub_client p)) seq then
                p'\<lparr>pub_out := pub_out p @ [tagged book (mode_tag m)
                     (''GAP: expected book_seq='' @ to_string (uint (the (c_last_seq (pub_client p)) + 1))
                      @ '' got '' @ to_string (uint seq) @ '' - local book invalid, stopping this stream'')],
                   try_cancelled := True\<rparr>
              else publish_line m config book seq p')"
| "l2_read m config book p (L2Heartbeat ts vs) =
     (if c_stopped (pub_client p) then p
      else let p' = p\<lparr>pub_client := client_read (pub_client p) (L2Heartbeat ts vs)\<rparr>;
               live = format_live_venues vs
           in if Some live \<noteq> last_live_venues p then
                p'\<lparr>pub_out := pub_out p @ [tagged book (mode_tag m) live],
                   last_live_venues := Some live\<rparr>
              else p')"

text \<open>A \<^verbatim>\<open>grpc::Status\<close> as the client prints it: code and message.\<close>

type_synonym grpc_status = "int \<times> string"

definition status_text :: "grpc_status \<Rightarrow> string" where
  "status_text st = ''grpc_status='' @ to_string (fst st) @ '' ('' @ snd st @ '')''"

definition l2_done_line :: "mode \<Rightarrow> book_id \<Rightarrow> grpc_status \<Rightarrow> l2_publisher \<Rightarrow> string" where
  "l2_done_line m book st p =
     tagged book (mode_tag m)
       (''DONE snapshot_count='' @ to_string (int (snapshot_count (pub_client p)))
        @ '' diff_count='' @ to_string (int (diff_count (pub_client p)))
        @ '' heartbeat_count='' @ to_string (int (heartbeat_count (pub_client p)))
        @ '' gap_count='' @ to_string (int (gap_count (pub_client p)))
        @ '' last=('' @ last_line p @ '') '' @ status_text st)"

definition publish_l2_bands :: "mode \<Rightarrow> band_config \<Rightarrow> book_id \<Rightarrow> l2_update list \<Rightarrow> grpc_status \<Rightarrow> string list" where
  "publish_l2_bands m config book updates st =
     (let p = foldl (l2_read m config book) new_publisher updates
      in pub_out p @ [l2_done_line m book st p])"

section \<open>The code: the best-price stream\<close>

record bbo_publisher =
  bbo_count :: nat
  bbo_heartbeat_count :: nat
  bbo_last_line :: string
  bbo_last_live_venues :: "string option"
  bbo_out :: "string list"

definition new_bbo_publisher :: bbo_publisher where
  "new_bbo_publisher = \<lparr>bbo_count = 0, bbo_heartbeat_count = 0, bbo_last_line = [],
     bbo_last_live_venues = None, bbo_out = []\<rparr>"

definition level_or_none :: "(price \<times> size_t) option \<Rightarrow> string" where
  "level_or_none l = (case l of None \<Rightarrow> ''(none)'' | Some level \<Rightarrow> format_level level)"

fun bbo_read :: "book_id \<Rightarrow> bbo_publisher \<Rightarrow> bbo_update \<Rightarrow> bbo_publisher" where
  "bbo_read book p (Bbo seq ts bid ask) =
     (let line = ''book_seq='' @ to_string (uint seq) @ '' bid='' @ level_or_none bid @ '' ask='' @ level_or_none ask
      in p\<lparr>bbo_count := bbo_count p + 1, bbo_last_line := line,
           bbo_out := bbo_out p @ [tagged book ''BBO'' line]\<rparr>)"
| "bbo_read book p (BboHeartbeat ts vs) =
     (let p' = p\<lparr>bbo_heartbeat_count := bbo_heartbeat_count p + 1\<rparr>; live = format_live_venues vs
      in if Some live \<noteq> bbo_last_live_venues p then
           p'\<lparr>bbo_out := bbo_out p @ [tagged book ''BBO'' live], bbo_last_live_venues := Some live\<rparr>
         else p')"

definition publish_bbo :: "book_id \<Rightarrow> bbo_update list \<Rightarrow> grpc_status \<Rightarrow> string list" where
  "publish_bbo book updates st =
     (let p = foldl (bbo_read book) new_bbo_publisher updates
      in bbo_out p @ [tagged book ''BBO''
           (''DONE bbo_count='' @ to_string (int (bbo_count p))
            @ '' heartbeat_count='' @ to_string (int (bbo_heartbeat_count p))
            @ '' last=('' @ bbo_last_line p @ '') '' @ status_text st)])"

section \<open>The code: the list of books\<close>

definition kCancelled :: int where "kCancelled = 1"

text \<open>The result of the call, the lines written to the output and to the error stream.\<close>

definition list_books :: "bool \<Rightarrow> grpc_status \<Rightarrow> wire_book_id list \<Rightarrow> bool \<times> string list \<times> string list" where
  "list_books stop st response =
     (if fst st \<noteq> 0 then
        (if stop \<and> fst st = kCancelled then (True, [], [''list cancelled by shutdown signal''])
         else (False, [], [''ListBooks failed: '' @ status_text st]))
      else
        let labels = sort (map (\<lambda>w. case to_symbol_book_id w of
                                      Some i \<Rightarrow> book_id_to_string i
                                    | None \<Rightarrow> ''(malformed book in response)'') response)
        in if labels = [] then (True, [''(server reports no configured books)''], [])
           else (True, labels, []))"

section \<open>A client on a stream\<close>

text \<open>
  The stream of subscription \<open>a\<close> with the program that reads it: every step of the stream that is not
  a read leaves the client alone and never shortens what is on the wire.
\<close>

inductive publishes :: "nat \<Rightarrow> mode \<Rightarrow> band_config \<Rightarrow> book_id \<Rightarrow> l2_stream \<Rightarrow> l2_publisher \<Rightarrow> bool"
  for a :: nat and m :: mode and config :: band_config and book :: book_id where
  start: "sb_inv sb \<Longrightarrow> queue_at a (l2_fanout sb) = None \<Longrightarrow>
    publishes a m config book (subscription_start a now sb) new_publisher"
| read: "publishes a m config book s p \<Longrightarrow> st_wire s = u # us \<Longrightarrow>
    publishes a m config book (s\<lparr>st_wire := us, st_client := client_read (st_client s) u\<rparr>) (l2_read m config book p u)"
| other: "publishes a m config book s p \<Longrightarrow> stream_step a s s' \<Longrightarrow> st_client s' = st_client s \<Longrightarrow>
    length (st_wire s) \<le> length (st_wire s') \<Longrightarrow> publishes a m config book s' p"

text \<open>What a line shows: the bands of a revision of the book, or the live venues.\<close>

type_synonym shown = "(u64 \<times> l2_order_book) + string list"

definition line_of :: "mode \<Rightarrow> band_config \<Rightarrow> book_id \<Rightarrow> shown \<Rightarrow> string" where
  "line_of m config book x = tagged book (mode_tag m)
     (case x of Inl (n, b) \<Rightarrow> print_bands m config n b | Inr vs \<Rightarrow> format_live_venues vs)"

fun revisions_shown :: "shown list \<Rightarrow> (u64 \<times> l2_order_book) list" where
  "revisions_shown [] = []"
| "revisions_shown (Inl r # xs) = r # revisions_shown xs"
| "revisions_shown (Inr vs # xs) = revisions_shown xs"

fun venues_shown :: "shown list \<Rightarrow> string list" where
  "venues_shown [] = []"
| "venues_shown (Inl r # xs) = venues_shown xs"
| "venues_shown (Inr vs # xs) = format_live_venues vs # venues_shown xs"

lemma shown_append [simp]:
  "revisions_shown (xs @ ys) = revisions_shown xs @ revisions_shown ys"
  "venues_shown (xs @ ys) = venues_shown xs @ venues_shown ys"
  by (induction xs rule: revisions_shown.induct) simp_all

definition output_inv :: "mode \<Rightarrow> band_config \<Rightarrow> book_id \<Rightarrow> l2_stream \<Rightarrow> l2_publisher \<Rightarrow> shown list \<Rightarrow> bool" where
  "output_inv m config book s p xs \<longleftrightarrow>
     pub_client p = st_client s \<and> \<not> try_cancelled p \<and> gap_count (st_client s) = 0
     \<and> pub_out p = map (line_of m config book) xs
     \<and> set (revisions_shown xs) \<subseteq> set (st_history s)
     \<and> length (revisions_shown xs) = snapshot_count (st_client s) + diff_count (st_client s)
     \<and> map_option fst (if revisions_shown xs = [] then None else Some (last (revisions_shown xs))) = c_last_seq (st_client s)
     \<and> (\<forall>n. c_last_seq (st_client s) = Some n \<longrightarrow> last (revisions_shown xs) = (n, c_book (st_client s)))
     \<and> last_live_venues p = (if venues_shown xs = [] then None else Some (last (venues_shown xs)))
     \<and> distinct_adj (venues_shown xs)"

text \<open>Reading a message the stream delivers never finds a gap.\<close>

lemma read_no_gap:
  assumes "stream_reaches a s" "st_wire s = u # us"
  defines "s' \<equiv> s\<lparr>st_wire := us, st_client := client_read (st_client s) u\<rparr>"
  shows "stream_reaches a s'" "\<not> c_stopped (st_client s)" "\<not> c_stopped (st_client s')"
    "\<forall>n. c_last_seq (st_client s') = Some n \<longrightarrow> (n, c_book (st_client s')) \<in> set (st_history s)"
proof -
  show r: "stream_reaches a s'" unfolding s'_def by (rule stream_reaches.step [OF assms(1) stream_step.read [OF assms(2)]])
  have hist: "st_history s' = st_history s" by (simp add: s'_def)
  show "\<not> c_stopped (st_client s)"
    using stream_reaches_inv [OF assms(1)] by (auto simp: stream_inv_def client_shows_def dest!: along_start)
  show "\<not> c_stopped (st_client s')"
    "\<forall>n. c_last_seq (st_client s') = Some n \<longrightarrow> (n, c_book (st_client s')) \<in> set (st_history s)"
    using stream_reaches_inv [OF r] hist by (auto simp: stream_inv_def client_shows_def dest!: along_start)
qed

lemma output_inv_read:
  assumes "stream_reaches a s" "st_wire s = u # us" "output_inv m config book s p xs"
  defines "s' \<equiv> s\<lparr>st_wire := us, st_client := client_read (st_client s) u\<rparr>"
  shows "\<exists>xs'. output_inv m config book s' (l2_read m config book p u) xs'"
proof -
  note gap = read_no_gap [OF assms(1,2), folded s'_def]
  have c: "pub_client p = st_client s" using assms(3) by (simp add: output_inv_def)
  show ?thesis
  proof (cases u)
    case (L2Snapshot seq ts bs as)
    with gap c assms(3) show ?thesis
      by (intro exI [of _ "xs @ [Inl (seq, c_book (st_client s'))]"])
        (auto simp: output_inv_def s'_def publish_line_def line_of_def Let_def)
  next
    case (L2Diff seq ts bs as)
    then have "\<not> is_book_seq_gap (c_last_seq (st_client s)) seq" using gap(2,3) by (auto simp: s'_def)
    with L2Diff gap c assms(3) show ?thesis
      by (intro exI [of _ "xs @ [Inl (seq, c_book (st_client s'))]"])
        (auto simp: output_inv_def s'_def publish_line_def line_of_def Let_def)
  next
    case (L2Heartbeat ts vs)
    show ?thesis
    proof (cases "Some (format_live_venues vs) = last_live_venues p")
      case True
      with L2Heartbeat gap c assms(3) show ?thesis
        by (intro exI [of _ xs]) (auto simp: output_inv_def s'_def Let_def)
    next
      case False
      with L2Heartbeat gap c assms(3) show ?thesis
        by (intro exI [of _ "xs @ [Inr vs]"])
          (auto simp: output_inv_def s'_def line_of_def Let_def distinct_adj_append_iff split: if_splits)
    qed
  qed
qed

lemma stream_step_history: "stream_step a s s' \<Longrightarrow> set (st_history s) \<subseteq> set (st_history s')"
  by (induction rule: stream_step.induct) auto

lemma publishes_inv: "publishes a m config book s p \<Longrightarrow> stream_reaches a s \<and> (\<exists>xs. output_inv m config book s p xs)"
proof (induction rule: publishes.induct)
  case (start sb now)
  then have "stream_reaches a (subscription_start a now sb)" by (rule stream_reaches.start)
  moreover have "output_inv m config book (subscription_start a now sb) new_publisher []"
    by (simp add: output_inv_def new_publisher_def subscription_start_def new_client_def split: prod.split)
  ultimately show ?case by blast
next
  case (read s p u us)
  then show ?case using output_inv_read stream_reaches.step [OF _ stream_step.read] by blast
next
  case (other s p s')
  then obtain xs where "output_inv m config book s p xs" by blast
  with other stream_step_history [OF other(2)] have "output_inv m config book s' p xs" by (auto simp: output_inv_def)
  with other show ?case using stream_reaches.step by blast
qed

section \<open>The figures\<close>

definition reference_bands :: "band_side \<Rightarrow> levels \<Rightarrow> int list \<Rightarrow> price_band list" where
  "reference_bands side lvls bs = (case lvls of [] \<Rightarrow> [] | (best, s) # _ \<Rightarrow> map (band_spec side best lvls) bs)"

text \<open>
  The line of a book, from the reference definitions of the bands: for every threshold its label, and the
  exact average price or the notional that is there, or the size and the notional within the band, each
  with the decimals of its unit.
\<close>

definition spaced :: "string list \<Rightarrow> string" where
  "spaced parts = concat (take 1 parts) @ concat (map (\<lambda>part. '' '' @ part) (drop 1 parts))"

definition reference_volume_text :: "levels \<Rightarrow> notional list \<Rightarrow> string list \<Rightarrow> string" where
  "reference_volume_text lvls ts labels =
     spaced (map (\<lambda>(t, label). label @ (case vwap (volume_spec lvls t) of
         Some p \<Rightarrow> ''='' @ format_fixed price_decimals p
       | None \<Rightarrow> ''=NA(filled='' @ format_fixed notional_decimals (filled_notional (volume_spec lvls t)) @ '')'')) (zip ts labels))"

definition reference_price_text :: "band_side \<Rightarrow> levels \<Rightarrow> int list \<Rightarrow> string list \<Rightarrow> string" where
  "reference_price_text side lvls bs labels =
     (if lvls = [] \<or> bs = [] then ''(no bbo)''
      else spaced (map (\<lambda>(b, label). label
        @ ''='' @ format_fixed size_decimals (cumulative_size (band_spec side (fst (hd lvls)) lvls b))
        @ ''@'' @ format_fixed notional_decimals (cumulative_notional (band_spec side (fst (hd lvls)) lvls b))) (zip bs labels)))"

definition reference_line :: "mode \<Rightarrow> band_config \<Rightarrow> book_id \<Rightarrow> u64 \<Rightarrow> l2_order_book \<Rightarrow> string" where
  "reference_line m config book n b =
     (if m = VolumeBands then
        ''['' @ book_id_to_string book @ '' VOLUME_BANDS] book_seq='' @ to_string (uint n)
        @ '' bid['' @ reference_volume_text (bids b) (volume_thresholds config) (volume_labels config)
        @ ''] ask['' @ reference_volume_text (asks b) (volume_thresholds config) (volume_labels config) @ '']''
      else
        ''['' @ book_id_to_string book @ '' PRICE_BANDS] book_seq='' @ to_string (uint n)
        @ '' bid['' @ reference_price_text band_side.Bid (bids b) (price_bps config) (price_labels config)
        @ ''] ask['' @ reference_price_text band_side.Ask (asks b) (price_bps config) (price_labels config) @ '']'')"

lemma space_separated_eq: "space_separated parts = spaced parts"
  by (induction parts rule: space_separated.induct) (simp_all add: spaced_def)

lemma format_volume_reference:
  "format_volume_bands (map (volume_spec lvls) ts) labels = reference_volume_text lvls ts labels"
  unfolding format_volume_bands_def reference_volume_text_def space_separated_eq zip_map1 map_map
  by (intro arg_cong [where f = spaced] map_cong refl)
    (auto split: option.split)

lemma format_price_reference:
  "format_price_bands (reference_bands side lvls bs) labels = reference_price_text side lvls bs labels"
proof (cases lvls)
  case (Cons x rest)
  obtain best s0 where "x = (best, s0)" by force
  then have "reference_bands side lvls bs = map (band_spec side (fst (hd lvls)) lvls) bs"
    by (simp add: reference_bands_def Cons)
  with Cons show ?thesis
    unfolding format_price_bands_def reference_price_text_def space_separated_eq
    by (cases "bs = []") (auto simp: zip_map1 intro!: arg_cong [where f = spaced] map_cong)
qed (simp add: reference_bands_def format_price_bands_def reference_price_text_def)

text \<open>The figures of a side are representable.\<close>

definition volume_figures_fit :: "notional list \<Rightarrow> levels \<Rightarrow> bool" where
  "volume_figures_fit ts lvls \<longleftrightarrow>
     measurable_levels lvls \<and> fits_i64 (total_notional lvls) \<and> list_all (scalable_from 0 0 lvls) ts"

definition price_figures_fit :: "band_side \<Rightarrow> int list \<Rightarrow> levels \<Rightarrow> bool" where
  "price_figures_fit side bs lvls \<longleftrightarrow>
     measurable_side side lvls
     \<and> (case lvls of [] \<Rightarrow> True | (best, s) # _ \<Rightarrow> list_all (figures_fit side best lvls) bs)"

definition figures_printable :: "mode \<Rightarrow> band_config \<Rightarrow> l2_order_book \<Rightarrow> bool" where
  "figures_printable m config b \<longleftrightarrow>
     (if m = VolumeBands then
        volume_figures_fit (volume_thresholds config) (bids b) \<and> volume_figures_fit (volume_thresholds config) (asks b)
      else price_figures_fit band_side.Bid (price_bps config) (bids b)
        \<and> price_figures_fit band_side.Ask (price_bps config) (asks b))"

definition thresholds_ok :: "band_config \<Rightarrow> bool" where
  "thresholds_ok config \<longleftrightarrow>
     volume_thresholds_valid (volume_thresholds config)
     \<and> bps_thresholds_valid band_side.Bid (price_bps config) \<and> bps_thresholds_valid band_side.Ask (price_bps config)"

lemma volume_figures:
  "volume_figures_fit ts lvls \<Longrightarrow> volume_thresholds_valid ts \<Longrightarrow>
   volume_band_prices lvls ts = Inr (map (volume_spec lvls) ts)"
  by (simp add: volume_figures_fit_def volume_band_prices_eq list_all_iff)

lemma price_figures:
  assumes "price_figures_fit side bs lvls" "bps_thresholds_valid side bs"
  shows "bbo_price_band_depths side lvls bs = Inr (reference_bands side lvls bs)"
proof (cases lvls)
  case Nil
  with assms show ?thesis by (simp add: bbo_price_band_depths_def empty_side_bands_def reference_bands_def)
next
  case (Cons x rest)
  obtain best s0 where x: "x = (best, s0)" by force
  have "0 < best"
    using assms(1) Cons x by (simp add: price_figures_fit_def measurable_side_def all_valid_def is_valid_level_def)
  with assms Cons x show ?thesis
    using price_band_depth_eq [of side lvls bs best]
    by (simp add: bbo_price_band_depths_def reference_bands_def price_figures_fit_def list_all_iff)
qed

lemma line_of_reference:
  assumes "thresholds_ok config" "figures_printable m config b"
  shows "line_of m config book (Inl (n, b)) = reference_line m config book n b"
  using assms
  by (auto simp: line_of_def tagged_def mode_tag_def print_bands_def reference_line_def figures_printable_def
      thresholds_ok_def or_error_def bid_volume_band_prices_def ask_volume_band_prices_def bid_price_band_depths_def
      ask_price_band_depths_def volume_figures price_figures format_volume_reference format_price_reference)

lemma line_of_venues:
  "line_of m config book (Inr vs) =
     ''['' @ book_id_to_string book @ (if m = VolumeBands then '' VOLUME_BANDS] live_venues=['' else '' PRICE_BANDS] live_venues=['')
     @ concat (map (\<lambda>venue. venue @ '' '') (sort vs)) @ '']''"
  by (simp add: line_of_def tagged_def mode_tag_def format_live_venues_def)

section \<open>What is printed\<close>


text \<open>The sample stream of the replica, read to its end.\<close>

definition sample_bands :: band_config where
  "sample_bands = \<lparr>volume_thresholds = [], volume_labels = [], price_bps = [50], price_labels = [''50bps+'']\<rparr>"

lemma sample_publishes:
  "\<exists>p. publishes 7 PriceBands sample_bands book (sample_read (sample_read sample_drained)) p
     \<and> snapshot_count (pub_client p) = 1 \<and> diff_count (pub_client p) = 1"
proof -
  let ?pub = "publishes 7 PriceBands sample_bands book"
  have "?pub sample_stream new_publisher"
    unfolding sample_stream_def by (rule publishes.start [OF sample_fresh_server])
  from publishes.other [OF this sample_stream_steps(1)]
  have "?pub sample_ingested new_publisher" by (simp add: sample_ingested_def)
  from publishes.other [OF this sample_stream_steps(2)]
  have "?pub sample_written new_publisher" by (simp add: sample_written_def)
  from publishes.other [OF this sample_stream_steps(3)]
  have "?pub sample_drained new_publisher" by (simp add: sample_drained_def)
  from publishes.read [OF this sample_stream_steps(4)]
  have once: "?pub (sample_read sample_drained) (l2_read PriceBands sample_bands book new_publisher (L2Snapshot 0 2 [] []))"
    by (simp add: sample_read_def sample_stream_steps)
  define p where "p = l2_read PriceBands sample_bands book
      (l2_read PriceBands sample_bands book new_publisher (L2Snapshot 0 2 [] [])) (L2Diff 1 3 [(100, 5)] [])"
  have "?pub (sample_read (sample_read sample_drained)) p"
    using publishes.read [OF once, of "L2Diff 1 3 [(100, 5)] []" "[]"] by (simp add: sample_read_def sample_stream_steps p_def)
  moreover have "snapshot_count (pub_client p) = 1 \<and> diff_count (pub_client p) = 1"
    by (simp add: p_def new_publisher_def new_client_def publish_line_def is_book_seq_gap_def Let_def)
  ultimately show ?thesis by blast
qed


section \<open>The list\<close>

text \<open>\<^verbatim>\<open>list\<close> prints every book the server was started with once, in a spelling that reads back.\<close>

lemma list_prints_every_book:
  assumes "service_reaches (new_service ids) svc" "distinct ids" "\<forall>i \<in> set ids. spellable i" "ids \<noteq> []"
  shows "list_books stop (0, msg) (ListBooks svc) = (True, sort (map book_id_to_string ids), [])"
    "\<forall>line \<in> set (map book_id_to_string ids). parse_book_id line \<in> Some ` set ids"
proof -
  have "service_inv ids svc" by (rule service_reaches_inv [OF assms(1,2)])
  then have listed: "ListBooks svc = map fill_wire_book_id ids" by (rule service_keys)
  have "to_symbol_book_id (fill_wire_book_id i) = Some i" if "i \<in> set ids" for i
    using that assms(3) by (intro to_fill_book_id) (auto simp: spellable_def wellformed_id_def)
  then have "map (\<lambda>w. case to_symbol_book_id w of Some i \<Rightarrow> book_id_to_string i
      | None \<Rightarrow> ''(malformed book in response)'') (ListBooks svc) = map book_id_to_string ids"
    by (simp add: listed comp_def)
  moreover have "sort (map book_id_to_string ids) \<noteq> []"
    using assms(4) by (metis length_0_conv length_map length_sort)
  ultimately show "list_books stop (0, msg) (ListBooks svc) = (True, sort (map book_id_to_string ids), [])"
    unfolding list_books_def by (simp add: Let_def)
  show "\<forall>line \<in> set (map book_id_to_string ids). parse_book_id line \<in> Some ` set ids"
    using assms(3) parse_book_id_spelled by auto
qed

end
