(* ===== verification/Client_Main.thy ===== *)
theory Client_Main
  imports Client_Output
begin

text \<open>
  The arguments of \<^verbatim>\<open>client_main.cpp\<close>: from \<^verbatim>\<open>argv\<close> to an exit code, with the lines written to
  the error stream, or to what the program then runs: the list query, or one publisher per book.
  Blocking the signals is assumed to succeed, and the threads themselves are in the theories of the
  output and of the shutdown.
\<close>

section \<open>The code\<close>

text \<open>
  \<^verbatim>\<open>std::stoi\<close>: blanks, a sign, digits; the value and the number of characters consumed, or
  the exception.
\<close>

datatype stoi_result = Stoi int nat | StoiOutOfRange | StoiInvalidArgument

definition is_space :: "char \<Rightarrow> bool" where
  "is_space c \<longleftrightarrow> (let n = of_char c :: nat in n = 32 \<or> 9 \<le> n \<and> n \<le> 13)"

definition strip_any_sign :: "string \<Rightarrow> bool \<times> string" where
  "strip_any_sign s =
     (case s of [] \<Rightarrow> (False, [])
      | c # rest \<Rightarrow> if c = CHR ''-'' then (True, rest) else if c = CHR ''+'' then (False, rest) else (False, s))"

definition stoi :: "string \<Rightarrow> stoi_result" where
  "stoi s =
     (let (negative, rest) = strip_any_sign (dropWhile is_space s); digits = takeWhile is_digit rest;
          v = apply_sign negative (digits_value digits)
      in if digits = [] then StoiInvalidArgument
         else if v < - 2147483648 \<or> v > 2147483647 then StoiOutOfRange
         else Stoi v (length s - length (dropWhile is_digit rest)))"

definition apply_band_override ::
  "string option \<Rightarrow> (string \<Rightarrow> 'a list option) \<Rightarrow> string \<Rightarrow> string \<Rightarrow> 'a list \<Rightarrow> string + 'a list" where
  "apply_band_override csv parse_fn flag_name hint target =
     (case csv of
        None \<Rightarrow> Inr target
      | Some text \<Rightarrow>
          (case parse_fn text of
             None \<Rightarrow> Inl (''invalid '' @ flag_name @ ''=\"'' @ text @ ''\" ('' @ hint @ '')'')
           | Some parsed \<Rightarrow> Inr parsed))"

definition usage_text :: "string list" where
  "usage_text =
     [''usage: hermeneutic_aggregator_client <address> <bbo|volume-bands|price-bands> [--volume-thresholds=<n1,n2,...>] [--price-bps=<b1,b2,...>]'',
      ''       <duration_seconds> <book1> [book2 ...]'',
      ''       hermeneutic_aggregator_client <address> list'',
      ''  duration_seconds <= 0 means run until interrupted or the server ends the stream'',
      ''  books look like BTC_USDT.SPOT or BTC_USDT.PERP'',
      ''  bbo:          subscribes to SubscribeBbo, prints best bid/ask on every update'',
      ''  volume-bands: subscribes to SubscribeL2Diff, prints the VWAP needed to fill'',
      ''                1M/5M/10M/25M/50M+ notional (default) on each side on every update'',
      ''  price-bands:  subscribes to SubscribeL2Diff, prints depth within'',
      ''                50/100/200/500/1000+ bps (default) of BBO on each side on every update'',
      ''  list:         calls ListBooks and prints every book the server was started'',
      ''                with, one per line, then exits (no duration/book arguments)'',
      ''  --volume-thresholds=<n1,n2,...>  overrides volume-bands' notional thresholds'',
      ''                                    (comma-separated integers, ascending, strictly'',
      ''                                    positive - no decimals or scientific notation,'',
      ''                                    e.g. 1000000,5000000,10000000,25000000,50000000)'',
      ''  --price-bps=<b1,b2,...>           overrides price-bands' bps thresholds'',
      ''                                    (comma-separated, ascending, in [0, 10000),'',
      ''                                    e.g. 50,100,200,500,1000)'',
      ''  flags may appear anywhere on the command line; the last band in each list is'',
      ''  labeled with a trailing '+' (e.g. \"50M+\") to mark it as the highest/open-ended one'']"

text \<open>What \<^verbatim>\<open>main\<close> comes to.\<close>

datatype client_start =
    ExitCode int
  | RunList string
  | RunStreams string mode int "book_id list" band_config

text \<open>The thresholds of a mode: its own flag applies, the other one is only noted.\<close>

definition volume_override :: "mode \<Rightarrow> cli_flags \<Rightarrow> string + notional list" where
  "volume_override m flags =
     (if m = VolumeBands then
        apply_band_override (volume_thresholds_csv flags) parse_volume_thresholds ''--volume-thresholds''
          ''expected a comma-separated, ascending, strictly positive list of integers - no decimals or scientific notation - e.g. 1000000,5000000,10000000,25000000,50000000''
          kDefaultVolumeBandThresholds
      else Inr kDefaultVolumeBandThresholds)"

definition price_override :: "mode \<Rightarrow> cli_flags \<Rightarrow> string + int list" where
  "price_override m flags =
     (if m = PriceBands then
        apply_band_override (price_bps_csv flags) parse_price_bps ''--price-bps''
          ''expected a comma-separated, ascending bps list in [0, 10000), e.g. 50,100,200,500,1000''
          kDefaultPriceBandBps
      else Inr kDefaultPriceBandBps)"

definition ignored_note :: "bool \<Rightarrow> string option \<Rightarrow> string \<Rightarrow> string \<Rightarrow> string list" where
  "ignored_note applies csv flag mode_str =
     (if \<not> applies \<and> csv \<noteq> None then [''note: '' @ flag @ '' has no effect in '' @ mode_str @ '' mode (ignored)'']
      else [])"

text \<open>The books, or the argument that is none.\<close>

fun parse_book_args :: "string list \<Rightarrow> string + book_id list" where
  "parse_book_args [] = Inr []"
| "parse_book_args (arg # rest) =
     (case parse_book_id arg of
        None \<Rightarrow> Inl (''invalid book \"'' @ arg @ ''\" (expected e.g. BTC_USDT.SPOT or BTC_USDT.PERP)'')
      | Some i \<Rightarrow> (case parse_book_args rest of Inl e \<Rightarrow> Inl e | Inr ids \<Rightarrow> Inr (i # ids)))"

text \<open>The duration and the books, once the bands are configured.\<close>

definition start_streams :: "string list \<Rightarrow> string list \<Rightarrow> mode \<Rightarrow> band_config \<Rightarrow> string list \<times> client_start" where
  "start_streams notes args m config =
     (if length args < 4 then (notes @ usage_text, ExitCode 1)
      else
        let duration_str = args ! 2;
            invalid = (\<lambda>why. (notes @ [''invalid duration_seconds \"'' @ duration_str @ ''\" ('' @ why @ '')''] @ usage_text,
                              ExitCode 1))
        in case stoi duration_str of
             StoiOutOfRange \<Rightarrow> invalid ''integer out of range''
           | StoiInvalidArgument \<Rightarrow> invalid ''expected an integer''
           | Stoi duration_s consumed \<Rightarrow>
               if consumed \<noteq> length duration_str then invalid ''trailing characters after the integer''
               else (case parse_book_args (drop 3 args) of
                       Inl e \<Rightarrow> (notes @ [e], ExitCode 1)
                     | Inr ids \<Rightarrow> (notes, RunStreams (args ! 0) m duration_s ids config)))"

definition client_main :: "string list \<Rightarrow> string list \<times> client_start" where
  "client_main argv =
     (case extract_flags argv of
        Inl e \<Rightarrow> (e # usage_text, ExitCode 1)
      | Inr (flags, args) \<Rightarrow>
          if length args < 2 then (usage_text, ExitCode 1)
          else
            let mode_str = args ! 1
            in case parse_mode mode_str of
                 None \<Rightarrow> ((''unknown mode \"'' @ mode_str @ ''\" (expected bbo, volume-bands, price-bands, or list)'') # usage_text,
                          ExitCode 1)
               | Some m \<Rightarrow>
                   if m = ListMode then
                     (if length args \<noteq> 2 \<or> volume_thresholds_csv flags \<noteq> None \<or> price_bps_csv flags \<noteq> None
                      then (''list takes no further arguments'' # usage_text, ExitCode 1)
                      else ([], RunList (args ! 0)))
                   else
                     (case volume_override m flags of
                        Inl e \<Rightarrow> (e # usage_text, ExitCode 1)
                      | Inr ts \<Rightarrow>
                          let note1 = ignored_note (m = VolumeBands) (volume_thresholds_csv flags) ''--volume-thresholds='' mode_str
                          in case price_override m flags of
                               Inl e \<Rightarrow> (note1 @ [e] @ usage_text, ExitCode 1)
                             | Inr bs \<Rightarrow>
                                 let note2 = ignored_note (m = PriceBands) (price_bps_csv flags) ''--price-bps='' mode_str
                                 in start_streams (note1 @ note2) args m
                                      \<lparr>volume_thresholds = ts, volume_labels = build_labels ts format_notional_label,
                                       price_bps = bs, price_labels = build_labels bs format_bps_label\<rparr>))"

section \<open>Flags\<close>

text \<open>The values given to a flag, and the arguments that are no flags, wherever they stand.\<close>

definition flag_values :: "string \<Rightarrow> string list \<Rightarrow> string list" where
  "flag_values flag argv = map (drop (length flag)) (filter (\<lambda>arg. starts_with arg flag) argv)"

definition positional :: "string list \<Rightarrow> string list" where
  "positional argv = filter (\<lambda>arg. \<not> starts_with arg kVolumeFlag \<and> \<not> starts_with arg kPriceFlag) argv"

fun option_list :: "'a option \<Rightarrow> 'a list" where
  "option_list None = []"
| "option_list (Some x) = [x]"

lemma option_list_inject: "option_list a = option_list b \<longleftrightarrow> a = b"
  by (cases a; cases b) auto

lemma option_list_short: "length (option_list a) \<le> Suc 0"
  by (cases a) auto

lemma flag_lengths: "length kVolumeFlag = 20" "length kPriceFlag = 12"
  by (simp_all add: kVolumeFlag_def kPriceFlag_def)

lemma flags_differ: "starts_with arg kVolumeFlag \<Longrightarrow> \<not> starts_with arg kPriceFlag"
proof
  assume "starts_with arg kVolumeFlag" "starts_with arg kPriceFlag"
  then have "take 20 arg = kVolumeFlag" "take 12 arg = kPriceFlag"
    unfolding starts_with_def by (simp_all only: flag_lengths)
  then have "take 12 kVolumeFlag = kPriceFlag" using take_take [of 12 20 arg] by simp
  then show False by (simp add: kPriceFlag_def kVolumeFlag_def)
qed

lemma extract_flags_from_Inr:
  "extract_flags_from f0 argv = Inr (f, args) \<longleftrightarrow>
     length (option_list (volume_thresholds_csv f0) @ flag_values kVolumeFlag argv) \<le> 1
     \<and> length (option_list (price_bps_csv f0) @ flag_values kPriceFlag argv) \<le> 1
     \<and> option_list (volume_thresholds_csv f) = option_list (volume_thresholds_csv f0) @ flag_values kVolumeFlag argv
     \<and> option_list (price_bps_csv f) = option_list (price_bps_csv f0) @ flag_values kPriceFlag argv
     \<and> args = positional argv"
proof (induction argv arbitrary: f0 args)
  case Nil
  show ?case
    by (cases f; cases f0) (auto simp: flag_values_def positional_def option_list_inject option_list_short)
next
  case (Cons arg argv)
  consider (vol) "starts_with arg kVolumeFlag" "\<not> starts_with arg kPriceFlag"
    | (price) "\<not> starts_with arg kVolumeFlag" "starts_with arg kPriceFlag"
    | (none) "\<not> starts_with arg kVolumeFlag" "\<not> starts_with arg kPriceFlag"
    using flags_differ by blast
  then show ?case
  proof cases
    case vol
    then show ?thesis
      by (cases "volume_thresholds_csv f0") (auto simp: Cons.IH flag_values_def positional_def)
  next
    case price
    then show ?thesis
      by (cases "price_bps_csv f0") (auto simp: Cons.IH flag_values_def positional_def)
  next
    case none
    then have "extract_flags_from f0 (arg # argv) = Inr (f, args) \<longleftrightarrow>
        (\<exists>rest. args = arg # rest \<and> extract_flags_from f0 argv = Inr (f, rest))"
      by (auto split: sum.splits)
    with none show ?thesis unfolding Cons.IH by (auto simp: flag_values_def positional_def)
  qed
qed

section \<open>What a run is given\<close>

lemma volume_override_Inr:
  "volume_override m flags = Inr ts \<longleftrightarrow>
     (if m = VolumeBands \<and> volume_thresholds_csv flags \<noteq> None
      then parse_volume_thresholds (the (volume_thresholds_csv flags)) = Some ts else ts = kDefaultVolumeBandThresholds)"
  by (auto simp: volume_override_def apply_band_override_def split: option.splits)

lemma price_override_Inr:
  "price_override m flags = Inr bs \<longleftrightarrow>
     (if m = PriceBands \<and> price_bps_csv flags \<noteq> None
      then parse_price_bps (the (price_bps_csv flags)) = Some bs else bs = kDefaultPriceBandBps)"
  by (auto simp: price_override_def apply_band_override_def split: option.splits)

lemma parsed_thresholds_valid:
  "parse_volume_thresholds csv = Some ts \<Longrightarrow> volume_thresholds_valid ts"
  "parse_price_bps csv = Some bs \<Longrightarrow> bps_thresholds_valid side bs"
  by (auto simp: parse_volume_thresholds_def parse_price_bps_def parse_ascending_list_Some
      volume_thresholds_valid_def bps_thresholds_valid_def list_all_iff dest: sorted_wrt_less_sorted)

lemma override_valid:
  "volume_override m flags = Inr ts \<Longrightarrow> volume_thresholds_valid ts"
  "price_override m flags = Inr bs \<Longrightarrow> bps_thresholds_valid side bs"
  using default_thresholds_valid parsed_thresholds_valid
  by (cases side; auto simp: volume_override_Inr price_override_Inr split: if_splits)+

lemma parse_book_args_Inr: "parse_book_args names = Inr ids \<longleftrightarrow> map parse_book_id names = map Some ids"
proof (induction names arbitrary: ids)
  case (Cons name names)
  show ?case using Cons.IH [of "tl ids"] by (cases ids) (auto split: option.splits sum.splits)
qed auto

lemma four_args: "4 \<le> length args \<longleftrightarrow> (\<exists>a b c d rest. args = a # b # c # d # rest)"
  by (auto simp: numeral_eq_Suc Suc_le_length_iff)

lemma start_streams_Run:
  "start_streams notes args m config = (ns, RunStreams addr m' d ids config') \<longleftrightarrow>
     ns = notes \<and> m' = m \<and> config' = config
     \<and> (\<exists>mode_str dur names. args = addr # mode_str # dur # names \<and> names \<noteq> []
          \<and> stoi dur = Stoi d (length dur) \<and> map parse_book_id names = map Some ids)"
proof (cases "length args < 4")
  case True
  then show ?thesis by (auto simp: start_streams_def neq_Nil_conv)
next
  case False
  then obtain a b c e rest where "args = a # b # c # e # rest" using four_args [of args] by (auto simp: not_less)
  then show ?thesis
    using parse_book_args_Inr [of "e # rest" ids]
    by (auto simp: start_streams_def Let_def split: stoi_result.split sum.split simp del: parse_book_args.simps)
qed

text \<open>\<^verbatim>\<open>main\<close> behind the flags.\<close>

lemma client_main_Run:
  "client_main argv = (notes, RunStreams addr m d ids config) \<longleftrightarrow>
     (\<exists>flags args mode_str. extract_flags argv = Inr (flags, args) \<and> 2 \<le> length args \<and> mode_str = args ! 1
        \<and> parse_mode mode_str = Some m \<and> m \<noteq> ListMode
        \<and> (\<exists>ts bs. volume_override m flags = Inr ts \<and> price_override m flags = Inr bs
            \<and> start_streams
                (ignored_note (m = VolumeBands) (volume_thresholds_csv flags) ''--volume-thresholds='' mode_str
                 @ ignored_note (m = PriceBands) (price_bps_csv flags) ''--price-bps='' mode_str) args m
                \<lparr>volume_thresholds = ts, volume_labels = build_labels ts format_notional_label,
                 price_bps = bs, price_labels = build_labels bs format_bps_label\<rparr>
              = (notes, RunStreams addr m d ids config)))"
  unfolding client_main_def Let_def start_streams_Run
  by (auto simp: start_streams_Run split: sum.split option.split if_splits)

lemma client_main_List:
  "client_main argv = (errs, RunList addr) \<longleftrightarrow>
     errs = [] \<and> (\<exists>flags. extract_flags argv = Inr (flags, [addr, ''list''])
        \<and> volume_thresholds_csv flags = None \<and> price_bps_csv flags = None)"
proof -
  have no: "start_streams ns args m' c \<noteq> (errs, RunList addr)" for ns args m' c
    by (auto simp: start_streams_def Let_def split: stoi_result.split sum.split)
  have mode: "parse_mode s = Some ListMode \<longleftrightarrow> s = ''list''" "parse_mode ''list'' = Some ListMode" for s
    by (auto simp: parse_mode_def)
  have two: "length args = 2 \<Longrightarrow> args = [args ! 0, args ! 1]" for args :: "string list"
    by (auto simp: numeral_eq_Suc length_Suc_conv)
  show ?thesis
    unfolding client_main_def Let_def
    by (auto simp: no mode split: sum.split option.split if_splits dest: two)
qed

lemma client_main_Exit: "client_main argv = (errs, ExitCode n) \<Longrightarrow> n = 1 \<and> errs \<noteq> []"
proof -
  have "start_streams ns args m' c = (errs, ExitCode n) \<Longrightarrow> n = 1 \<and> errs \<noteq> []" for ns args m' c
    by (auto simp: start_streams_def Let_def usage_text_def split: stoi_result.splits sum.splits if_splits)
  then show "client_main argv = (errs, ExitCode n) \<Longrightarrow> n = 1 \<and> errs \<noteq> []"
    unfolding client_main_def Let_def
    by (auto simp: usage_text_def split: sum.splits option.splits if_splits)
qed

lemma extract_flags_Inr:
  "extract_flags argv = Inr (flags, args) \<longleftrightarrow>
     length (flag_values kVolumeFlag argv) \<le> 1 \<and> length (flag_values kPriceFlag argv) \<le> 1
     \<and> option_list (volume_thresholds_csv flags) = flag_values kVolumeFlag argv
     \<and> option_list (price_bps_csv flags) = flag_values kPriceFlag argv \<and> args = positional argv"
  unfolding extract_flags_def extract_flags_from_Inr by simp

lemma option_list_onto: "length xs \<le> 1 \<Longrightarrow> \<exists>a. option_list a = xs"
proof (cases xs)
  case Nil
  then show ?thesis by (intro exI [of _ None]) simp
next
  case (Cons x rest)
  then show "length xs \<le> 1 \<Longrightarrow> ?thesis" by (intro exI [of _ "Some x"]) simp
qed

lemma override_ok:
  "(\<exists>ts. volume_override m flags = Inr ts) \<longleftrightarrow>
     (m = VolumeBands \<longrightarrow> list_all (\<lambda>csv. parse_volume_thresholds csv \<noteq> None) (option_list (volume_thresholds_csv flags)))"
  "(\<exists>bs. price_override m flags = Inr bs) \<longleftrightarrow>
     (m = PriceBands \<longrightarrow> list_all (\<lambda>csv. parse_price_bps csv \<noteq> None) (option_list (price_bps_csv flags)))"
  unfolding volume_override_Inr price_override_Inr
  by (cases "volume_thresholds_csv flags"; cases "price_bps_csv flags"; auto)+

lemma client_runs_iff:
  "(\<exists>notes config. client_main argv = (notes, RunStreams addr m d ids config)) \<longleftrightarrow>
     length (flag_values kVolumeFlag argv) \<le> 1 \<and> length (flag_values kPriceFlag argv) \<le> 1
     \<and> m \<noteq> ListMode
     \<and> (m = VolumeBands \<longrightarrow> list_all (\<lambda>csv. parse_volume_thresholds csv \<noteq> None) (flag_values kVolumeFlag argv))
     \<and> (m = PriceBands \<longrightarrow> list_all (\<lambda>csv. parse_price_bps csv \<noteq> None) (flag_values kPriceFlag argv))
     \<and> (\<exists>mode_str dur names. positional argv = addr # mode_str # dur # names \<and> names \<noteq> []
          \<and> parse_mode mode_str = Some m \<and> stoi dur = Stoi d (length dur) \<and> map parse_book_id names = map Some ids)"
  (is "?runs \<longleftrightarrow> ?ok")
proof
  assume ?runs
  then obtain ns config flags args where flags: "extract_flags argv = Inr (flags, args)"
    and m: "parse_mode (args ! 1) = Some m" "m \<noteq> ListMode"
    and bands: "\<exists>ts. volume_override m flags = Inr ts" "\<exists>bs. price_override m flags = Inr bs"
    and shape: "\<exists>mode_str dur names. args = addr # mode_str # dur # names \<and> names \<noteq> []
          \<and> stoi dur = Stoi d (length dur) \<and> map parse_book_id names = map Some ids"
    unfolding client_main_Run start_streams_Run by blast
  then show ?ok unfolding extract_flags_Inr override_ok by auto
next
  assume ok: ?ok
  obtain v p where "option_list v = flag_values kVolumeFlag argv" "option_list p = flag_values kPriceFlag argv"
    using ok option_list_onto by metis
  then have flags: "extract_flags argv = Inr (\<lparr>volume_thresholds_csv = v, price_bps_csv = p\<rparr>, positional argv)"
    and bands: "\<exists>ts. volume_override m \<lparr>volume_thresholds_csv = v, price_bps_csv = p\<rparr> = Inr ts"
      "\<exists>bs. price_override m \<lparr>volume_thresholds_csv = v, price_bps_csv = p\<rparr> = Inr bs"
    using ok unfolding extract_flags_Inr override_ok by auto
  obtain mode_str dur names where "positional argv = addr # mode_str # dur # names" "names \<noteq> []"
    "parse_mode mode_str = Some m" "stoi dur = Stoi d (length dur)" "map parse_book_id names = map Some ids"
    using ok by blast
  with flags bands ok show ?runs unfolding client_main_Run start_streams_Run by fastforce
qed

lemma client_run_config:
  assumes "client_main argv = (notes, RunStreams addr m d ids config)"
  shows "thresholds_ok config
    \<and> volume_labels config = build_labels (volume_thresholds config) format_notional_label
    \<and> price_labels config = build_labels (price_bps config) format_bps_label
    \<and> (\<forall>csv. m = VolumeBands \<and> flag_values kVolumeFlag argv = [csv] \<longrightarrow>
         parse_volume_thresholds csv = Some (volume_thresholds config))
    \<and> (\<forall>csv. m = PriceBands \<and> flag_values kPriceFlag argv = [csv] \<longrightarrow>
         parse_price_bps csv = Some (price_bps config))"
proof -
  obtain flags args ts bs where flags: "extract_flags argv = Inr (flags, args)"
    and bands: "volume_override m flags = Inr ts" "price_override m flags = Inr bs"
    and config: "config = \<lparr>volume_thresholds = ts, volume_labels = build_labels ts format_notional_label,
      price_bps = bs, price_labels = build_labels bs format_bps_label\<rparr>"
    using assms unfolding client_main_Run start_streams_Run by blast
  have "thresholds_ok config" using override_valid bands by (simp add: thresholds_ok_def config)
  moreover have "volume_thresholds_csv flags = Some csv" if "flag_values kVolumeFlag argv = [csv]" for csv
    using flags that unfolding extract_flags_Inr by (cases "volume_thresholds_csv flags") auto
  moreover have "price_bps_csv flags = Some csv" if "flag_values kPriceFlag argv = [csv]" for csv
    using flags that unfolding extract_flags_Inr by (cases "price_bps_csv flags") auto
  ultimately show ?thesis using bands by (auto simp: config volume_override_Inr price_override_Inr)
qed

lemma client_lists_iff:
  "client_main argv = (errs, RunList addr) \<longleftrightarrow>
     errs = [] \<and> positional argv = [addr, ''list''] \<and> flag_values kVolumeFlag argv = [] \<and> flag_values kPriceFlag argv = []"
proof -
  have "(\<exists>flags. extract_flags argv = Inr (flags, [addr, ''list''])
        \<and> volume_thresholds_csv flags = None \<and> price_bps_csv flags = None) \<longleftrightarrow>
      extract_flags argv = Inr (\<lparr>volume_thresholds_csv = None, price_bps_csv = None\<rparr>, [addr, ''list''])"
    by (metis cli_flags.cases cli_flags.select_convs(1,2))
  then show ?thesis unfolding client_main_List extract_flags_Inr by auto
qed

text \<open>
  C19. The arguments of the client. Publishers are started exactly when each flag is given at most
  once, the other arguments are, in this order and wherever the flags stand among them, an address, a
  mode, a whole-number duration and at least one book that parses, and the flag of the mode, if given,
  has a list that parses; the publishers get exactly these, with thresholds that the bands accept and
  a label for each. The list query runs exactly on an address and \<^verbatim>\<open>list\<close>. In all other
  cases the program exits with 1 and says why.
\<close>

theorem client_runs_exactly_valid_arguments:
  "((\<exists>notes config. client_main argv = (notes, RunStreams addr m d ids config)) \<longleftrightarrow>
      length (flag_values kVolumeFlag argv) \<le> 1 \<and> length (flag_values kPriceFlag argv) \<le> 1
      \<and> m \<noteq> ListMode
      \<and> (m = VolumeBands \<longrightarrow> list_all (\<lambda>csv. parse_volume_thresholds csv \<noteq> None) (flag_values kVolumeFlag argv))
      \<and> (m = PriceBands \<longrightarrow> list_all (\<lambda>csv. parse_price_bps csv \<noteq> None) (flag_values kPriceFlag argv))
      \<and> (\<exists>mode_str dur names. positional argv = addr # mode_str # dur # names \<and> names \<noteq> []
           \<and> parse_mode mode_str = Some m \<and> stoi dur = Stoi d (length dur) \<and> map parse_book_id names = map Some ids))
   \<and> (client_main argv = (notes, RunStreams addr m d ids config) \<longrightarrow>
        thresholds_ok config
        \<and> volume_labels config = build_labels (volume_thresholds config) format_notional_label
        \<and> price_labels config = build_labels (price_bps config) format_bps_label
        \<and> (\<forall>csv. m = VolumeBands \<and> flag_values kVolumeFlag argv = [csv] \<longrightarrow>
             parse_volume_thresholds csv = Some (volume_thresholds config))
        \<and> (\<forall>csv. m = PriceBands \<and> flag_values kPriceFlag argv = [csv] \<longrightarrow>
             parse_price_bps csv = Some (price_bps config)))
   \<and> (client_main argv = (errs, RunList addr) \<longleftrightarrow>
        errs = [] \<and> positional argv = [addr, ''list''] \<and> flag_values kVolumeFlag argv = [] \<and> flag_values kPriceFlag argv = [])
   \<and> (client_main argv = (errs, ExitCode n) \<longrightarrow> n = 1 \<and> errs \<noteq> [])"
proof (intro conjI)
  show "(\<exists>notes config. client_main argv = (notes, RunStreams addr m d ids config)) \<longleftrightarrow>
      length (flag_values kVolumeFlag argv) \<le> 1 \<and> length (flag_values kPriceFlag argv) \<le> 1
      \<and> m \<noteq> ListMode
      \<and> (m = VolumeBands \<longrightarrow> list_all (\<lambda>csv. parse_volume_thresholds csv \<noteq> None) (flag_values kVolumeFlag argv))
      \<and> (m = PriceBands \<longrightarrow> list_all (\<lambda>csv. parse_price_bps csv \<noteq> None) (flag_values kPriceFlag argv))
      \<and> (\<exists>mode_str dur names. positional argv = addr # mode_str # dur # names \<and> names \<noteq> []
           \<and> parse_mode mode_str = Some m \<and> stoi dur = Stoi d (length dur) \<and> map parse_book_id names = map Some ids)"
    by (rule client_runs_iff)
  show "client_main argv = (notes, RunStreams addr m d ids config) \<longrightarrow>
        thresholds_ok config
        \<and> volume_labels config = build_labels (volume_thresholds config) format_notional_label
        \<and> price_labels config = build_labels (price_bps config) format_bps_label
        \<and> (\<forall>csv. m = VolumeBands \<and> flag_values kVolumeFlag argv = [csv] \<longrightarrow>
             parse_volume_thresholds csv = Some (volume_thresholds config))
        \<and> (\<forall>csv. m = PriceBands \<and> flag_values kPriceFlag argv = [csv] \<longrightarrow>
             parse_price_bps csv = Some (price_bps config))"
    by (intro impI) (erule client_run_config)
  show "client_main argv = (errs, RunList addr) \<longleftrightarrow>
        errs = [] \<and> positional argv = [addr, ''list''] \<and> flag_values kVolumeFlag argv = [] \<and> flag_values kPriceFlag argv = []"
    by (rule client_lists_iff)
  show "client_main argv = (errs, ExitCode n) \<longrightarrow> n = 1 \<and> errs \<noteq> []"
    using client_main_Exit by blast
qed

definition sample_argv :: "string list" where
  "sample_argv = [''localhost:50051'', ''price-bands'', ''--price-bps=10,20'', ''-1'', ''BTC_USDT.SPOT'']"

theorem client_runs_exactly_valid_arguments_witness:
  "(\<exists>notes config. client_main sample_argv =
      (notes, RunStreams ''localhost:50051'' PriceBands (- 1) [BookId (BaseQuote (Asset ''BTC'') (Asset ''USDT'')) Spot] config)
     \<and> price_bps config = [10, 20] \<and> thresholds_ok config)
   \<and> client_main [''localhost:50051'', ''list''] = ([], RunList ''localhost:50051'')"
proof -
  have parts: "flag_values kVolumeFlag sample_argv = []" "flag_values kPriceFlag sample_argv = [''10,20'']"
    "positional sample_argv = [''localhost:50051'', ''price-bands'', ''-1'', ''BTC_USDT.SPOT'']"
    "flag_values kVolumeFlag [''localhost:50051'', ''list''] = []" "flag_values kPriceFlag [''localhost:50051'', ''list''] = []"
    "positional [''localhost:50051'', ''list''] = [''localhost:50051'', ''list'']"
    by code_simp+
  have parse: "parse_price_bps ''10,20'' = Some [10, 20]" "parse_mode ''price-bands'' = Some PriceBands"
    "stoi ''-1'' = Stoi (- 1) 2"
    "parse_book_id ''BTC_USDT.SPOT'' = Some (BookId (BaseQuote (Asset ''BTC'') (Asset ''USDT'')) Spot)"
    by code_simp+
  note claim = client_runs_exactly_valid_arguments
  have "\<exists>notes config. client_main sample_argv =
      (notes, RunStreams ''localhost:50051'' PriceBands (- 1) [BookId (BaseQuote (Asset ''BTC'') (Asset ''USDT'')) Spot] config)"
    using claim [THEN conjunct1, of sample_argv "''localhost:50051''" PriceBands "- 1"
        "[BookId (BaseQuote (Asset ''BTC'') (Asset ''USDT'')) Spot]"] by (simp add: parts parse)
  then obtain ns config where run: "client_main sample_argv =
      (ns, RunStreams ''localhost:50051'' PriceBands (- 1) [BookId (BaseQuote (Asset ''BTC'') (Asset ''USDT'')) Spot] config)"
    by blast
  then have "price_bps config = [10, 20]" "thresholds_ok config"
    using claim [THEN conjunct2, THEN conjunct1, of sample_argv ns] parse(1) parts(2) by auto
  moreover have "client_main [''localhost:50051'', ''list''] = ([], RunList ''localhost:50051'')"
    using claim [THEN conjunct2, THEN conjunct2, THEN conjunct1] parts by simp
  ultimately show ?thesis using run by blast
qed

end
