(* ===== verification/Client_Shutdown.thy ===== *)
theory Client_Shutdown
  imports Prelude
begin

text \<open>
  How \<^verbatim>\<open>client_main.cpp\<close> stops its streams: \<^verbatim>\<open>StreamCanceller\<close> with the registry of
  cancellers, \<^verbatim>\<open>request_stop\<close>, and the thread that waits for signals. Each class is a step
  relation over the points where a thread holds or waits for a mutex or a condition variable; all
  interleavings of the threads are runs.
\<close>

section \<open>The code: cancellers\<close>

text \<open>
  Where the thread of a canceller stands in \<^verbatim>\<open>run\<close>. It holds the canceller's mutex while
  it evaluates the predicate of \<^verbatim>\<open>wait\<close>, until it has blocked, and from a true predicate to the
  unlock.
\<close>

datatype thread_phase = Spawned | Checking | Blocking | Waiting | Woken | Passed | Decided bool | Ended

text \<open>Where the thread that owns the canceller stands: constructor, read loop, destructor.\<close>

datatype owner_phase = Constructing | Reading | Deregistered | DoneSet | Joining | Destroyed

text \<open>\<open>in_time\<close> is not in the code: it records that \<^verbatim>\<open>*stop\<close> was unset at the registration.\<close>

record canceller =
  cn_thread :: thread_phase
  cn_owner :: owner_phase
  read_loop_done :: bool
  cancelled :: bool
  in_time :: bool

definition new_canceller :: canceller where
  "new_canceller = \<lparr>cn_thread = Spawned, cn_owner = Constructing, read_loop_done = False,
     cancelled = False, in_time = False\<rparr>"

definition holds_mutex :: "canceller \<Rightarrow> bool" where
  "holds_mutex c \<longleftrightarrow> cn_thread c \<in> {Checking, Blocking, Passed}"

definition wake :: "canceller \<Rightarrow> canceller" where
  "wake c = (if cn_thread c = Waiting then c\<lparr>cn_thread := Woken\<rparr> else c)"

text \<open>
  \<open>registry\<close> lists the registered cancellers; \<open>stop_calls\<close> counts the calls of \<^verbatim>\<open>request_stop\<close>
  that have set \<^verbatim>\<open>*stop\<close> and not yet locked the registry; \<open>sweep\<close> is what the loop of
  \<^verbatim>\<open>notify_all_of_stop\<close> has left, while it holds the registry.
\<close>

record shutdown_state =
  stop_flag :: bool
  cancellers :: "canceller list"
  registry :: "nat list"
  stop_calls :: nat
  sweep :: "nat list option"

definition no_streams :: shutdown_state where
  "no_streams = \<lparr>stop_flag = False, cancellers = [], registry = [], stop_calls = 0, sweep = None\<rparr>"

definition on_canceller :: "nat \<Rightarrow> (canceller \<Rightarrow> canceller) \<Rightarrow> shutdown_state \<Rightarrow> shutdown_state" where
  "on_canceller i f s = s\<lparr>cancellers := (cancellers s)[i := f (cancellers s ! i)]\<rparr>"

text \<open>
  What one canceller does by itself: its thread, and its destructor once it has begun. The flag is the
  value of \<^verbatim>\<open>*stop\<close>.
\<close>

inductive canceller_step :: "bool \<Rightarrow> canceller \<Rightarrow> canceller \<Rightarrow> bool" for stop :: bool where
  lock: "cn_thread c \<in> {Spawned, Woken} \<Longrightarrow> canceller_step stop c (c\<lparr>cn_thread := Checking\<rparr>)"
| check: "cn_thread c = Checking \<Longrightarrow>
    canceller_step stop c (c\<lparr>cn_thread := (if stop \<or> read_loop_done c then Passed else Blocking)\<rparr>)"
| block: "cn_thread c = Blocking \<Longrightarrow> canceller_step stop c (c\<lparr>cn_thread := Waiting\<rparr>)"
| decide: "cn_thread c = Passed \<Longrightarrow> canceller_step stop c (c\<lparr>cn_thread := Decided stop\<rparr>)"
| act: "cn_thread c = Decided should_cancel \<Longrightarrow>
    canceller_step stop c (c\<lparr>cn_thread := Ended, cancelled := cancelled c \<or> should_cancel\<rparr>)"
| set_done: "cn_owner c = Deregistered \<Longrightarrow> \<not> holds_mutex c \<Longrightarrow>
    canceller_step stop c (c\<lparr>cn_owner := DoneSet, read_loop_done := True\<rparr>)"
| notify_done: "cn_owner c = DoneSet \<Longrightarrow> canceller_step stop c ((wake c)\<lparr>cn_owner := Joining\<rparr>)"
| join: "cn_owner c = Joining \<Longrightarrow> cn_thread c = Ended \<Longrightarrow> canceller_step stop c (c\<lparr>cn_owner := Destroyed\<rparr>)"

text \<open>The steps the program takes by itself; the registry is locked while a sweep is under way.\<close>

inductive internal_step :: "shutdown_state \<Rightarrow> shutdown_state \<Rightarrow> bool" where
  canceller: "i < length (cancellers s) \<Longrightarrow> canceller_step (stop_flag s) (cancellers s ! i) c \<Longrightarrow>
    internal_step s (on_canceller i (\<lambda>_. c) s)"
| register: "i < length (cancellers s) \<Longrightarrow> cn_owner (cancellers s ! i) = Constructing \<Longrightarrow> sweep s = None \<Longrightarrow>
    internal_step s ((on_canceller i (\<lambda>c. c\<lparr>cn_owner := Reading, in_time := \<not> stop_flag s\<rparr>) s)
      \<lparr>registry := registry s @ [i]\<rparr>)"
| begin_sweep: "stop_calls s = Suc n \<Longrightarrow> sweep s = None \<Longrightarrow>
    internal_step s (s\<lparr>stop_calls := n, sweep := Some (registry s)\<rparr>)"
| notify_stop: "sweep s = Some (i # rest) \<Longrightarrow> \<not> holds_mutex (cancellers s ! i) \<Longrightarrow>
    internal_step s ((on_canceller i wake s)\<lparr>sweep := Some rest\<rparr>)"
| end_sweep: "sweep s = Some [] \<Longrightarrow> internal_step s (s\<lparr>sweep := None\<rparr>)"

text \<open>
  What comes from outside: a stream is opened, its read loop ends (the destructor deregisters first),
  a signal or the timer requests a stop, a condition variable wakes without a reason.
\<close>

inductive outside_step :: "shutdown_state \<Rightarrow> shutdown_state \<Rightarrow> bool" where
  construct: "outside_step s (s\<lparr>cancellers := cancellers s @ [new_canceller]\<rparr>)"
| read_loop_ends: "i < length (cancellers s) \<Longrightarrow> cn_owner (cancellers s ! i) = Reading \<Longrightarrow> sweep s = None \<Longrightarrow>
    outside_step s ((on_canceller i (\<lambda>c. c\<lparr>cn_owner := Deregistered\<rparr>) s)
      \<lparr>registry := removeAll i (registry s)\<rparr>)"
| request_stop: "outside_step s (s\<lparr>stop_flag := True, stop_calls := stop_calls s + 1\<rparr>)"
| spurious: "i < length (cancellers s) \<Longrightarrow> outside_step s (on_canceller i wake s)"

inductive shutdown_reaches :: "shutdown_state \<Rightarrow> bool" where
  start: "shutdown_reaches no_streams"
| internal: "shutdown_reaches s \<Longrightarrow> internal_step s s' \<Longrightarrow> shutdown_reaches s'"
| outside: "shutdown_reaches s \<Longrightarrow> outside_step s s' \<Longrightarrow> shutdown_reaches s'"

inductive_cases canceller_stepE: "canceller_step stop c c'"

section \<open>One canceller\<close>

text \<open>
  What holds of one canceller at any time: it is cancelled only by a stop; it gives up waiting for a
  reason; and once its destructor has notified, its thread does not sleep.
\<close>

definition canceller_inv :: "bool \<Rightarrow> canceller \<Rightarrow> bool" where
  "canceller_inv stop c \<longleftrightarrow>
     (cancelled c \<longrightarrow> stop) \<and> (cn_thread c = Decided True \<longrightarrow> stop)
     \<and> (cn_thread c = Passed \<longrightarrow> stop \<or> read_loop_done c)
     \<and> (cn_thread c = Decided False \<longrightarrow> read_loop_done c)
     \<and> (cn_thread c = Ended \<longrightarrow> cancelled c \<or> read_loop_done c)
     \<and> (read_loop_done c \<longleftrightarrow> cn_owner c \<in> {DoneSet, Joining, Destroyed})
     \<and> (read_loop_done c \<longrightarrow> cn_thread c \<noteq> Blocking)
     \<and> (cn_owner c \<in> {Joining, Destroyed} \<longrightarrow> cn_thread c \<noteq> Waiting)
     \<and> (cn_owner c = Destroyed \<longrightarrow> cn_thread c = Ended)"

lemma canceller_inv_step: "canceller_step stop c c' \<Longrightarrow> canceller_inv stop c \<Longrightarrow> canceller_inv stop c'"
  by (induction rule: canceller_step.induct)
    (auto simp: canceller_inv_def wake_def holds_mutex_def split: if_splits)

lemma canceller_inv_wake: "canceller_inv stop c \<Longrightarrow> canceller_inv stop (wake c)"
  by (auto simp: canceller_inv_def wake_def)

lemma canceller_inv_stop: "canceller_inv stop c \<Longrightarrow> canceller_inv True c"
  by (auto simp: canceller_inv_def)

lemma canceller_step_owner:
  "canceller_step stop c c' \<Longrightarrow> in_time c' = in_time c \<and> (cn_owner c' = Reading \<longleftrightarrow> cn_owner c = Reading)"
  by (induction rule: canceller_step.induct) (auto simp: wake_def)

text \<open>The thread goes to sleep only while no stop is requested.\<close>

lemma canceller_step_sleeps:
  "canceller_step stop c c' \<Longrightarrow> cn_thread c' \<in> {Blocking, Waiting} \<Longrightarrow> \<not> stop \<or> cn_thread c \<in> {Blocking, Waiting}"
  by (induction rule: canceller_step.induct) (auto simp: wake_def split: if_splits)

fun thread_cost :: "thread_phase \<Rightarrow> nat" where
  "thread_cost Spawned = 7"
| "thread_cost Woken = 6"
| "thread_cost Checking = 5"
| "thread_cost Blocking = 4"
| "thread_cost Passed = 3"
| "thread_cost (Decided _) = 2"
| "thread_cost Waiting = 0"
| "thread_cost Ended = 0"

fun owner_cost :: "owner_phase \<Rightarrow> nat" where
  "owner_cost Constructing = 1"
| "owner_cost Reading = 0"
| "owner_cost Deregistered = 9"
| "owner_cost DoneSet = 8"
| "owner_cost Joining = 1"
| "owner_cost Destroyed = 0"

definition canceller_cost :: "canceller \<Rightarrow> nat" where
  "canceller_cost c = thread_cost (cn_thread c) + owner_cost (cn_owner c)"

lemma canceller_step_cost: "canceller_step stop c c' \<Longrightarrow> canceller_cost c' < canceller_cost c"
  by (induction rule: canceller_step.induct) (auto simp: canceller_cost_def wake_def split: if_splits)

lemma wake_cost: "canceller_cost (wake c) \<le> canceller_cost c + 6"
  by (simp add: canceller_cost_def wake_def)

text \<open>A canceller that cannot step has ended, or sleeps with its read loop running.\<close>

lemma canceller_stuck:
  assumes "canceller_inv stop c" "\<And>c'. \<not> canceller_step stop c c'"
  shows "cn_owner c \<notin> {Deregistered, DoneSet, Joining}" "cn_thread c \<in> {Waiting, Ended}"
proof -
  have "cn_thread c \<notin> {Spawned, Woken}" "cn_thread c \<noteq> Checking" "cn_thread c \<noteq> Blocking"
    "cn_thread c \<noteq> Passed" "cn_thread c \<noteq> Decided b" for b
    using assms(2) canceller_step.intros(1-5) [of c] by blast+
  then show ended: "cn_thread c \<in> {Waiting, Ended}" by (cases "cn_thread c") auto
  have "cn_owner c = Deregistered \<Longrightarrow> holds_mutex c" "cn_owner c \<noteq> DoneSet"
    "cn_owner c = Joining \<Longrightarrow> cn_thread c \<noteq> Ended"
    using assms(2) canceller_step.intros(6-8) [of c] by blast+
  with ended assms(1) show "cn_owner c \<notin> {Deregistered, DoneSet, Joining}"
    by (auto simp: holds_mutex_def canceller_inv_def)
qed

section \<open>All cancellers\<close>

text \<open>A canceller that was registered in time and still sleeps is due to be notified.\<close>

definition due :: "shutdown_state \<Rightarrow> nat \<Rightarrow> bool" where
  "due s i \<longleftrightarrow> stop_calls s > 0 \<or> (\<exists>l. sweep s = Some l \<and> i \<in> set l)"

definition misses_nothing :: "shutdown_state \<Rightarrow> nat \<Rightarrow> bool" where
  "misses_nothing s i \<longleftrightarrow>
     (let c = cancellers s ! i
      in in_time c \<and> cn_owner c = Reading \<and> stop_flag s \<and> cn_thread c \<in> {Blocking, Waiting} \<longrightarrow> due s i)"

definition reading :: "canceller list \<Rightarrow> nat set" where
  "reading cs = {i. i < length cs \<and> cn_owner (cs ! i) = Reading}"

lemma reading_update:
  "i < length cs \<Longrightarrow> reading (cs[i := c]) = (if cn_owner c = Reading then insert i (reading cs) else reading cs - {i})"
  by (auto simp: reading_def nth_list_update)

lemma reading_same:
  "i < length cs \<Longrightarrow> cn_owner c = Reading \<longleftrightarrow> cn_owner (cs ! i) = Reading \<Longrightarrow> reading (cs[i := c]) = reading cs"
  by (auto simp: reading_def nth_list_update)

definition registry_inv :: "shutdown_state \<Rightarrow> bool" where
  "registry_inv s \<longleftrightarrow>
     distinct (registry s)
     \<and> reading (cancellers s) = set (registry s)
     \<and> (stop_calls s > 0 \<longrightarrow> stop_flag s) \<and> (\<forall>l. sweep s = Some l \<longrightarrow> set l \<subseteq> set (registry s) \<and> stop_flag s)"

definition shutdown_inv :: "shutdown_state \<Rightarrow> bool" where
  "shutdown_inv s \<longleftrightarrow> registry_inv s
     \<and> (\<forall>i < length (cancellers s). canceller_inv (stop_flag s) (cancellers s ! i) \<and> misses_nothing s i)"

lemma on_canceller_simps [simp]:
  "stop_flag (on_canceller i f s) = stop_flag s" "registry (on_canceller i f s) = registry s"
  "stop_calls (on_canceller i f s) = stop_calls s" "sweep (on_canceller i f s) = sweep s"
  "cancellers (on_canceller i f s) = (cancellers s)[i := f (cancellers s ! i)]"
  by (simp_all add: on_canceller_def)

lemma wake_simps [simp]:
  "cn_owner (wake c) = cn_owner c" "in_time (wake c) = in_time c" "cn_thread (wake c) \<noteq> Waiting"
  "cn_thread (wake c) = Blocking \<longleftrightarrow> cn_thread c = Blocking"
  by (auto simp: wake_def)

text \<open>One canceller changes, and nothing is taken from the others.\<close>

lemma shutdown_inv_update:
  assumes "shutdown_inv s" "i < length (cancellers s)" "registry_inv s'"
    "cancellers s' = (cancellers s)[i := c]" "stop_flag s' = stop_flag s"
    "canceller_inv (stop_flag s) c" "misses_nothing s' i" "\<And>j. j \<noteq> i \<Longrightarrow> due s j \<Longrightarrow> due s' j"
  shows "shutdown_inv s'"
  unfolding shutdown_inv_def
proof (intro conjI allI impI)
  fix j assume "j < length (cancellers s')"
  then have j: "canceller_inv (stop_flag s) (cancellers s ! j)" "misses_nothing s j"
    using assms(1,4) by (simp_all add: shutdown_inv_def)
  show "canceller_inv (stop_flag s') (cancellers s' ! j)"
    using j(1) assms(2,4,5,6) by (cases "j = i") simp_all
  show "misses_nothing s' j"
  proof (cases "j = i")
    case False
    then have "cancellers s' ! j = cancellers s ! j" using assms(4) by simp
    with j(2) False assms(5,8) show ?thesis unfolding misses_nothing_def Let_def by auto
  qed (simp add: assms(7))
qed (fact assms(3))

lemma registry_inv_update:
  assumes "registry_inv s" "i < length (cancellers s)"
    "cn_owner c = Reading \<longleftrightarrow> cn_owner (cancellers s ! i) = Reading"
  shows "registry_inv (on_canceller i (\<lambda>_. c) s)"
  using assms by (simp add: registry_inv_def reading_same)

lemma shutdown_inv_parts:
  assumes "shutdown_inv s" "i < length (cancellers s)"
  shows "registry_inv s" "canceller_inv (stop_flag s) (cancellers s ! i)" "misses_nothing s i"
  using assms by (simp_all add: shutdown_inv_def)

lemma internal_step_inv: "internal_step s s' \<Longrightarrow> shutdown_inv s \<Longrightarrow> shutdown_inv s'"
proof (induction rule: internal_step.induct)
  case (canceller i s c)
  note parts = shutdown_inv_parts [OF canceller(3,1)]
  have "misses_nothing (on_canceller i (\<lambda>_. c) s) i"
    using canceller(1) parts(3) canceller_step_owner [OF canceller(2)] canceller_step_sleeps [OF canceller(2)]
    by (auto simp: misses_nothing_def due_def Let_def)
  with canceller parts show ?case
    using canceller_step_owner [OF canceller(2)]
    by (intro shutdown_inv_update [OF canceller(3,1), of _ c] registry_inv_update)
      (auto simp: due_def intro: canceller_inv_step)
next
  case (register i s)
  note parts = shutdown_inv_parts [OF register(4,1)]
  let ?c = "(cancellers s ! i)\<lparr>cn_owner := Reading, in_time := \<not> stop_flag s\<rparr>"
  let ?s = "(on_canceller i (\<lambda>c. c\<lparr>cn_owner := Reading, in_time := \<not> stop_flag s\<rparr>) s)\<lparr>registry := registry s @ [i]\<rparr>"
  have "i \<notin> reading (cancellers s)" using register(2) by (simp add: reading_def)
  then have "registry_inv ?s" using parts(1) register(1,3) by (simp add: registry_inv_def reading_update)
  moreover have "canceller_inv (stop_flag s) ?c" using parts(2) register(2) by (auto simp: canceller_inv_def)
  moreover have "misses_nothing ?s i" using register(1) by (auto simp: misses_nothing_def Let_def)
  ultimately show ?case
    by (intro shutdown_inv_update [OF register(4,1), of _ ?c]) (auto simp: due_def)
next
  case (begin_sweep s n)
  then have "i \<in> set (registry s)" if "i < length (cancellers s)" "cn_owner (cancellers s ! i) = Reading" for i
    using that by (auto simp: shutdown_inv_def registry_inv_def reading_def)
  with begin_sweep show ?case
    by (auto simp: shutdown_inv_def registry_inv_def misses_nothing_def due_def Let_def)
next
  case (notify_stop s i rest)
  have i: "i < length (cancellers s)" using notify_stop by (auto simp: shutdown_inv_def registry_inv_def reading_def)
  note parts = shutdown_inv_parts [OF notify_stop(3) i]
  let ?s = "(on_canceller i wake s)\<lparr>sweep := Some rest\<rparr>"
  have "registry_inv (on_canceller i (\<lambda>_. wake (cancellers s ! i)) s)"
    using parts(1) i by (intro registry_inv_update) simp_all
  then have "registry_inv ?s" using notify_stop(1) by (simp add: registry_inv_def)
  moreover have "misses_nothing ?s i" using notify_stop(2) i by (auto simp: misses_nothing_def holds_mutex_def Let_def)
  ultimately show ?case
    using parts(2) notify_stop(1)
    by (intro shutdown_inv_update [OF notify_stop(3) i, of _ "wake (cancellers s ! i)"])
      (auto simp: due_def intro: canceller_inv_wake)
next
  case (end_sweep s)
  then show ?case
    by (auto simp: shutdown_inv_def registry_inv_def misses_nothing_def due_def Let_def)
qed

lemma outside_step_inv: "outside_step s s' \<Longrightarrow> shutdown_inv s \<Longrightarrow> shutdown_inv s'"
proof (induction rule: outside_step.induct)
  case (construct s)
  then show ?case
  proof -
    have "reading (cancellers s @ [new_canceller]) = reading (cancellers s)"
      by (auto simp: reading_def new_canceller_def nth_append)
    moreover have "canceller_inv (stop_flag s) new_canceller" by (simp add: canceller_inv_def new_canceller_def)
    moreover have "\<not> in_time new_canceller" by (simp add: new_canceller_def)
    ultimately show ?thesis
      using construct by (simp add: shutdown_inv_def registry_inv_def misses_nothing_def due_def Let_def nth_append)
  qed
next
  case (read_loop_ends i s)
  note parts = shutdown_inv_parts [OF read_loop_ends(4,1)]
  let ?c = "(cancellers s ! i)\<lparr>cn_owner := Deregistered\<rparr>"
  let ?s = "(on_canceller i (\<lambda>c. c\<lparr>cn_owner := Deregistered\<rparr>) s)\<lparr>registry := removeAll i (registry s)\<rparr>"
  have "registry_inv ?s"
    using parts(1) read_loop_ends(1,3) by (simp add: registry_inv_def reading_update distinct_removeAll)
  moreover have "canceller_inv (stop_flag s) ?c" using parts(2) read_loop_ends(2) by (auto simp: canceller_inv_def)
  moreover have "misses_nothing ?s i" using read_loop_ends(1) by (simp add: misses_nothing_def Let_def)
  ultimately show ?case
    by (intro shutdown_inv_update [OF read_loop_ends(4,1), of _ ?c]) (auto simp: due_def)
next
  case (request_stop s)
  then show ?case
    by (auto simp: shutdown_inv_def registry_inv_def misses_nothing_def due_def Let_def intro: canceller_inv_stop)
next
  case (spurious i s)
  note parts = shutdown_inv_parts [OF spurious(2,1)]
  have "registry_inv (on_canceller i (\<lambda>_. wake (cancellers s ! i)) s)"
    using parts(1) spurious(1) by (intro registry_inv_update) simp_all
  then have "registry_inv (on_canceller i wake s)" by (simp add: registry_inv_def)
  moreover have "misses_nothing (on_canceller i wake s) i"
    using spurious(1) parts(3) by (auto simp: misses_nothing_def due_def Let_def)
  ultimately show ?case
    using parts(2) by (intro shutdown_inv_update [OF spurious(2,1), of _ "wake (cancellers s ! i)"])
      (auto simp: due_def intro: canceller_inv_wake)
qed

lemma shutdown_reaches_inv: "shutdown_reaches s \<Longrightarrow> shutdown_inv s"
proof (induction rule: shutdown_reaches.induct)
  case start
  then show ?case by (simp add: shutdown_inv_def registry_inv_def reading_def no_streams_def)
qed (auto intro: internal_step_inv outside_step_inv)

section \<open>Progress\<close>

definition sweep_cost :: "shutdown_state \<Rightarrow> nat" where
  "sweep_cost s = (case sweep s of None \<Rightarrow> 0 | Some l \<Rightarrow> 7 * length l + 1)"

definition shutdown_cost :: "shutdown_state \<Rightarrow> nat" where
  "shutdown_cost s =
     stop_calls s * (7 * length (cancellers s) + 2) + sweep_cost s + (\<Sum>c\<leftarrow>cancellers s. canceller_cost c)"

lemma total_cost_update:
  "i < length cs \<Longrightarrow>
   (\<Sum>c\<leftarrow>cs[i := c']. canceller_cost c) + canceller_cost (cs ! i) = (\<Sum>c\<leftarrow>cs. canceller_cost c) + canceller_cost c'"
  by (induction cs arbitrary: i) (auto split: nat.split)

lemma registry_length: "registry_inv s \<Longrightarrow> length (registry s) \<le> length (cancellers s)"
proof -
  assume inv: "registry_inv s"
  then have "card (set (registry s)) \<le> card {..<length (cancellers s)}"
    by (intro card_mono) (auto simp: registry_inv_def reading_def)
  moreover have "distinct (registry s)" using inv by (simp add: registry_inv_def)
  ultimately show ?thesis by (simp add: distinct_card)
qed

lemma internal_step_cost: "internal_step s s' \<Longrightarrow> shutdown_inv s \<Longrightarrow> shutdown_cost s' < shutdown_cost s"
proof (induction rule: internal_step.induct)
  case (canceller i s c)
  then show ?case
    using total_cost_update [of i "cancellers s" c] canceller_step_cost [OF canceller(2)]
    by (simp add: shutdown_cost_def sweep_cost_def)
next
  case (register i s)
  then show ?case
    using total_cost_update [of i "cancellers s" "(cancellers s ! i)\<lparr>cn_owner := Reading, in_time := \<not> stop_flag s\<rparr>"]
    by (simp add: shutdown_cost_def sweep_cost_def canceller_cost_def)
next
  case (begin_sweep s n)
  then have "length (registry s) \<le> length (cancellers s)" by (simp add: registry_length shutdown_inv_def)
  with begin_sweep show ?case by (simp add: shutdown_cost_def sweep_cost_def)
next
  case (notify_stop s i rest)
  then have "i < length (cancellers s)" by (auto simp: shutdown_inv_def registry_inv_def reading_def)
  with notify_stop show ?case
    using total_cost_update [of i "cancellers s" "wake (cancellers s ! i)"] wake_cost [of "cancellers s ! i"]
    by (simp add: shutdown_cost_def sweep_cost_def)
next
  case (end_sweep s)
  then show ?case by (simp add: shutdown_cost_def sweep_cost_def)
qed

definition quiescent :: "shutdown_state \<Rightarrow> bool" where
  "quiescent s \<longleftrightarrow> (\<forall>s'. \<not> internal_step s s')"

lemma quiescent_cancellers:
  assumes "quiescent s" "i < length (cancellers s)"
  shows "\<not> canceller_step (stop_flag s) (cancellers s ! i) c'"
  using assms internal_step.canceller [of i s c'] by (auto simp: quiescent_def)

lemma quiescent_sweep:
  assumes "quiescent s" "shutdown_inv s"
  shows "sweep s = None" "stop_calls s = 0"
proof -
  show none: "sweep s = None"
  proof (rule ccontr)
    assume "sweep s \<noteq> None"
    then obtain l where l: "sweep s = Some l" by blast
    then obtain i rest where i: "l = i # rest"
      using assms(1) internal_step.end_sweep [of s] by (cases l) (auto simp: quiescent_def)
    then have lt: "i < length (cancellers s)" using l assms(2) by (auto simp: shutdown_inv_def registry_inv_def reading_def)
    have "cn_thread (cancellers s ! i) \<in> {Waiting, Ended}"
      by (rule canceller_stuck(2) [OF shutdown_inv_parts(2) [OF assms(2) lt] quiescent_cancellers [OF assms(1) lt]])
    then have "\<not> holds_mutex (cancellers s ! i)" by (auto simp: holds_mutex_def)
    then show False using internal_step.notify_stop l i assms(1) by (auto simp: quiescent_def)
  qed
  show "stop_calls s = 0"
  proof (cases "stop_calls s")
    case (Suc n)
    then show ?thesis using internal_step.begin_sweep [OF Suc none] assms(1) by (auto simp: quiescent_def)
  qed simp
qed

lemma quiescent_canceller:
  assumes "quiescent s" "shutdown_inv s" "i < length (cancellers s)"
  shows "cn_owner (cancellers s ! i) \<in> {Reading, Destroyed}"
    "stop_flag s \<Longrightarrow> in_time (cancellers s ! i) \<Longrightarrow> cn_owner (cancellers s ! i) = Reading \<Longrightarrow>
       cancelled (cancellers s ! i)"
proof -
  let ?c = "cancellers s ! i"
  have inv: "canceller_inv (stop_flag s) ?c" "misses_nothing s i" using assms by (auto simp: shutdown_inv_def)
  note stuck = canceller_stuck [OF inv(1) quiescent_cancellers [OF assms(1,3)]]
  have "cn_owner ?c \<noteq> Constructing"
    using internal_step.register [OF assms(3) _ quiescent_sweep(1) [OF assms(1,2)]] assms(1)
    by (auto simp: quiescent_def)
  with stuck(1) show "cn_owner ?c \<in> {Reading, Destroyed}" by (cases "cn_owner ?c") auto
  assume "stop_flag s" "in_time ?c" "cn_owner ?c = Reading"
  with inv(2) have "cn_thread ?c \<noteq> Waiting"
    using quiescent_sweep [OF assms(1,2)] by (auto simp: misses_nothing_def due_def Let_def)
  then have "cn_thread ?c = Ended" using stuck(2) by simp
  with inv(1) \<open>cn_owner ?c = Reading\<close> show "cancelled ?c" by (auto simp: canceller_inv_def)
qed

text \<open>
  C20. A stop reaches every registered stream. In every reachable state, whatever the interleaving of
  streams that open and end, of signals and of spurious wakeups: a stream is cancelled only after a
  stop was requested; the program's own steps cannot go on forever, each of them lowers a bound; and
  when none is left, no constructor or destructor of a canceller hangs, and if a stop was requested,
  every stream still being read whose canceller was registered before that is cancelled.
\<close>

theorem stop_cancels_registered_streams:
  assumes "shutdown_reaches s"
  shows "(\<forall>c \<in> set (cancellers s). cancelled c \<longrightarrow> stop_flag s)
    \<and> (\<forall>s'. internal_step s s' \<longrightarrow> shutdown_cost s' < shutdown_cost s)
    \<and> ((\<forall>s'. \<not> internal_step s s') \<longrightarrow>
        (\<forall>c \<in> set (cancellers s). cn_owner c \<in> {Reading, Destroyed}
           \<and> (stop_flag s \<and> in_time c \<and> cn_owner c = Reading \<longrightarrow> cancelled c)))"
proof -
  have inv: "shutdown_inv s" by (rule shutdown_reaches_inv [OF assms])
  then have "\<forall>c \<in> set (cancellers s). cancelled c \<longrightarrow> stop_flag s"
    by (auto simp: shutdown_inv_def canceller_inv_def in_set_conv_nth)
  moreover have "\<forall>c \<in> set (cancellers s). cn_owner c \<in> {Reading, Destroyed}
      \<and> (stop_flag s \<and> in_time c \<and> cn_owner c = Reading \<longrightarrow> cancelled c)" if "\<forall>s'. \<not> internal_step s s'"
    using quiescent_canceller [OF _ inv] that by (fastforce simp: quiescent_def in_set_conv_nth)
  ultimately show ?thesis using internal_step_cost inv by blast
qed

section \<open>One stream\<close>

text \<open>The runs with one stream; the threads move in this order.\<close>

definition one_stream :: "bool \<Rightarrow> thread_phase \<Rightarrow> owner_phase \<Rightarrow> bool \<Rightarrow> bool \<Rightarrow> nat \<Rightarrow> nat list option \<Rightarrow> nat list \<Rightarrow> shutdown_state" where
  "one_stream stop th own cancel early calls sw reg = \<lparr>stop_flag = stop,
     cancellers = [\<lparr>cn_thread = th, cn_owner = own, read_loop_done = False, cancelled = cancel, in_time = early\<rparr>],
     registry = reg, stop_calls = calls, sweep = sw\<rparr>"

lemma one_stream_thread:
  assumes "canceller_step stop
       \<lparr>cn_thread = th, cn_owner = own, read_loop_done = False, cancelled = cancel, in_time = early\<rparr>
       \<lparr>cn_thread = th', cn_owner = own, read_loop_done = False, cancelled = cancel', in_time = early\<rparr>"
  shows "internal_step (one_stream stop th own cancel early calls sw reg) (one_stream stop th' own cancel' early calls sw reg)"
  using internal_step.canceller [of 0 "one_stream stop th own cancel early calls sw reg"] assms
  by (simp add: one_stream_def on_canceller_def)

lemma one_stream_checked:
  assumes "th \<in> {Spawned, Woken}"
  shows "internal_step\<^sup>*\<^sup>* (one_stream False th own cancel early calls sw reg) (one_stream False Waiting own cancel early calls sw reg)"
proof -
  have "internal_step (one_stream False th own cancel early calls sw reg) (one_stream False Checking own cancel early calls sw reg)"
    using assms by (intro one_stream_thread) (auto simp: canceller_step.simps)
  moreover have "internal_step (one_stream False Checking own cancel early calls sw reg) (one_stream False Blocking own cancel early calls sw reg)"
    "internal_step (one_stream False Blocking own cancel early calls sw reg) (one_stream False Waiting own cancel early calls sw reg)"
    by (auto intro!: one_stream_thread simp: canceller_step.simps)
  ultimately show ?thesis by (blast intro: converse_rtranclp_into_rtranclp)
qed

lemma one_stream_cancelled:
  "internal_step\<^sup>*\<^sup>* (one_stream True Woken own cancel early calls sw reg) (one_stream True Ended own True early calls sw reg)"
proof -
  have "internal_step (one_stream True Woken own cancel early calls sw reg) (one_stream True Checking own cancel early calls sw reg)"
    "internal_step (one_stream True Checking own cancel early calls sw reg) (one_stream True Passed own cancel early calls sw reg)"
    "internal_step (one_stream True Passed own cancel early calls sw reg) (one_stream True (Decided True) own cancel early calls sw reg)"
    "internal_step (one_stream True (Decided True) own cancel early calls sw reg) (one_stream True Ended own True early calls sw reg)"
    by (auto intro!: one_stream_thread simp: canceller_step.simps)
  then show ?thesis by (blast intro: converse_rtranclp_into_rtranclp)
qed

lemma one_stream_registers:
  "internal_step (one_stream stop th Constructing cancel early calls None reg) (one_stream stop th Reading cancel (\<not> stop) calls None (reg @ [0]))"
  using internal_step.register [of 0 "one_stream stop th Constructing cancel early calls None reg"]
  by (simp add: one_stream_def on_canceller_def)

lemma one_stream_sweeps:
  "internal_step (one_stream stop th own cancel early 1 None reg) (one_stream stop th own cancel early 0 (Some reg) reg)"
  using internal_step.begin_sweep [of "one_stream stop th own cancel early 1 None reg" 0] by (simp add: one_stream_def)

lemma one_stream_swept:
  "internal_step (one_stream stop th own cancel early calls (Some []) reg) (one_stream stop th own cancel early calls None reg)"
  using internal_step.end_sweep [of "one_stream stop th own cancel early calls (Some []) reg"] by (simp add: one_stream_def)

lemma internal_steps_reach: "internal_step\<^sup>*\<^sup>* s s' \<Longrightarrow> shutdown_reaches s \<Longrightarrow> shutdown_reaches s'"
  by (induction rule: rtranclp_induct) (auto intro: shutdown_reaches.internal)

lemma one_stream_opened: "shutdown_reaches (one_stream False Spawned Constructing False False 0 None [])"
  using shutdown_reaches.outside [OF shutdown_reaches.start outside_step.construct]
  by (simp add: no_streams_def new_canceller_def one_stream_def)

lemma one_stream_stop_requested:
  assumes "shutdown_reaches (one_stream False th own cancel early 0 None reg)"
  shows "shutdown_reaches (one_stream True th own cancel early 1 None reg)"
  using shutdown_reaches.outside [OF assms outside_step.request_stop] by (simp add: one_stream_def)

definition cancelled_state :: shutdown_state where
  "cancelled_state = one_stream True Ended Reading True True 0 None [0]"

lemma registered_in_time:
  "internal_step\<^sup>*\<^sup>* (one_stream False Spawned Constructing False False 0 None []) (one_stream False Waiting Reading False True 0 None [0])"
proof -
  have "internal_step (one_stream False Spawned Constructing False False 0 None []) (one_stream False Spawned Reading False True 0 None [0])"
    using one_stream_registers [of False Spawned False False 0 "[]"] by simp
  then show ?thesis using one_stream_checked [of Spawned] by (blast intro: converse_rtranclp_into_rtranclp)
qed

lemma cancelled_by_the_sweep:
  "internal_step\<^sup>*\<^sup>* (one_stream True Waiting Reading False True 1 None [0]) cancelled_state"
proof -
  have "internal_step (one_stream True Waiting Reading False True 1 None [0]) (one_stream True Waiting Reading False True 0 (Some [0]) [0])"
    by (rule one_stream_sweeps)
  moreover have "internal_step (one_stream True Waiting Reading False True 0 (Some [0]) [0]) (one_stream True Woken Reading False True 0 (Some []) [0])"
    using internal_step.notify_stop [of "one_stream True Waiting Reading False True 0 (Some [0]) [0]" 0 "[]"]
    by (simp add: one_stream_def on_canceller_def wake_def holds_mutex_def)
  moreover have "internal_step (one_stream True Woken Reading False True 0 (Some []) [0]) (one_stream True Woken Reading False True 0 None [0])"
    by (rule one_stream_swept)
  ultimately show ?thesis unfolding cancelled_state_def
    using one_stream_cancelled by (blast intro: converse_rtranclp_into_rtranclp)
qed

lemma cancelled_state_reached: "shutdown_reaches cancelled_state"
  by (rule internal_steps_reach [OF cancelled_by_the_sweep one_stream_stop_requested
        [OF internal_steps_reach [OF registered_in_time one_stream_opened]]])

theorem stop_cancels_registered_streams_witness:
  "shutdown_reaches cancelled_state \<and> \<not> (\<exists>s'. internal_step cancelled_state s')
   \<and> stop_flag cancelled_state \<and> list_all cancelled (cancellers cancelled_state)"
proof -
  have stuck: "\<not> (\<exists>s'. internal_step cancelled_state s')"
    by (auto simp: cancelled_state_def one_stream_def internal_step.simps canceller_step.simps)
  with stop_cancels_registered_streams [OF cancelled_state_reached] cancelled_state_reached show ?thesis
    by (auto simp: cancelled_state_def one_stream_def)
qed

text \<open>
  The constructor starts the thread before it registers the canceller. Between the two the thread
  can go to sleep and a stop can sweep the registry.
\<close>

definition missed_state :: shutdown_state where
  "missed_state = one_stream True Waiting Reading False False 0 None [0]"

lemma missed_by_the_sweep:
  "internal_step\<^sup>*\<^sup>* (one_stream True Waiting Constructing False False 1 None []) missed_state"
proof -
  have "internal_step (one_stream True Waiting Constructing False False 1 None [])
      (one_stream True Waiting Constructing False False 0 (Some []) [])"
    "internal_step (one_stream True Waiting Constructing False False 0 (Some []) [])
      (one_stream True Waiting Constructing False False 0 None [])"
    "internal_step (one_stream True Waiting Constructing False False 0 None []) missed_state"
    using one_stream_sweeps one_stream_swept one_stream_registers [of True Waiting False False 0 "[]"]
    by (simp_all add: missed_state_def)
  then show ?thesis by (blast intro: converse_rtranclp_into_rtranclp)
qed

lemma missed_state_stuck: "\<not> internal_step missed_state s'"
  by (auto simp: missed_state_def one_stream_def internal_step.simps canceller_step.simps)

section \<open>The code: waiting for signals\<close>

datatype signal = SIGINT | SIGTERM | SIGUSR1

definition kWatcherWakeupSignal :: signal where "kWatcherWakeupSignal = SIGUSR1"

text \<open>
  Where \<^verbatim>\<open>watch_for_shutdown_signal\<close> stands. Blocked signals are pending as a set: one that is
  sent twice is delivered once. \<open>joining\<close> says that the destructor has sent its signal, and
  \<open>real_signals\<close> counts the signals taken that were not the wakeup.
\<close>

datatype watch_phase = FirstWait | Requesting | SecondWait | WatchReturned | HardExit

record watcher =
  w_phase :: watch_phase
  pending :: "signal set"
  teardown_requested :: bool
  joining :: bool
  real_signals :: nat
  stop_requests :: nat

definition new_watcher :: watcher where
  "new_watcher = \<lparr>w_phase = FirstWait, pending = {}, teardown_requested = False, joining = False,
     real_signals = 0, stop_requests = 0\<rparr>"

text \<open>
  What \<^verbatim>\<open>wait_for_real_signal\<close> and its caller make of a signal. \<^verbatim>\<open>sigwait\<close> fails only on an invalid set; the
  exit that answers such a failure is left out, since the set is the fixed one of \<^verbatim>\<open>shutdown_signal_set\<close>.
\<close>

definition take_signal :: "signal \<Rightarrow> watcher \<Rightarrow> watcher" where
  "take_signal sig w =
     (let w = w\<lparr>pending := pending w - {sig}\<rparr>
      in if sig \<noteq> kWatcherWakeupSignal
         then w\<lparr>real_signals := real_signals w + 1,
                w_phase := (if w_phase w = FirstWait then Requesting else HardExit)\<rparr>
         else if teardown_requested w then w\<lparr>w_phase := WatchReturned\<rparr>
         else w)"

inductive watch_step :: "watcher \<Rightarrow> watcher \<Rightarrow> bool" where
  sigwait: "w_phase w \<in> {FirstWait, SecondWait} \<Longrightarrow> sig \<in> pending w \<Longrightarrow> watch_step w (take_signal sig w)"
| request: "w_phase w = Requesting \<Longrightarrow>
    watch_step w (w\<lparr>w_phase := SecondWait, stop_requests := stop_requests w + 1\<rparr>)"

text \<open>Signals are sent, and the destructor runs: the flag, then the signal to the thread.\<close>

inductive watch_outside :: "watcher \<Rightarrow> watcher \<Rightarrow> bool" where
  sent: "watch_outside w (w\<lparr>pending := insert sig (pending w)\<rparr>)"
| teardown: "watch_outside w (w\<lparr>teardown_requested := True\<rparr>)"
| wakeup: "teardown_requested w \<Longrightarrow>
    watch_outside w (w\<lparr>pending := insert kWatcherWakeupSignal (pending w), joining := True\<rparr>)"

inductive watch_reaches :: "watcher \<Rightarrow> bool" where
  start: "watch_reaches new_watcher"
| step: "watch_reaches w \<Longrightarrow> watch_step w w' \<Longrightarrow> watch_reaches w'"
| outside: "watch_reaches w \<Longrightarrow> watch_outside w w' \<Longrightarrow> watch_reaches w'"

section \<open>The watcher\<close>

definition watch_inv :: "watcher \<Rightarrow> bool" where
  "watch_inv w \<longleftrightarrow>
     (joining w \<longrightarrow> teardown_requested w)
     \<and> (joining w \<longrightarrow> w_phase w \<in> {WatchReturned, HardExit} \<or> kWatcherWakeupSignal \<in> pending w)
     \<and> (w_phase w = WatchReturned \<longrightarrow> teardown_requested w \<and> real_signals w \<le> 1 \<and> stop_requests w = real_signals w)
     \<and> (w_phase w = FirstWait \<longrightarrow> real_signals w = 0 \<and> stop_requests w = 0)
     \<and> (w_phase w = Requesting \<longrightarrow> real_signals w = 1 \<and> stop_requests w = 0)
     \<and> (w_phase w = SecondWait \<longrightarrow> real_signals w = 1 \<and> stop_requests w = 1)
     \<and> (w_phase w = HardExit \<longrightarrow> real_signals w = 2 \<and> stop_requests w = 1)"

lemma watch_reaches_inv: "watch_reaches w \<Longrightarrow> watch_inv w"
proof (induction rule: watch_reaches.induct)
  case start
  then show ?case by (simp add: watch_inv_def new_watcher_def)
next
  case (step w w')
  from step(2,3) show ?case
    by (induction rule: watch_step.induct) (auto simp: watch_inv_def take_signal_def Let_def)
next
  case (outside w w')
  from outside(2,3) show ?case by (induction rule: watch_outside.induct) (auto simp: watch_inv_def)
qed

fun phase_cost :: "watch_phase \<Rightarrow> nat" where
  "phase_cost Requesting = 1"
| "phase_cost _ = 0"

definition watch_cost :: "watcher \<Rightarrow> nat" where
  "watch_cost w = 2 * card (pending w) + phase_cost (w_phase w)"

lemma watch_step_cost: "watch_step w w' \<Longrightarrow> watch_cost w' < watch_cost w"
proof (induction rule: watch_step.induct)
  case (sigwait w sig)
  have "finite (pending w)" by (rule finite_subset [of _ "{SIGINT, SIGTERM, SIGUSR1}"]) (use signal.exhaust in auto)
  then have "card (pending w - {sig}) < card (pending w)" using sigwait by (intro card_Diff1_less)
  then show ?case using sigwait by (auto simp: watch_cost_def take_signal_def Let_def)
qed (simp add: watch_cost_def)

text \<open>
  The watcher never keeps the process from ending, and only a second signal ends it the hard way. In
  every reachable state: the watcher has returned only if its destructor asked for it, so a stray
  wakeup signal never disarms it; the hard exit needs two real signals, and the first of them
  requested exactly one stop. Its own steps are bounded, and once the destructor has sent its signal
  the thread has ended when none is left, so the join returns.
\<close>

lemma watcher_ends_when_asked:
  assumes "watch_reaches w"
  shows "w_phase w = WatchReturned \<Longrightarrow> teardown_requested w"
    "w_phase w = HardExit \<Longrightarrow> real_signals w = 2 \<and> stop_requests w = 1"
    "watch_step w w' \<Longrightarrow> watch_cost w' < watch_cost w"
    "joining w \<Longrightarrow> (\<And>w'. \<not> watch_step w w') \<Longrightarrow> w_phase w \<in> {WatchReturned, HardExit}"
proof -
  have inv: "watch_inv w" by (rule watch_reaches_inv [OF assms])
  then show "w_phase w = WatchReturned \<Longrightarrow> teardown_requested w"
    "w_phase w = HardExit \<Longrightarrow> real_signals w = 2 \<and> stop_requests w = 1" by (simp_all add: watch_inv_def)
  show "watch_step w w' \<Longrightarrow> watch_cost w' < watch_cost w" by (rule watch_step_cost)
  assume "joining w" "\<And>w'. \<not> watch_step w w'"
  moreover from this have "w_phase w \<noteq> Requesting" using watch_step.request by blast
  moreover have "w_phase w \<in> {FirstWait, SecondWait} \<Longrightarrow> kWatcherWakeupSignal \<notin> pending w"
    using calculation watch_step.sigwait by blast
  ultimately show "w_phase w \<in> {WatchReturned, HardExit}"
    using inv by (cases "w_phase w") (auto simp: watch_inv_def)
qed

end
