(* ===== verification/Client_Life.thy ===== *)
theory Client_Life
  imports Client_Shutdown
begin

text \<open>
  The rest of \<^verbatim>\<open>main\<close> of the client, with everything that runs beside it: the duration, the joining of
  the publishers and the destructor of the signal watcher, composed with the cancellers of the
  publishers' streams and with the watcher thread. \<^verbatim>\<open>reader->Finish()\<close>, which a publisher calls once its
  read loop has ended, is taken to return: it does for a stream that was cancelled or that the server
  ended, and a server that does neither is the stream still being read. After the timer's \<^verbatim>\<open>request_stop\<close> the model lets
  \<^verbatim>\<open>main\<close> go on to the join before the sweep of the registry has ended, so it has all interleavings of
  the program and some more.
\<close>

section \<open>The code\<close>

datatype life_phase = Polling | AtDeadline | JoiningPublishers | TearingDown | LifeReturned

text \<open>
  \<open>lf_unopened\<close> counts the publishers that have not constructed their canceller; the publisher of
  canceller \<open>i\<close> has returned when \<open>i \<in> lf_ended\<close>.
\<close>

record client_life =
  lf_main :: life_phase
  lf_unopened :: nat
  lf_ended :: "nat set"
  lf_streams :: shutdown_state
  lf_watch :: watcher

definition life_start :: "int \<Rightarrow> nat \<Rightarrow> client_life" where
  "life_start duration_s books =
     \<lparr>lf_main = (if duration_s > 0 then Polling else JoiningPublishers), lf_unopened = books, lf_ended = {},
      lf_streams = no_streams, lf_watch = new_watcher\<rparr>"

definition stop_called :: "shutdown_state \<Rightarrow> shutdown_state" where
  "stop_called s = s\<lparr>stop_flag := True, stop_calls := stop_calls s + 1\<rparr>"

text \<open>The process is there until \<^verbatim>\<open>main\<close> returns or a second signal ends it.\<close>

definition running :: "client_life \<Rightarrow> bool" where
  "running s \<longleftrightarrow> lf_main s \<noteq> LifeReturned \<and> w_phase (lf_watch s) \<noteq> HardExit"

inductive life_step :: "client_life \<Rightarrow> client_life \<Rightarrow> bool" where
  opens: "running s \<Longrightarrow> lf_unopened s = Suc n \<Longrightarrow>
    life_step s (s\<lparr>lf_unopened := n,
      lf_streams := (lf_streams s)\<lparr>cancellers := cancellers (lf_streams s) @ [new_canceller]\<rparr>\<rparr>)"
| streams: "running s \<Longrightarrow> internal_step (lf_streams s) t \<Longrightarrow> life_step s (s\<lparr>lf_streams := t\<rparr>)"
| publisher_ends: "running s \<Longrightarrow> i < length (cancellers (lf_streams s)) \<Longrightarrow>
    cn_owner (cancellers (lf_streams s) ! i) = Destroyed \<Longrightarrow> i \<notin> lf_ended s \<Longrightarrow>
    life_step s (s\<lparr>lf_ended := insert i (lf_ended s)\<rparr>)"
| watch: "running s \<Longrightarrow> watch_step (lf_watch s) w \<Longrightarrow>
    life_step s (s\<lparr>lf_watch := w,
      lf_streams := (if stop_requests w \<noteq> stop_requests (lf_watch s) then stop_called (lf_streams s) else lf_streams s)\<rparr>)"
| stop_noticed: "running s \<Longrightarrow> lf_main s = Polling \<Longrightarrow> stop_flag (lf_streams s) \<Longrightarrow>
    life_step s (s\<lparr>lf_main := JoiningPublishers\<rparr>)"
| time_over: "running s \<Longrightarrow> lf_main s = AtDeadline \<Longrightarrow>
    life_step s (s\<lparr>lf_main := JoiningPublishers,
      lf_streams := (if \<not> stop_flag (lf_streams s) then stop_called (lf_streams s) else lf_streams s)\<rparr>)"
| joined: "running s \<Longrightarrow> lf_main s = JoiningPublishers \<Longrightarrow> lf_unopened s = 0 \<Longrightarrow>
    lf_ended s = {..<length (cancellers (lf_streams s))} \<Longrightarrow>
    life_step s (s\<lparr>lf_main := TearingDown, lf_watch := (lf_watch s)\<lparr>teardown_requested := True\<rparr>\<rparr>)"
| wakes_watcher: "running s \<Longrightarrow> lf_main s = TearingDown \<Longrightarrow> \<not> joining (lf_watch s) \<Longrightarrow>
    life_step s (s\<lparr>lf_watch := (lf_watch s)\<lparr>pending := insert kWatcherWakeupSignal (pending (lf_watch s)), joining := True\<rparr>\<rparr>)"
| returns: "running s \<Longrightarrow> lf_main s = TearingDown \<Longrightarrow> joining (lf_watch s) \<Longrightarrow> w_phase (lf_watch s) = WatchReturned \<Longrightarrow>
    life_step s (s\<lparr>lf_main := LifeReturned\<rparr>)"

text \<open>From outside: time, signals, the end of a stream, a wakeup without a reason.\<close>

inductive life_event :: "client_life \<Rightarrow> client_life \<Rightarrow> bool" where
  deadline: "running s \<Longrightarrow> lf_main s = Polling \<Longrightarrow> life_event s (s\<lparr>lf_main := AtDeadline\<rparr>)"
| signalled: "running s \<Longrightarrow> life_event s (s\<lparr>lf_watch := (lf_watch s)\<lparr>pending := insert sig (pending (lf_watch s))\<rparr>\<rparr>)"
| read_ends: "running s \<Longrightarrow> i < length (cancellers (lf_streams s)) \<Longrightarrow>
    cn_owner (cancellers (lf_streams s) ! i) = Reading \<Longrightarrow> sweep (lf_streams s) = None \<Longrightarrow>
    life_event s (s\<lparr>lf_streams := (on_canceller i (\<lambda>c. c\<lparr>cn_owner := Deregistered\<rparr>) (lf_streams s))
      \<lparr>registry := removeAll i (registry (lf_streams s))\<rparr>\<rparr>)"
| spurious: "running s \<Longrightarrow> i < length (cancellers (lf_streams s)) \<Longrightarrow>
    life_event s (s\<lparr>lf_streams := on_canceller i wake (lf_streams s)\<rparr>)"

inductive life_reaches :: "client_life \<Rightarrow> client_life \<Rightarrow> bool" for s0 where
  init: "life_reaches s0 s0"
| step: "life_reaches s0 s \<Longrightarrow> life_step s s' \<Longrightarrow> life_reaches s0 s'"
| event: "life_reaches s0 s \<Longrightarrow> life_event s s' \<Longrightarrow> life_reaches s0 s'"

section \<open>The parts of a life\<close>

text \<open>The streams and the watcher move as they do by themselves.\<close>

lemma stop_called_reached: "shutdown_reaches s \<Longrightarrow> shutdown_reaches (stop_called s)"
  unfolding stop_called_def by (rule shutdown_reaches.outside [OF _ outside_step.request_stop])

lemma opened_reached: "shutdown_reaches s \<Longrightarrow> shutdown_reaches (s\<lparr>cancellers := cancellers s @ [new_canceller]\<rparr>)"
  by (rule shutdown_reaches.outside [OF _ outside_step.construct])

lemma life_step_parts:
  "life_step s s' \<Longrightarrow> shutdown_reaches (lf_streams s) \<Longrightarrow> watch_reaches (lf_watch s) \<Longrightarrow> 
     (lf_main s = TearingDown \<longrightarrow> teardown_requested (lf_watch s)) \<Longrightarrow>
   shutdown_reaches (lf_streams s') \<and> watch_reaches (lf_watch s')"
proof (induction rule: life_step.induct)
  case (joined s)
  then show ?case using watch_reaches.outside [OF _ watch_outside.teardown] by simp
next
  case (wakes_watcher s)
  then show ?case using watch_reaches.outside [OF _ watch_outside.wakeup] by simp
qed (auto intro: stop_called_reached opened_reached shutdown_reaches.internal watch_reaches.step)

lemma life_event_parts:
  "life_event s s' \<Longrightarrow> shutdown_reaches (lf_streams s) \<Longrightarrow> watch_reaches (lf_watch s) \<Longrightarrow>
   shutdown_reaches (lf_streams s') \<and> watch_reaches (lf_watch s')"
proof (induction rule: life_event.induct)
  case (read_ends s i)
  then show ?case using shutdown_reaches.outside [OF _ outside_step.read_loop_ends] by simp
qed (auto intro: shutdown_reaches.outside outside_step.spurious watch_reaches.outside watch_outside.sent)

lemma canceller_step_destroyed: "canceller_step stop c c' \<Longrightarrow> cn_owner c = Destroyed \<Longrightarrow> cn_owner c' = Destroyed"
  by (induction rule: canceller_step.induct) auto

text \<open>The cancellers that have been destroyed.\<close>

definition gone :: "shutdown_state \<Rightarrow> nat set" where
  "gone t = {i. i < length (cancellers t) \<and> cn_owner (cancellers t ! i) = Destroyed}"

lemma gone_update:
  assumes "cn_owner (cancellers t ! i) = Destroyed \<Longrightarrow> cn_owner (f (cancellers t ! i)) = Destroyed"
  shows "gone t \<subseteq> gone (on_canceller i f t)"
proof
  fix j assume "j \<in> gone t"
  then show "j \<in> gone (on_canceller i f t)" using assms by (cases "j = i") (simp_all add: gone_def)
qed

lemma gone_more [simp]:
  "gone (t\<lparr>registry := r\<rparr>) = gone t" "gone (t\<lparr>sweep := l\<rparr>) = gone t" "gone (t\<lparr>stop_calls := n\<rparr>) = gone t"
  "gone (stop_called t) = gone t"
  by (simp_all add: gone_def stop_called_def)

lemma gone_opened: "gone t \<subseteq> gone (t\<lparr>cancellers := cancellers t @ [c]\<rparr>)"
  by (auto simp: gone_def nth_append)

lemma internal_step_keeps:
  "internal_step t t' \<Longrightarrow> length (cancellers t') = length (cancellers t) \<and> stop_flag t' = stop_flag t \<and> gone t \<subseteq> gone t'"
proof (induction rule: internal_step.induct)
  case (canceller i t c)
  then show ?case using gone_update [of t i "\<lambda>_. c"] canceller_step_destroyed [OF canceller(2)] by simp
next
  case (register i t)
  then show ?case using gone_update [of t i "\<lambda>c. c\<lparr>cn_owner := Reading, in_time := \<not> stop_flag t\<rparr>"] by simp
next
  case (notify_stop t i rest)
  then show ?case using gone_update [of t i wake] by simp
qed simp_all

lemma watch_step_keeps:
  "watch_step w w' \<Longrightarrow> stop_requests w \<le> stop_requests w' \<and> teardown_requested w' = teardown_requested w \<and> joining w' = joining w"
  by (induction rule: watch_step.induct) (auto simp: take_signal_def Let_def)

section \<open>The invariant\<close>

abbreviation past_join :: "client_life \<Rightarrow> bool" where
  "past_join s \<equiv> lf_main s \<in> {TearingDown, LifeReturned}"

definition life_inv :: "int \<Rightarrow> nat \<Rightarrow> client_life \<Rightarrow> bool" where
  "life_inv d n s \<longleftrightarrow>
     lf_unopened s + length (cancellers (lf_streams s)) = n
     \<and> lf_ended s \<subseteq> gone (lf_streams s)
     \<and> (past_join s \<longrightarrow> lf_unopened s = 0 \<and> lf_ended s = {..<length (cancellers (lf_streams s))})
     \<and> (teardown_requested (lf_watch s) \<longleftrightarrow> past_join s)
     \<and> (lf_main s = LifeReturned \<longrightarrow> w_phase (lf_watch s) = WatchReturned)
     \<and> (lf_main s \<in> {Polling, AtDeadline} \<longrightarrow> 0 < d)
     \<and> (stop_flag (lf_streams s) \<longrightarrow> 0 < stop_requests (lf_watch s) \<or> 0 < d)"

lemma stop_called_simps [simp]: "cancellers (stop_called t) = cancellers t" "stop_flag (stop_called t)"
  by (simp_all add: stop_called_def)

lemma life_step_inv: "life_step s s' \<Longrightarrow> life_inv d n s \<Longrightarrow> life_inv d n s'"
proof (induction rule: life_step.induct)
  case (opens s m)
  with gone_opened [of "lf_streams s" new_canceller] show ?case by (auto simp: life_inv_def)
next
  case (streams s t)
  with internal_step_keeps [OF streams(2)] show ?case by (auto simp: life_inv_def)
next
  case (watch s w)
  with watch_step_keeps [OF watch(2)] show ?case
    by (cases "stop_requests w = stop_requests (lf_watch s)") (auto simp: life_inv_def running_def)
next
  case (publisher_ends s i)
  then have "i \<in> gone (lf_streams s)" by (simp add: gone_def)
  with publisher_ends show ?case by (auto simp: life_inv_def gone_def)
qed (auto simp: life_inv_def running_def)

lemma life_event_inv: "life_event s s' \<Longrightarrow> life_inv d n s \<Longrightarrow> life_inv d n s'"
proof (induction rule: life_event.induct)
  case (read_ends s i)
  then show ?case using gone_update [of "lf_streams s" i "\<lambda>c. c\<lparr>cn_owner := Deregistered\<rparr>"] by (auto simp: life_inv_def)
next
  case (spurious s i)
  then show ?case using gone_update [of "lf_streams s" i wake] by (auto simp: life_inv_def)
qed (auto simp: life_inv_def)

lemma life_start_inv: "life_inv d n (life_start d n)"
  by (auto simp: life_inv_def life_start_def no_streams_def new_watcher_def)

lemma life_reaches_inv:
  "life_reaches (life_start d n) s \<Longrightarrow> life_inv d n s \<and> shutdown_reaches (lf_streams s) \<and> watch_reaches (lf_watch s)"
proof (induction rule: life_reaches.induct)
  case init
  have "lf_streams (life_start d n) = no_streams" "lf_watch (life_start d n) = new_watcher"
    by (simp_all add: life_start_def)
  then show ?case using life_start_inv shutdown_reaches.start watch_reaches.start by simp
next
  case (step s s')
  have "lf_main s = TearingDown \<longrightarrow> teardown_requested (lf_watch s)" using step.IH by (simp add: life_inv_def)
  then show ?case using step.IH life_step_inv [OF step(2)] life_step_parts [OF step(2)] by blast
next
  case (event s s')
  then show ?case using life_event_inv [OF event(2)] life_event_parts [OF event(2)] by blast
qed

section \<open>Progress\<close>

fun life_rank :: "life_phase \<Rightarrow> nat" where
  "life_rank Polling = 4"
| "life_rank AtDeadline = 3"
| "life_rank JoiningPublishers = 2"
| "life_rank TearingDown = 1"
| "life_rank LifeReturned = 0"

definition outer_work :: "client_life \<Rightarrow> nat" where
  "outer_work s = life_rank (lf_main s) + 2 * lf_unopened s + (length (cancellers (lf_streams s)) - card (lf_ended s))
     + watch_cost (lf_watch s) + (if joining (lf_watch s) then 0 else 3)"

text \<open>A step does some of the outer work, or leaves it and lowers what the cancellers have to do.\<close>

definition life_order :: "(client_life \<times> client_life) set" where
  "life_order = inv_image (less_than <*lex*> less_than) (\<lambda>s. (outer_work s, shutdown_cost (lf_streams s)))"

lemma wf_life_order: "wf life_order"
  by (simp add: life_order_def wf_lex_prod)

lemma finite_signals: "finite (A :: signal set)"
  by (rule finite_subset [of _ "{SIGINT, SIGTERM, SIGUSR1}"]) (use signal.exhaust in auto)

lemma watch_cost_insert:
  "watch_cost (w\<lparr>pending := insert sig (pending w), joining := b\<rparr>) \<le> watch_cost w + 2"
  using card_insert_le_m1 [of "Suc (card (pending w))" "pending w" sig] finite_signals [of "pending w"]
  by (simp add: watch_cost_def card_insert_if)

lemma life_step_order:
  assumes "life_step s s'" "life_inv d n s" "shutdown_inv (lf_streams s)"
  shows "(s', s) \<in> life_order"
  using assms
proof (induction rule: life_step.induct)
  case (opens s m)
  have "Suc (length (cancellers (lf_streams s))) - card (lf_ended s)
      \<le> Suc (length (cancellers (lf_streams s)) - card (lf_ended s))" by linarith
  with opens show ?case by (simp add: life_order_def outer_work_def)
next
  case (streams s t)
  then show ?case using internal_step_keeps [OF streams(2)] internal_step_cost [OF streams(2)]
    by (simp add: life_order_def outer_work_def)
next
  case (publisher_ends s i)
  have sub: "lf_ended s \<subseteq> {..<length (cancellers (lf_streams s))}" using publisher_ends by (auto simp: life_inv_def gone_def)
  then have fin: "finite (lf_ended s)" by (rule finite_subset) simp
  have "insert i (lf_ended s) \<subseteq> {..<length (cancellers (lf_streams s))}" using sub publisher_ends(2) by simp
  then have "card (insert i (lf_ended s)) \<le> length (cancellers (lf_streams s))" using card_mono [OF finite_lessThan] by fastforce
  with fin publisher_ends(4) show ?case by (simp add: life_order_def outer_work_def)
next
  case (watch s w)
  then show ?case using watch_step_cost [OF watch(2)] watch_step_keeps [OF watch(2)]
    by (simp add: life_order_def outer_work_def)
next
  case (wakes_watcher s)
  then show ?case using watch_cost_insert [where w = "lf_watch s" and sig = kWatcherWakeupSignal and b = True]
    by (simp add: life_order_def outer_work_def)
qed (simp_all add: life_order_def outer_work_def watch_cost_def)

lemma life_stuck:
  assumes inv: "life_inv d n s" "shutdown_inv (lf_streams s)" "watch_reaches (lf_watch s)" and run: "running s"
    and stuck: "\<And>s'. \<not> life_step s s'"
  shows "lf_main s = Polling \<and> \<not> stop_flag (lf_streams s)
    \<or> lf_main s = JoiningPublishers \<and> (\<exists>c \<in> set (cancellers (lf_streams s)). cn_owner c = Reading)"
proof (cases "lf_main s")
  case JoiningPublishers
  have quiet: "quiescent (lf_streams s)" using stuck life_step.streams [OF run] by (auto simp: quiescent_def)
  have "lf_unopened s = 0" using stuck life_step.opens [OF run] by (cases "lf_unopened s") auto
  then have "lf_ended s \<noteq> {..<length (cancellers (lf_streams s))}"
    using stuck life_step.joined [OF run JoiningPublishers] by blast
  then obtain i where i: "i < length (cancellers (lf_streams s))" "i \<notin> lf_ended s"
    using inv(1) by (auto simp: life_inv_def gone_def)
  then have "cn_owner (cancellers (lf_streams s) ! i) \<noteq> Destroyed" using stuck life_step.publisher_ends [OF run] by blast
  then have "cn_owner (cancellers (lf_streams s) ! i) = Reading"
    using quiescent_canceller(1) [OF quiet inv(2) i(1)] by simp
  with i(1) JoiningPublishers show ?thesis using nth_mem by blast
next
  case TearingDown
  then have j: "joining (lf_watch s)" using stuck life_step.wakes_watcher [OF run] by blast
  have "\<not> watch_step (lf_watch s) w" for w using stuck life_step.watch [OF run] by blast
  from watcher_ends_when_asked(4) [OF inv(3) j this] have "w_phase (lf_watch s) = WatchReturned"
    using run by (simp add: running_def)
  then show ?thesis using stuck life_step.returns [OF run TearingDown j] by blast
qed (use run stuck life_step.stop_noticed [OF run] life_step.time_over [OF run] in \<open>auto simp: running_def\<close>)

section \<open>How the client ends\<close>

lemma returned_clean:
  assumes inv: "life_inv d n s" and sinv: "shutdown_inv (lf_streams s)" and ret: "lf_main s = LifeReturned"
  shows "length (cancellers (lf_streams s)) = n
    \<and> (\<forall>c \<in> set (cancellers (lf_streams s)). cn_owner c = Destroyed \<and> cn_thread c = Ended)
    \<and> registry (lf_streams s) = [] \<and> w_phase (lf_watch s) = WatchReturned"
proof -
  have all: "i \<in> gone (lf_streams s)" if "i < length (cancellers (lf_streams s))" for i
    using inv ret that by (auto simp: life_inv_def)
  have "cn_owner c = Destroyed \<and> cn_thread c = Ended" if "c \<in> set (cancellers (lf_streams s))" for c
    using that all sinv by (auto simp: in_set_conv_nth gone_def shutdown_inv_def canceller_inv_def)
  moreover have "reading (cancellers (lf_streams s)) = {}" using all by (auto simp: reading_def gone_def)
  then have "registry (lf_streams s) = []" using sinv by (simp add: shutdown_inv_def registry_inv_def)
  ultimately show ?thesis using inv ret by (simp add: life_inv_def)
qed

text \<open>
  C21. The client ends in order. In every state that a client with any duration and any number of
  books can reach: when \<^verbatim>\<open>main\<close> has returned, every publisher had its stream, no canceller and no
  thread of one is left, none is registered, and the watcher has ended; the process is ended by force
  only by a second signal; without a duration the streams run until a signal or the server ends
  them. The program's own steps cannot go on for ever, and when none is left \<^verbatim>\<open>main\<close> waits for its
  deadline, or for streams that are still read, and those that were registered before a stop have
  been cancelled.
\<close>

theorem client_ends_in_order:
  assumes "life_reaches (life_start d n) s"
  shows "(lf_main s = LifeReturned \<longrightarrow> length (cancellers (lf_streams s)) = n
         \<and> (\<forall>c \<in> set (cancellers (lf_streams s)). cn_owner c = Destroyed \<and> cn_thread c = Ended)
         \<and> registry (lf_streams s) = [] \<and> w_phase (lf_watch s) = WatchReturned)
    \<and> (w_phase (lf_watch s) = HardExit \<longrightarrow> real_signals (lf_watch s) = 2)
    \<and> (d \<le> 0 \<and> real_signals (lf_watch s) = 0 \<longrightarrow> \<not> stop_flag (lf_streams s))
    \<and> wf life_order \<and> (\<forall>s'. life_step s s' \<longrightarrow> (s', s) \<in> life_order)
    \<and> (running s \<and> (\<forall>s'. \<not> life_step s s') \<longrightarrow>
         lf_main s = Polling \<and> \<not> stop_flag (lf_streams s)
         \<or> lf_main s = JoiningPublishers \<and> (\<exists>c \<in> set (cancellers (lf_streams s)). cn_owner c = Reading)
           \<and> (\<forall>c \<in> set (cancellers (lf_streams s)).
                cn_owner c = Reading \<and> stop_flag (lf_streams s) \<and> in_time c \<longrightarrow> cancelled c))"
proof -
  have inv: "life_inv d n s" and reached: "shutdown_reaches (lf_streams s)" "watch_reaches (lf_watch s)"
    using life_reaches_inv [OF assms] by simp_all
  have sinv: "shutdown_inv (lf_streams s)" by (rule shutdown_reaches_inv [OF reached(1)])
  have winv: "watch_inv (lf_watch s)" by (rule watch_reaches_inv [OF reached(2)])
  have "length (cancellers (lf_streams s)) = n
      \<and> (\<forall>c \<in> set (cancellers (lf_streams s)). cn_owner c = Destroyed \<and> cn_thread c = Ended)
      \<and> registry (lf_streams s) = [] \<and> w_phase (lf_watch s) = WatchReturned" if "lf_main s = LifeReturned"
    using returned_clean [OF inv sinv that] .
  moreover have "\<not> stop_flag (lf_streams s)" if "d \<le> 0" "real_signals (lf_watch s) = 0"
    using inv winv that by (cases "w_phase (lf_watch s)") (auto simp: life_inv_def watch_inv_def)
  moreover have "\<forall>c \<in> set (cancellers (lf_streams s)).
      cn_owner c = Reading \<and> stop_flag (lf_streams s) \<and> in_time c \<longrightarrow> cancelled c"
    if "running s" "\<forall>s'. \<not> life_step s s'"
    using quiescent_canceller(2) [OF _ sinv] life_step.streams [OF that(1)] that(2)
    by (fastforce simp: quiescent_def in_set_conv_nth)
  ultimately show ?thesis
    using life_stuck [OF inv sinv reached(2)] life_step_order [OF _ inv sinv] wf_life_order winv
    by (auto simp: watch_inv_def)
qed

section \<open>Runs with one stream\<close>

definition one_life :: "life_phase \<Rightarrow> nat set \<Rightarrow> shutdown_state \<Rightarrow> watcher \<Rightarrow> client_life" where
  "one_life m ended t w = \<lparr>lf_main = m, lf_unopened = 0, lf_ended = ended, lf_streams = t, lf_watch = w\<rparr>"

lemma one_life_opened:
  "0 < d \<Longrightarrow>
   life_reaches (life_start d 1) (one_life Polling {} (one_stream False Spawned Constructing False False 0 None []) new_watcher)"
  using life_reaches.step [OF life_reaches.init life_step.opens [of "life_start d 1" 0]]
  by (simp add: life_start_def running_def one_life_def one_stream_def no_streams_def new_canceller_def new_watcher_def)

lemma one_life_streams:
  assumes "internal_step\<^sup>*\<^sup>* t t'" "life_reaches s0 (one_life m ended t w)" "m \<noteq> LifeReturned" "w_phase w \<noteq> HardExit"
  shows "life_reaches s0 (one_life m ended t' w)"
  using assms(1,2)
proof (induction rule: rtranclp_induct)
  case (step t t')
  then have "life_step (one_life m ended t w) ((one_life m ended t w)\<lparr>lf_streams := t'\<rparr>)"
    using assms(3,4) by (intro life_step.streams) (simp_all add: running_def one_life_def)
  then show ?case using life_reaches.step [OF step.IH [OF step.prems]] by (simp add: one_life_def)
qed

lemma one_life_stopped:
  assumes "life_reaches s0 (one_life Polling {} (one_stream False th own cancel early 0 None reg) new_watcher)"
  shows "life_reaches s0 (one_life JoiningPublishers {} (one_stream True th own cancel early 1 None reg) new_watcher)"
proof -
  let ?s = "one_life Polling {} (one_stream False th own cancel early 0 None reg) new_watcher"
  have "life_event ?s (?s\<lparr>lf_main := AtDeadline\<rparr>)"
    by (rule life_event.deadline) (simp_all add: running_def one_life_def new_watcher_def)
  from life_step.time_over [of "?s\<lparr>lf_main := AtDeadline\<rparr>"] life_reaches.event [OF assms this]
  show ?thesis
    using life_reaches.step by (fastforce simp: running_def one_life_def new_watcher_def stop_called_def one_stream_def)
qed

text \<open>
  C40. The client can hang after its stop. With any positive duration and one book there is a run
  after which \<^verbatim>\<open>main\<close> waits for the publisher, the stop was requested and carried out, nothing is left
  that the program does by itself, and the stream is still being read and was not cancelled: its
  canceller, which starts its thread before it registers, sleeps. What can still happen to such a client
  comes from outside: a signal, a wakeup of the canceller without a reason, or the end of the stream
  by the server; the duration, which is over, is none of them.
\<close>

theorem client_can_hang_after_stop:
  assumes "0 < d"
  shows "life_reaches (life_start d 1) (one_life JoiningPublishers {} missed_state new_watcher)
   \<and> running (one_life JoiningPublishers {} missed_state new_watcher)
   \<and> stop_flag missed_state \<and> map cn_owner (cancellers missed_state) = [Reading]
   \<and> map cancelled (cancellers missed_state) = [False]
   \<and> \<not> (\<exists>s'. life_step (one_life JoiningPublishers {} missed_state new_watcher) s')
   \<and> (\<forall>s'. life_event (one_life JoiningPublishers {} missed_state new_watcher) s' \<longrightarrow>
        (\<exists>sig. s' = one_life JoiningPublishers {} missed_state (new_watcher\<lparr>pending := {sig}\<rparr>))
        \<or> s' = one_life JoiningPublishers {} (on_canceller 0 wake missed_state) new_watcher
        \<or> map cn_owner (cancellers (lf_streams s')) = [Deregistered])"
proof -
  have "life_reaches (life_start d 1) (one_life Polling {} (one_stream False Waiting Constructing False False 0 None []) new_watcher)"
    using one_life_streams [OF one_stream_checked one_life_opened [OF assms]] by (simp add: new_watcher_def)
  then have "life_reaches (life_start d 1) (one_life JoiningPublishers {} missed_state new_watcher)"
    using one_life_streams [OF missed_by_the_sweep one_life_stopped] by (simp add: new_watcher_def)
  moreover have "\<not> life_step (one_life JoiningPublishers {} missed_state new_watcher) s'" for s'
    using missed_state_stuck
    by (auto simp: life_step.simps one_life_def watch_step.simps new_watcher_def)
      (auto simp: missed_state_def one_stream_def)
  moreover have "(\<exists>sig. s' = one_life JoiningPublishers {} missed_state (new_watcher\<lparr>pending := {sig}\<rparr>))
      \<or> s' = one_life JoiningPublishers {} (on_canceller 0 wake missed_state) new_watcher
      \<or> map cn_owner (cancellers (lf_streams s')) = [Deregistered]"
    if "life_event (one_life JoiningPublishers {} missed_state new_watcher) s'" for s'
    using that
    by (cases rule: life_event.cases)
      (auto simp: one_life_def new_watcher_def missed_state_def one_stream_def on_canceller_def)
  moreover have "running (one_life JoiningPublishers {} missed_state new_watcher)"
    by (simp add: running_def one_life_def new_watcher_def)
  ultimately show ?thesis by (auto simp: missed_state_def one_stream_def)
qed

theorem client_can_hang_after_stop_witness:
  "life_reaches (life_start 5 1) (one_life JoiningPublishers {} missed_state new_watcher)
   \<and> \<not> (\<exists>s'. life_step (one_life JoiningPublishers {} missed_state new_watcher) s')"
  using client_can_hang_after_stop [of 5] by simp

text \<open>The run that registers in time: the stop cancels the stream, and the client ends.\<close>

definition stream_left :: "owner_phase \<Rightarrow> bool \<Rightarrow> shutdown_state" where
  "stream_left own finished = \<lparr>stop_flag = True,
     cancellers = [\<lparr>cn_thread = Ended, cn_owner = own, read_loop_done = finished, cancelled = True, in_time = True\<rparr>],
     registry = [], stop_calls = 0, sweep = None\<rparr>"

lemma stream_left_steps: "internal_step\<^sup>*\<^sup>* (stream_left Deregistered False) (stream_left Destroyed True)"
proof -
  have "internal_step (stream_left own b) (stream_left own' b')"
    if "canceller_step True (cancellers (stream_left own b) ! 0) (cancellers (stream_left own' b') ! 0)" for own own' b b'
    using internal_step.canceller [of 0 "stream_left own b"] that by (simp add: stream_left_def on_canceller_def)
  then have "internal_step (stream_left Deregistered False) (stream_left DoneSet True)"
    "internal_step (stream_left DoneSet True) (stream_left Joining True)"
    "internal_step (stream_left Joining True) (stream_left Destroyed True)"
    by (auto simp: stream_left_def canceller_step.simps holds_mutex_def wake_def)
  then show ?thesis by (blast intro: converse_rtranclp_into_rtranclp)
qed

definition watcher_left :: "watch_phase \<Rightarrow> signal set \<Rightarrow> bool \<Rightarrow> watcher" where
  "watcher_left ph sigs j = \<lparr>w_phase = ph, pending = sigs, teardown_requested = True, joining = j,
     real_signals = 0, stop_requests = 0\<rparr>"

definition ended_life :: client_life where
  "ended_life = one_life LifeReturned {0} (stream_left Destroyed True) (watcher_left WatchReturned {} True)"

lemma stopped_life_reached: "life_reaches (life_start 5 1) (one_life JoiningPublishers {} (stream_left Destroyed True) new_watcher)"
proof -
  let ?s = "one_life JoiningPublishers {} cancelled_state new_watcher"
  have "life_reaches (life_start 5 1) (one_life Polling {} (one_stream False Waiting Reading False True 0 None [0]) new_watcher)"
    using one_life_streams [OF registered_in_time one_life_opened [of 5]] by (simp add: new_watcher_def)
  then have "life_reaches (life_start 5 1) ?s"
    using one_life_streams [OF cancelled_by_the_sweep one_life_stopped] by (simp add: new_watcher_def)
  from life_reaches.event [OF this life_event.read_ends [of ?s 0]]
  have "life_reaches (life_start 5 1) (one_life JoiningPublishers {} (stream_left Deregistered False) new_watcher)"
    by (simp add: one_life_def running_def new_watcher_def cancelled_state_def one_stream_def stream_left_def on_canceller_def)
  then show ?thesis using one_life_streams [OF stream_left_steps] by (simp add: new_watcher_def)
qed

lemma ended_life_reached: "life_reaches (life_start 5 1) ended_life"
proof -
  note defs = ended_life_def one_life_def running_def new_watcher_def stream_left_def watcher_left_def
    take_signal_def kWatcherWakeupSignal_def Let_def
  have "life_step (one_life JoiningPublishers {} (stream_left Destroyed True) new_watcher)
      (one_life JoiningPublishers {0} (stream_left Destroyed True) new_watcher)"
    using life_step.publisher_ends [of "one_life JoiningPublishers {} (stream_left Destroyed True) new_watcher" 0]
    by (simp add: defs)
  moreover have "life_step (one_life JoiningPublishers {0} (stream_left Destroyed True) new_watcher)
      (one_life TearingDown {0} (stream_left Destroyed True) (watcher_left FirstWait {} False))"
    using life_step.joined [of "one_life JoiningPublishers {0} (stream_left Destroyed True) new_watcher"]
    by (simp add: defs lessThan_Suc)
  moreover have "life_step (one_life TearingDown {0} (stream_left Destroyed True) (watcher_left FirstWait {} False))
      (one_life TearingDown {0} (stream_left Destroyed True) (watcher_left FirstWait {SIGUSR1} True))"
    using life_step.wakes_watcher [of "one_life TearingDown {0} (stream_left Destroyed True) (watcher_left FirstWait {} False)"]
    by (simp add: defs)
  moreover have "life_step (one_life TearingDown {0} (stream_left Destroyed True) (watcher_left FirstWait {SIGUSR1} True))
      (one_life TearingDown {0} (stream_left Destroyed True) (watcher_left WatchReturned {} True))"
    using life_step.watch [OF _ watch_step.sigwait [of _ SIGUSR1],
        of "one_life TearingDown {0} (stream_left Destroyed True) (watcher_left FirstWait {SIGUSR1} True)"]
    by (simp add: defs)
  moreover have "life_step (one_life TearingDown {0} (stream_left Destroyed True) (watcher_left WatchReturned {} True)) ended_life"
    using life_step.returns [of "one_life TearingDown {0} (stream_left Destroyed True) (watcher_left WatchReturned {} True)"]
    by (simp add: defs)
  ultimately show ?thesis
    using life_reaches.step [OF life_reaches.step [OF life_reaches.step [OF life_reaches.step [OF life_reaches.step
            [OF stopped_life_reached]]]]] by blast
qed

theorem client_ends_in_order_witness:
  "life_reaches (life_start 5 1) ended_life \<and> lf_main ended_life = LifeReturned
   \<and> list_all (\<lambda>c. cn_owner c = Destroyed \<and> cn_thread c = Ended \<and> cancelled c) (cancellers (lf_streams ended_life))
   \<and> registry (lf_streams ended_life) = []"
proof -
  have "lf_main ended_life = LifeReturned" "list_all cancelled (cancellers (lf_streams ended_life))"
    by (simp_all add: ended_life_def one_life_def stream_left_def)
  with client_ends_in_order [OF ended_life_reached] ended_life_reached show ?thesis by (simp add: list_all_iff)
qed

end
