(* ===== verification/Json_Api.thy ===== *)
theory Json_Api
  imports Prelude
begin

text \<open>
  The JSON library (simdjson) as the sources use it: a record of the accessors they call, each a
  value or an error code, and the locale \<open>json_view\<close> with what the library documents of them on a
  well-formed document: that they read the JSON value the text denotes. No definition of the library
  is assumed; theorems that need no more than that an accessor returned something hold for every
  \<open>json_api\<close>.
\<close>

section \<open>Results\<close>

text \<open>A throwing call: the rest runs on its value, an error leaves the enclosing \<^verbatim>\<open>try\<close>.\<close>

definition try_bind :: "'e + 'a \<Rightarrow> ('a \<Rightarrow> 'e + 'b) \<Rightarrow> 'e + 'b" where
  "try_bind r f = (case r of Inl e \<Rightarrow> Inl e | Inr x \<Rightarrow> f x)"

lemma try_bind_simps [simp]: "try_bind (Inl e) f = Inl e" "try_bind (Inr x) f = f x"
  by (simp_all add: try_bind_def)

lemma try_bind_Inr: "try_bind r f = Inr y \<longleftrightarrow> (\<exists>x. r = Inr x \<and> f x = Inr y)"
  by (cases r) simp_all

section \<open>The accessors\<close>

datatype json_error =
    NO_SUCH_FIELD
  | INCORRECT_TYPE
  | NUMBER_ERROR
  | INDEX_OUT_OF_BOUNDS
  | OTHER_ERROR nat

text \<open>
  \<^verbatim>\<open>parser.iterate\<close>, \<^verbatim>\<open>value[key]\<close>, the \<^verbatim>\<open>get\<close> functions and \<^verbatim>\<open>error.what()\<close>. The library
  is lazy, so each element of an array may still turn out to be malformed.
\<close>

record 'v json_api =
  js_iterate :: "string \<Rightarrow> json_error + 'v"
  js_field :: "'v \<Rightarrow> string \<Rightarrow> json_error + 'v"
  js_object :: "'v \<Rightarrow> json_error + 'v"
  js_array :: "'v \<Rightarrow> json_error + (json_error + 'v) list"
  js_string :: "'v \<Rightarrow> json_error + string"
  js_int64 :: "'v \<Rightarrow> json_error + int"
  js_uint64 :: "'v \<Rightarrow> json_error + u64"
  js_what :: "json_error \<Rightarrow> string"

definition get_text :: "'v json_api \<Rightarrow> 'v \<Rightarrow> string \<Rightarrow> json_error + string" where
  "get_text api v k = try_bind (js_field api v k) (js_string api)"

definition get_elements :: "'v json_api \<Rightarrow> 'v \<Rightarrow> string \<Rightarrow> json_error + (json_error + 'v) list" where
  "get_elements api v k = try_bind (js_field api v k) (js_array api)"

definition get_int :: "'v json_api \<Rightarrow> 'v \<Rightarrow> string \<Rightarrow> json_error + int" where
  "get_int api v k = try_bind (js_field api v k) (js_int64 api)"

definition get_u64 :: "'v json_api \<Rightarrow> 'v \<Rightarrow> string \<Rightarrow> json_error + u64" where
  "get_u64 api v k = try_bind (js_field api v k) (js_uint64 api)"

section \<open>What the library documents\<close>

datatype json =
    JNull
  | JBool bool
  | JInt int
  | JNumber string
  | JStr string
  | JArr "json list"
  | JObj "(string \<times> json) list"

text \<open>The object \<open>j\<close> has the value \<open>x\<close> under \<open>k\<close>.\<close>

definition has :: "json \<Rightarrow> string \<Rightarrow> json \<Rightarrow> bool" where
  "has j k x \<longleftrightarrow> (\<exists>kvs. j = JObj kvs \<and> map_of kvs k = Some x)"

definition is_object :: "json \<Rightarrow> bool" where
  "is_object j \<longleftrightarrow> (\<exists>kvs. j = JObj kvs)"

lemma has_unique: "has j k x \<Longrightarrow> has j k y \<Longrightarrow> x = y"
  by (auto simp: has_def)

lemma has_object: "has j k x \<Longrightarrow> is_object j"
  by (auto simp: has_def is_object_def)

text \<open>
  The documented behaviour. \<open>readable\<close> holds of the values the library can read as a JSON value: of a
  document that is valid JSON, with no key twice in an object. Nothing is promised of any other value
  (the library is lazy, so it may hand out a value whose rest is malformed). \<^verbatim>\<open>value[key]\<close> is the
  library's lookup in any order: the feeds' own tests have \<^verbatim>\<open>asks\<close> before \<^verbatim>\<open>bids\<close> and \<^verbatim>\<open>prevSeqId\<close>
  before \<^verbatim>\<open>seqId\<close>, and read them the other way round. A library that only scans forward, as a comment of
  \<^verbatim>\<open>okx_feed.hpp\<close> says of this one, satisfies the same laws with \<open>readable\<close> restricted to values whose
  fields stand in the order the code reads them.
\<close>

locale json_view =
  fixes api :: "'v json_api" and readable :: "'v \<Rightarrow> bool" and view :: "'v \<Rightarrow> json"
  assumes keys: "readable v \<Longrightarrow> view v = JObj kvs \<Longrightarrow> distinct (map fst kvs)"
    and string: "readable v \<Longrightarrow> js_string api v = Inr s \<longleftrightarrow> view v = JStr s"
    and int64: "readable v \<Longrightarrow> js_int64 api v = Inr n \<longleftrightarrow> view v = JInt n \<and> fits_i64 n"
    and uint64: "readable v \<Longrightarrow> js_uint64 api v = Inr w \<longleftrightarrow> view v = JInt (uint w)"
    and object: "readable v \<Longrightarrow> js_object api v = Inr u \<Longrightarrow> readable u \<and> view u = view v \<and> is_object (view v)"
    and object_ok: "readable v \<Longrightarrow> is_object (view v) \<Longrightarrow> is_ok (js_object api v)"
    and elements: "readable v \<Longrightarrow> js_array api v = Inr es \<Longrightarrow>
      \<exists>vs. es = map Inr vs \<and> list_all readable vs \<and> view v = JArr (map view vs)"
    and array_ok: "readable v \<Longrightarrow> view v = JArr js \<Longrightarrow> is_ok (js_array api v)"
    and field_value: "readable v \<Longrightarrow> js_field api v k = Inr u \<Longrightarrow> readable u \<and> has (view v) k (view u)"
    and field_ok: "readable v \<Longrightarrow> has (view v) k j \<Longrightarrow> is_ok (js_field api v k)"
begin

lemma field_has:
  assumes "readable v"
  shows "has (view v) k j \<longleftrightarrow> (\<exists>u. js_field api v k = Inr u \<and> readable u \<and> view u = j)"
proof
  assume h: "has (view v) k j"
  then obtain u where "js_field api v k = Inr u" using field_ok [OF assms] by blast
  with h show "\<exists>u. js_field api v k = Inr u \<and> readable u \<and> view u = j"
    using field_value [OF assms] has_unique by blast
qed (use field_value [OF assms] in blast)

lemma get_text_eq: "readable v \<Longrightarrow> get_text api v k = Inr s \<longleftrightarrow> has (view v) k (JStr s)"
  using field_value by (fastforce simp: get_text_def try_bind_Inr field_has string)

lemma get_int_eq: "readable v \<Longrightarrow> get_int api v k = Inr n \<longleftrightarrow> has (view v) k (JInt n) \<and> fits_i64 n"
  using field_value by (fastforce simp: get_int_def try_bind_Inr field_has int64)

lemma get_u64_eq: "readable v \<Longrightarrow> get_u64 api v k = Inr w \<longleftrightarrow> has (view v) k (JInt (uint w))"
  using field_value by (fastforce simp: get_u64_def try_bind_Inr field_has uint64)

lemma get_elements_value:
  assumes "readable v" "get_elements api v k = Inr es"
  shows "\<exists>vs. es = map Inr vs \<and> list_all readable vs \<and> has (view v) k (JArr (map view vs))"
proof -
  obtain u where "js_field api v k = Inr u" "js_array api u = Inr es"
    using assms(2) by (auto simp: get_elements_def try_bind_Inr)
  then show ?thesis using field_value [OF assms(1)] elements by metis
qed

lemma get_elements_ok:
  assumes "readable v" "has (view v) k (JArr js)"
  shows "\<exists>vs. get_elements api v k = Inr (map Inr vs) \<and> list_all readable vs \<and> js = map view vs"
proof -
  obtain u where u: "js_field api v k = Inr u" "readable u" "view u = JArr js"
    using assms by (auto simp: field_has)
  then obtain es where "js_array api u = Inr es" using array_ok by blast
  with elements [OF u(2) this] u show ?thesis by (auto simp: get_elements_def)
qed

end

section \<open>An instance\<close>

text \<open>Documents that are their own value, for evaluation; the parser is still a parameter.\<close>

definition tree_api :: "(string \<Rightarrow> json_error + json) \<Rightarrow> json json_api" where
  "tree_api parse =
     \<lparr>js_iterate = parse,
      js_field = (\<lambda>v k. case v of
          JObj kvs \<Rightarrow> (case map_of kvs k of Some x \<Rightarrow> Inr x | None \<Rightarrow> Inl NO_SUCH_FIELD)
        | _ \<Rightarrow> Inl INCORRECT_TYPE),
      js_object = (\<lambda>v. case v of JObj kvs \<Rightarrow> Inr v | _ \<Rightarrow> Inl INCORRECT_TYPE),
      js_array = (\<lambda>v. case v of JArr vs \<Rightarrow> Inr (map Inr vs) | _ \<Rightarrow> Inl INCORRECT_TYPE),
      js_string = (\<lambda>v. case v of JStr s \<Rightarrow> Inr s | _ \<Rightarrow> Inl INCORRECT_TYPE),
      js_int64 = (\<lambda>v. case v of JInt n \<Rightarrow> (if fits_i64 n then Inr n else Inl NUMBER_ERROR) | _ \<Rightarrow> Inl INCORRECT_TYPE),
      js_uint64 = (\<lambda>v. case v of
          JInt n \<Rightarrow> (if uint (word_of_int n :: u64) = n then Inr (word_of_int n) else Inl NUMBER_ERROR)
        | _ \<Rightarrow> Inl INCORRECT_TYPE),
      js_what = (\<lambda>e. ''error'')\<rparr>"

text \<open>No object has a key twice.\<close>

fun unique_keys :: "json \<Rightarrow> bool" where
  "unique_keys (JArr js) = list_all unique_keys js"
| "unique_keys (JObj kvs) = (distinct (map fst kvs) \<and> list_all (\<lambda>kv. unique_keys (snd kv)) kvs)"
| "unique_keys _ = True"

interpretation tree: json_view "tree_api parse" unique_keys "\<lambda>v. v"
proof unfold_locales
  show "js_uint64 (tree_api parse) v = Inr w \<longleftrightarrow> v = JInt (uint w)" if "unique_keys v" for v w
    by (auto simp: tree_api_def split: json.splits)
  show "unique_keys u \<and> has v k u" if "unique_keys v" "js_field (tree_api parse) v k = Inr u" for v k u
    using that by (auto simp: tree_api_def has_def list_all_iff split: json.splits option.splits dest!: map_of_SomeD)
qed (auto simp: tree_api_def has_def is_object_def split: json.splits option.splits if_splits)

end
