(* ===== verification/Symbol_Sync.thy ===== *)
theory Symbol_Sync
  imports Fixed_Point Symbol
begin

text \<open>
  \<^verbatim>\<open>book/symbol_sync.hpp\<close>, the resynchronisation state machine of one (venue, symbol), and
  the four sequence policies under \<^verbatim>\<open>exchange/\<close>. The template parameter
  \<^verbatim>\<open>SequencePolicy\<close> is a record of its three predicates and its flag; sequence numbers are
  64-bit words, so the \<open>+ 1\<close> of a policy wraps as it does in the code. A handler returns the
  new state and the actions for its driver.
\<close>

section \<open>The code: messages and actions\<close>

record depth_update =
  du_symbol :: native_symbol
  first_id :: u64
  final_id :: u64
  prev_final_id :: u64
  du_bids :: "(price \<times> size_t) list"
  du_asks :: "(price \<times> size_t) list"

record snapshot_message =
  sm_symbol :: native_symbol
  sm_bids :: "(price \<times> size_t) list"
  sm_asks :: "(price \<times> size_t) list"
  last_update_id :: u64

datatype sync_action =
    RequestSnapshot
  | ApplySnapshot "(price \<times> size_t) list" "(price \<times> size_t) list"
  | ApplyDelta "(price \<times> size_t) list" "(price \<times> size_t) list"
  | InvalidateVenue

section \<open>The code: sequence policies\<close>

record sequence_policy =
  should_drop_buffered :: "depth_update \<Rightarrow> snapshot_message \<Rightarrow> bool"
  bridges_snapshot :: "depth_update \<Rightarrow> snapshot_message \<Rightarrow> bool"
  is_contiguous :: "depth_update \<Rightarrow> u64 \<Rightarrow> bool"
  kTrustsConnectionOrder :: bool

definition BinanceSpotSequencePolicy :: sequence_policy where
  "BinanceSpotSequencePolicy = \<lparr>
     should_drop_buffered = (\<lambda>event snapshot. final_id event \<le> last_update_id snapshot),
     bridges_snapshot = (\<lambda>event snapshot. first_id event \<le> last_update_id snapshot + 1
                                       \<and> final_id event \<ge> last_update_id snapshot + 1),
     is_contiguous = (\<lambda>event last_applied. first_id event = last_applied + 1),
     kTrustsConnectionOrder = False\<rparr>"

definition BinanceFuturesSequencePolicy :: sequence_policy where
  "BinanceFuturesSequencePolicy = \<lparr>
     should_drop_buffered = (\<lambda>event snapshot. final_id event < last_update_id snapshot),
     bridges_snapshot = (\<lambda>event snapshot. first_id event \<le> last_update_id snapshot
                                       \<and> final_id event \<ge> last_update_id snapshot),
     is_contiguous = (\<lambda>event last_applied. prev_final_id event = last_applied),
     kTrustsConnectionOrder = False\<rparr>"

definition BybitSequencePolicy :: sequence_policy where
  "BybitSequencePolicy = \<lparr>
     should_drop_buffered = (\<lambda>event snapshot. final_id event \<le> last_update_id snapshot),
     bridges_snapshot = (\<lambda>event snapshot. final_id event = last_update_id snapshot + 1),
     is_contiguous = (\<lambda>event last_applied. final_id event = last_applied + 1),
     kTrustsConnectionOrder = True\<rparr>"

definition OkxSequencePolicy :: sequence_policy where
  "OkxSequencePolicy = \<lparr>
     should_drop_buffered = (\<lambda>event snapshot. final_id event < last_update_id snapshot),
     bridges_snapshot = (\<lambda>event snapshot. prev_final_id event = last_update_id snapshot),
     is_contiguous = (\<lambda>event last_applied. prev_final_id event = last_applied),
     kTrustsConnectionOrder = True\<rparr>"

lemmas policy_defs = BinanceSpotSequencePolicy_def BinanceFuturesSequencePolicy_def
  BybitSequencePolicy_def OkxSequencePolicy_def

section \<open>The code: the state machine\<close>

datatype sync_state = Buffering | Live

record symbol_sync =
  sync_state :: sync_state
  sync_buffer :: "depth_update list"
  last_final_id :: u64
  snapshot_requested :: bool

definition initial_sync :: symbol_sync where
  "initial_sync =
     \<lparr>sync_state = Buffering, sync_buffer = [], last_final_id = 0, snapshot_requested = False\<rparr>"

definition on_connected :: "symbol_sync \<Rightarrow> symbol_sync \<times> sync_action list" where
  "on_connected s =
     (if sync_state s = Buffering \<and> \<not> snapshot_requested s
      then (s\<lparr>snapshot_requested := True\<rparr>, [RequestSnapshot])
      else (s, []))"

text \<open>\<^verbatim>\<open>handle_gap\<close>: the iterator is the suffix of the buffer it points at.\<close>

definition handle_gap :: "depth_update list \<Rightarrow> symbol_sync \<Rightarrow> symbol_sync \<times> sync_action list" where
  "handle_gap first_unresolved s =
     (s\<lparr>sync_buffer := first_unresolved, sync_state := Buffering, last_final_id := 0,
        snapshot_requested := False\<rparr>, [InvalidateVenue])"

definition reset :: "symbol_sync \<Rightarrow> symbol_sync" where
  "reset s = s\<lparr>sync_state := Buffering, sync_buffer := [], last_final_id := 0,
               snapshot_requested := False\<rparr>"

definition on_depth_update ::
  "sequence_policy \<Rightarrow> depth_update \<Rightarrow> symbol_sync \<Rightarrow> symbol_sync \<times> sync_action list" where
  "on_depth_update pol update s =
     (if sync_state s = Buffering then (s\<lparr>sync_buffer := sync_buffer s @ [update]\<rparr>, [])
      else if \<not> is_contiguous pol update (last_final_id s) then
        (let s' = s\<lparr>sync_buffer := sync_buffer s @ [update]\<rparr> in handle_gap (sync_buffer s') s')
      else (s\<lparr>last_final_id := final_id update\<rparr>, [ApplyDelta (du_bids update) (du_asks update)]))"

text \<open>
  The loop over the buffer from the bridge on: the actions, the last id applied, and, when an
  event is not contiguous, the suffix that starts with it.
\<close>

fun apply_tail ::
  "sequence_policy \<Rightarrow> bool \<Rightarrow> depth_update list \<Rightarrow> u64
   \<Rightarrow> sync_action list \<times> u64 \<times> depth_update list option" where
  "apply_tail pol at_bridge [] applied = ([], applied, None)"
| "apply_tail pol at_bridge (it # rest) applied =
     (if \<not> at_bridge \<and> \<not> is_contiguous pol it applied then ([], applied, Some (it # rest))
      else let (actions, applied', gap) = apply_tail pol False rest (final_id it)
           in (ApplyDelta (du_bids it) (du_asks it) # actions, applied', gap))"

definition on_snapshot ::
  "sequence_policy \<Rightarrow> snapshot_message \<Rightarrow> symbol_sync \<Rightarrow> symbol_sync \<times> sync_action list" where
  "on_snapshot pol snapshot s =
     (let nothing_was_ever_buffered = (sync_buffer s = []);
          buffer = filter (\<lambda>event. \<not> should_drop_buffered pol event snapshot) (sync_buffer s);
          s1 = s\<lparr>sync_buffer := buffer\<rparr>;
          from_bridge = dropWhile (\<lambda>event. \<not> bridges_snapshot pol event snapshot) buffer
      in if from_bridge = [] then
           (if kTrustsConnectionOrder pol then
              (if nothing_was_ever_buffered then
                 (s1\<lparr>last_final_id := last_update_id snapshot, sync_state := Live\<rparr>,
                  [ApplySnapshot (sm_bids snapshot) (sm_asks snapshot)])
               else handle_gap buffer s1)
            else (s1, [RequestSnapshot]))
         else
           let (deltas, applied', gap) = apply_tail pol True from_bridge (last_final_id s);
               actions = ApplySnapshot (sm_bids snapshot) (sm_asks snapshot) # deltas
           in case gap of
                Some suffix \<Rightarrow>
                  let (s2, gap_actions) = handle_gap suffix (s1\<lparr>last_final_id := applied'\<rparr>)
                  in (s2, actions @ gap_actions)
              | None \<Rightarrow>
                  (s1\<lparr>last_final_id := applied', sync_buffer := [], sync_state := Live\<rparr>, actions))"

definition on_disconnected :: "symbol_sync \<Rightarrow> symbol_sync \<times> sync_action list" where
  "on_disconnected s = (reset s, [InvalidateVenue])"

text \<open>What a driver feeds the machine, and one step of it.\<close>

datatype sync_event =
    Connected
  | Depth depth_update
  | Snapshot snapshot_message
  | Disconnected

fun sync_step :: "sequence_policy \<Rightarrow> sync_event \<Rightarrow> symbol_sync \<Rightarrow> symbol_sync \<times> sync_action list" where
  "sync_step pol Connected s = on_connected s"
| "sync_step pol (Depth e) s = on_depth_update pol e s"
| "sync_step pol (Snapshot m) s = on_snapshot pol m s"
| "sync_step pol Disconnected s = on_disconnected s"

section \<open>How the loop over the buffer behaves\<close>

text \<open>A run of events each of which follows on the one before.\<close>

fun chained :: "sequence_policy \<Rightarrow> u64 \<Rightarrow> depth_update list \<Rightarrow> bool" where
  "chained pol applied [] \<longleftrightarrow> True"
| "chained pol applied (e # es) \<longleftrightarrow> is_contiguous pol e applied \<and> chained pol (final_id e) es"

definition delta_of :: "depth_update \<Rightarrow> sync_action" where
  "delta_of e = ApplyDelta (du_bids e) (du_asks e)"

lemma apply_tail_split:
  assumes "apply_tail pol b es applied = (acts, applied', gap)"
  shows "\<exists>don. acts = map delta_of don \<and> es = don @ (case gap of None \<Rightarrow> [] | Some g \<Rightarrow> g)
    \<and> applied' = (if don = [] then applied else final_id (last don))
    \<and> (gap = None \<or> (\<exists>g gs. gap = Some (g # gs) \<and> \<not> is_contiguous pol g applied'))
    \<and> (if b then don = [] \<and> es = [] \<or> (\<exists>d ds. don = d # ds \<and> chained pol (final_id d) ds)
       else chained pol applied don)"
  using assms
proof (induction es arbitrary: b applied acts applied' gap)
  case Nil
  then show ?case by simp
next
  case (Cons e es)
  show ?case
  proof (cases "\<not> b \<and> \<not> is_contiguous pol e applied")
    case True
    with Cons.prems show ?thesis by auto
  next
    case False
    then obtain as where rest: "apply_tail pol False es (final_id e) = (as, applied', gap)"
      and acts: "acts = delta_of e # as"
      using Cons.prems by (auto simp: Let_def delta_of_def split: prod.splits if_splits)
    from Cons.IH [OF rest] obtain don where don: "as = map delta_of don"
      "es = don @ (case gap of None \<Rightarrow> [] | Some g \<Rightarrow> g)"
      "applied' = (if don = [] then final_id e else final_id (last don))"
      "gap = None \<or> (\<exists>g gs. gap = Some (g # gs) \<and> \<not> is_contiguous pol g applied')"
      "chained pol (final_id e) don" by auto
    show ?thesis
      by (rule exI [of _ "e # don"]) (use don acts False in auto)
  qed
qed

lemma apply_tail_chained:
  "chained pol applied es \<Longrightarrow>
   apply_tail pol False es applied = (map delta_of es, (if es = [] then applied else final_id (last es)), None)"
  by (induction es arbitrary: applied) (auto simp: delta_of_def)

text \<open>The two outcomes of \<^verbatim>\<open>on_snapshot\<close>'s search for a bridge.\<close>

definition unstale :: "sequence_policy \<Rightarrow> snapshot_message \<Rightarrow> symbol_sync \<Rightarrow> depth_update list" where
  "unstale pol m s = filter (\<lambda>e. \<not> should_drop_buffered pol e m) (sync_buffer s)"

definition bridge_on :: "sequence_policy \<Rightarrow> snapshot_message \<Rightarrow> symbol_sync \<Rightarrow> depth_update list" where
  "bridge_on pol m s = dropWhile (\<lambda>e. \<not> bridges_snapshot pol e m) (unstale pol m s)"

lemma on_snapshot_bridged:
  assumes "bridge_on pol m s \<noteq> []"
    "apply_tail pol True (bridge_on pol m s) (last_final_id s) = (deltas, applied, gap)"
  shows "on_snapshot pol m s =
    (case gap of
       Some suffix \<Rightarrow>
         (s\<lparr>sync_buffer := suffix, sync_state := Buffering, last_final_id := 0,
            snapshot_requested := False\<rparr>,
          (ApplySnapshot (sm_bids m) (sm_asks m) # deltas) @ [InvalidateVenue])
     | None \<Rightarrow>
         (s\<lparr>sync_state := Live, sync_buffer := [], last_final_id := applied\<rparr>,
          ApplySnapshot (sm_bids m) (sm_asks m) # deltas))"
  unfolding on_snapshot_def Let_def unstale_def [symmetric] bridge_on_def [symmetric] assms(2)
  using assms(1) by (simp add: handle_gap_def split: option.split)

lemma on_snapshot_unbridged:
  assumes "bridge_on pol m s = []"
  shows "on_snapshot pol m s =
    (if kTrustsConnectionOrder pol then
       (if sync_buffer s = [] then
          (s\<lparr>sync_buffer := [], last_final_id := last_update_id m, sync_state := Live\<rparr>,
           [ApplySnapshot (sm_bids m) (sm_asks m)])
        else (s\<lparr>sync_buffer := unstale pol m s, sync_state := Buffering, last_final_id := 0,
                snapshot_requested := False\<rparr>, [InvalidateVenue]))
     else (s\<lparr>sync_buffer := unstale pol m s\<rparr>, [RequestSnapshot]))"
  unfolding on_snapshot_def Let_def unstale_def [symmetric] bridge_on_def [symmetric] assms
  by (simp add: handle_gap_def unstale_def)

end
