(* ===== verification/Feeds.thy ===== *)
theory Feeds
  imports Json_Api Symbol_Sync Double_Format
begin

text \<open>
  \<^verbatim>\<open>exchange/feed_wire.hpp\<close> and the feeds of the three exchanges: the requests they send, and the
  parsing of what they receive, over any JSON library that satisfies \<open>json_view\<close>. A parsed message
  is a snapshot (\<open>Inl\<close>) or a depth update (\<open>Inr\<close>); \<open>None\<close> is a message without relevance to a book.
\<close>

section \<open>The code: shared wire format\<close>

type_synonym parsed_message = "(snapshot_message + depth_update) option"

record http_request_spec =
  req_host :: string
  req_port :: string
  req_target :: string

definition parse_decimal_string_to_fixed :: "nat \<Rightarrow> string \<Rightarrow> json_error + raw" where
  "parse_decimal_string_to_fixed decimals s =
     (case from_decimal_string decimals s of Inl e \<Rightarrow> Inl NUMBER_ERROR | Inr r \<Rightarrow> Inr r)"

definition parse_level :: "'v json_api \<Rightarrow> (json_error + 'v) list \<Rightarrow> json_error + (price \<times> size_t)" where
  "parse_level api level =
     (case level of
        [] \<Rightarrow> Inl INDEX_OUT_OF_BOUNDS
      | it # rest \<Rightarrow> try_bind (try_bind it (js_string api)) (\<lambda>price_text.
          case rest of
            [] \<Rightarrow> Inl INDEX_OUT_OF_BOUNDS
          | it' # _ \<Rightarrow> try_bind (try_bind it' (js_string api)) (\<lambda>size_text.
              try_bind (parse_decimal_string_to_fixed price_decimals price_text) (\<lambda>p.
              try_bind (parse_decimal_string_to_fixed size_decimals size_text) (\<lambda>s. Inr (p, s))))))"

fun parse_levels :: "'v json_api \<Rightarrow> (json_error + 'v) list \<Rightarrow> json_error + (price \<times> size_t) list" where
  "parse_levels api [] = Inr []"
| "parse_levels api (level # rest) =
     try_bind (try_bind level (js_array api)) (\<lambda>elements.
     try_bind (parse_level api elements) (\<lambda>l.
     try_bind (parse_levels api rest) (\<lambda>ls. Inr (l # ls))))"

definition get_levels :: "'v json_api \<Rightarrow> 'v \<Rightarrow> string \<Rightarrow> json_error + (price \<times> size_t) list" where
  "get_levels api v k = try_bind (get_elements api v k) (parse_levels api)"

text \<open>The outer \<^verbatim>\<open>try\<close> of every parse function.\<close>

definition or_bad_message :: "json_error + 'a \<Rightarrow> 'a expected" where
  "or_bad_message r = (case r of Inl e \<Rightarrow> Inl bad_message | Inr x \<Rightarrow> Inr x)"

definition root_object :: "'v json_api \<Rightarrow> string \<Rightarrow> json_error + 'v" where
  "root_object api s = try_bind (js_iterate api s) (js_object api)"

section \<open>The code: Binance\<close>

definition binance_update :: "'v json_api \<Rightarrow> 'v \<Rightarrow> (json_error + u64) \<Rightarrow> json_error + depth_update" where
  "binance_update api doc prev =
     try_bind (get_text api doc ''s'') (\<lambda>symbol.
     try_bind (get_u64 api doc ''U'') (\<lambda>first.
     try_bind (get_u64 api doc ''u'') (\<lambda>final.
     try_bind prev (\<lambda>prev_final.
     try_bind (get_levels api doc ''b'') (\<lambda>bs.
     try_bind (get_levels api doc ''a'') (\<lambda>as.
     Inr \<lparr>du_symbol = symbol, first_id = first, final_id = final, prev_final_id = prev_final,
          du_bids = bs, du_asks = as\<rparr>))))))"

definition binance_futures_parse_message :: "'v json_api \<Rightarrow> string \<Rightarrow> parsed_message expected" where
  "binance_futures_parse_message api s = or_bad_message (
     try_bind (root_object api s) (\<lambda>doc.
       case get_text api doc ''e'' of
         Inl e \<Rightarrow> Inr None
       | Inr event_type \<Rightarrow>
           if event_type \<noteq> ''depthUpdate'' then Inr None
           else try_bind (binance_update api doc (get_u64 api doc ''pu'')) (\<lambda>u. Inr (Some (Inr u)))))"

definition binance_spot_parse_message :: "'v json_api \<Rightarrow> string \<Rightarrow> parsed_message expected" where
  "binance_spot_parse_message api s = or_bad_message (
     try_bind (root_object api s) (\<lambda>doc.
       case get_text api doc ''e'' of
         Inl e \<Rightarrow> Inr None
       | Inr event_type \<Rightarrow>
           if event_type \<noteq> ''depthUpdate'' then Inr None
           else try_bind (binance_update api doc (Inr 0)) (\<lambda>u. Inr (Some (Inr u)))))"

definition parse_snapshot_response ::
  "'v json_api \<Rightarrow> native_symbol \<Rightarrow> string \<Rightarrow> snapshot_message expected" where
  "parse_snapshot_response api symbol body = or_bad_message (
     try_bind (root_object api body) (\<lambda>doc.
     try_bind (get_u64 api doc ''lastUpdateId'') (\<lambda>last.
     try_bind (get_levels api doc ''bids'') (\<lambda>bs.
     try_bind (get_levels api doc ''asks'') (\<lambda>as.
     Inr \<lparr>sm_symbol = symbol, sm_bids = bs, sm_asks = as, last_update_id = last\<rparr>)))))"

definition to_lower :: "char \<Rightarrow> char" where
  "to_lower c = (let n = of_char c :: nat in if 65 \<le> n \<and> n \<le> 90 then char_of (n + 32) else c)"

text \<open>\<^verbatim>\<open>if (i > 0) args += ','\<close> in front of every part but the first.\<close>

fun comma_separated :: "string list \<Rightarrow> string" where
  "comma_separated [] = []"
| "comma_separated [part] = part"
| "comma_separated (part # rest) = part @ '','' @ comma_separated rest"

definition binance_subscribe_message :: "native_symbol list \<Rightarrow> string \<Rightarrow> string" where
  "binance_subscribe_message symbols update_speed =
     ''{\"method\":\"SUBSCRIBE\",\"params\":[''
     @ comma_separated (map (\<lambda>symbol. ''\"'' @ map to_lower symbol @ ''@depth@'' @ update_speed @ ''\"'') symbols)
     @ ''],\"id\":1}''"

definition binance_futures_snapshot_request :: "native_symbol \<Rightarrow> http_request_spec" where
  "binance_futures_snapshot_request symbol =
     \<lparr>req_host = ''fapi.binance.com'', req_port = ''443'',
      req_target = ''/fapi/v1/depth?symbol='' @ symbol @ ''&limit=1000''\<rparr>"

definition binance_spot_snapshot_request :: "native_symbol \<Rightarrow> http_request_spec" where
  "binance_spot_snapshot_request symbol =
     \<lparr>req_host = ''api.binance.com'', req_port = ''443'',
      req_target = ''/api/v3/depth?symbol='' @ symbol @ ''&limit=5000''\<rparr>"

section \<open>The code: Bybit\<close>

definition bybit_orderbook_subscribe_message :: "native_symbol list \<Rightarrow> int \<Rightarrow> string" where
  "bybit_orderbook_subscribe_message symbols depth =
     ''{\"op\":\"subscribe\",\"args\":[''
     @ comma_separated (map (\<lambda>symbol. ''\"orderbook.'' @ to_string depth @ ''.'' @ symbol @ ''\"'') symbols)
     @ '']}''"

definition bybit_snapshot :: "'v json_api \<Rightarrow> 'v \<Rightarrow> json_error + snapshot_message" where
  "bybit_snapshot api data =
     try_bind (get_text api data ''s'') (\<lambda>symbol.
     try_bind (get_levels api data ''b'') (\<lambda>bs.
     try_bind (get_levels api data ''a'') (\<lambda>as.
     try_bind (get_u64 api data ''u'') (\<lambda>last.
     Inr \<lparr>sm_symbol = symbol, sm_bids = bs, sm_asks = as, last_update_id = last\<rparr>))))"

definition bybit_update :: "'v json_api \<Rightarrow> 'v \<Rightarrow> json_error + depth_update" where
  "bybit_update api data =
     try_bind (get_text api data ''s'') (\<lambda>symbol.
     try_bind (get_levels api data ''b'') (\<lambda>bs.
     try_bind (get_levels api data ''a'') (\<lambda>as.
     try_bind (get_u64 api data ''u'') (\<lambda>update_id.
     Inr \<lparr>du_symbol = symbol, first_id = update_id, final_id = update_id, prev_final_id = 0,
          du_bids = bs, du_asks = as\<rparr>))))"

definition parse_bybit_orderbook_message :: "'v json_api \<Rightarrow> string \<Rightarrow> parsed_message expected" where
  "parse_bybit_orderbook_message api s = or_bad_message (
     try_bind (root_object api s) (\<lambda>doc.
       case get_text api doc ''topic'' of
         Inl e \<Rightarrow> Inr None
       | Inr topic \<Rightarrow>
           try_bind (get_text api doc ''type'') (\<lambda>type.
           try_bind (try_bind (js_field api doc ''data'') (js_object api)) (\<lambda>data.
             if type = ''snapshot'' then try_bind (bybit_snapshot api data) (\<lambda>m. Inr (Some (Inl m)))
             else if type = ''delta'' then try_bind (bybit_update api data) (\<lambda>m. Inr (Some (Inr m)))
             else Inr None))))"

section \<open>The code: OKX\<close>

definition okx_subscribe_message :: "native_symbol list \<Rightarrow> string" where
  "okx_subscribe_message symbols =
     ''{\"op\":\"subscribe\",\"args\":[''
     @ comma_separated (map (\<lambda>symbol. ''{\"channel\":\"books\",\"instId\":\"'' @ symbol @ ''\"}'') symbols)
     @ '']}''"

text \<open>\<^verbatim>\<open>static_cast<std::uint64_t>\<close> of a signed id is reduction modulo \<open>2 ^ 64\<close>.\<close>

definition okx_snapshot :: "'v json_api \<Rightarrow> native_symbol \<Rightarrow> 'v \<Rightarrow> json_error + snapshot_message" where
  "okx_snapshot api instid entry =
     try_bind (get_levels api entry ''bids'') (\<lambda>bs.
     try_bind (get_levels api entry ''asks'') (\<lambda>as.
     try_bind (get_int api entry ''seqId'') (\<lambda>seq_id.
     Inr \<lparr>sm_symbol = instid, sm_bids = bs, sm_asks = as, last_update_id = word_of_int seq_id\<rparr>)))"

definition okx_update :: "'v json_api \<Rightarrow> native_symbol \<Rightarrow> 'v \<Rightarrow> json_error + depth_update" where
  "okx_update api instid entry =
     try_bind (get_levels api entry ''bids'') (\<lambda>bs.
     try_bind (get_levels api entry ''asks'') (\<lambda>as.
     try_bind (get_int api entry ''seqId'') (\<lambda>seq_id.
     try_bind (get_int api entry ''prevSeqId'') (\<lambda>prev_seq_id.
     Inr \<lparr>du_symbol = instid, first_id = word_of_int seq_id, final_id = word_of_int seq_id,
          prev_final_id = word_of_int prev_seq_id, du_bids = bs, du_asks = as\<rparr>))))"

text \<open>The first element of \<^verbatim>\<open>data\<close>: the two fields of the envelope are read before it.\<close>

definition okx_entry :: "'v json_api \<Rightarrow> native_symbol \<Rightarrow> string \<Rightarrow> (json_error + 'v) list \<Rightarrow> json_error + parsed_message" where
  "okx_entry api instid action data =
     (case data of
        [] \<Rightarrow> Inl INDEX_OUT_OF_BOUNDS
      | it # _ \<Rightarrow> try_bind (try_bind it (js_object api)) (\<lambda>entry.
          if action = ''snapshot'' then try_bind (okx_snapshot api instid entry) (\<lambda>m. Inr (Some (Inl m)))
          else if action = ''update'' then try_bind (okx_update api instid entry) (\<lambda>m. Inr (Some (Inr m)))
          else Inr None))"

definition okx_parse_message :: "'v json_api \<Rightarrow> string \<Rightarrow> parsed_message expected" where
  "okx_parse_message api s =
     (if s = ''pong'' then Inr None
      else or_bad_message (
        try_bind (root_object api s) (\<lambda>doc.
          case try_bind (try_bind (js_field api doc ''arg'') (\<lambda>arg. get_text api arg ''instId'')) (\<lambda>instid.
               try_bind (get_text api doc ''action'') (\<lambda>action. Inr (instid, action))) of
            Inl e \<Rightarrow> Inr None
          | Inr (instid, action) \<Rightarrow>
              try_bind (get_elements api doc ''data'') (okx_entry api instid action))))"

section \<open>The code: the feed of each venue\<close>

text \<open>
  What the session uses of a feed class. The last two fields are methods only of the feeds that fetch
  snapshots over REST; a default argument has its default value.
\<close>

record 'v feed =
  kSnapshotViaRest :: bool
  ws_host :: string
  ws_port :: string
  ws_target :: string
  subscribe_message :: "native_symbol list \<Rightarrow> string"
  parse_message :: "'v json_api \<Rightarrow> string \<Rightarrow> parsed_message expected"
  snapshot_request :: "(native_symbol \<Rightarrow> http_request_spec) option"
  parse_response :: "('v json_api \<Rightarrow> native_symbol \<Rightarrow> string \<Rightarrow> snapshot_message expected) option"

definition BinanceSpotFeed :: "'v feed" where
  "BinanceSpotFeed =
     \<lparr>kSnapshotViaRest = True, ws_host = ''stream.binance.com'', ws_port = ''9443'', ws_target = ''/ws'',
      subscribe_message = (\<lambda>symbols. binance_subscribe_message symbols ''100ms''),
      parse_message = binance_spot_parse_message,
      snapshot_request = Some binance_spot_snapshot_request, parse_response = Some parse_snapshot_response\<rparr>"

definition BinanceFuturesFeed :: "'v feed" where
  "BinanceFuturesFeed =
     \<lparr>kSnapshotViaRest = True, ws_host = ''fstream.binance.com'', ws_port = ''443'', ws_target = ''/ws'',
      subscribe_message = (\<lambda>symbols. binance_subscribe_message symbols ''100ms''),
      parse_message = binance_futures_parse_message,
      snapshot_request = Some binance_futures_snapshot_request, parse_response = Some parse_snapshot_response\<rparr>"

definition BybitLinearFeed :: "'v feed" where
  "BybitLinearFeed =
     \<lparr>kSnapshotViaRest = False, ws_host = ''stream.bybit.com'', ws_port = ''443'',
      ws_target = ''/v5/public/linear'',
      subscribe_message = (\<lambda>symbols. bybit_orderbook_subscribe_message symbols 50),
      parse_message = parse_bybit_orderbook_message, snapshot_request = None, parse_response = None\<rparr>"

definition BybitSpotFeed :: "'v feed" where
  "BybitSpotFeed =
     \<lparr>kSnapshotViaRest = False, ws_host = ''stream.bybit.com'', ws_port = ''443'',
      ws_target = ''/v5/public/spot'',
      subscribe_message = (\<lambda>symbols. bybit_orderbook_subscribe_message symbols 50),
      parse_message = parse_bybit_orderbook_message, snapshot_request = None, parse_response = None\<rparr>"

definition OkxFeed :: "'v feed" where
  "OkxFeed =
     \<lparr>kSnapshotViaRest = False, ws_host = ''ws.okx.com'', ws_port = ''8443'', ws_target = ''/ws/v5/public'',
      subscribe_message = okx_subscribe_message,
      parse_message = okx_parse_message, snapshot_request = None, parse_response = None\<rparr>"

lemmas feed_classes = BinanceSpotFeed_def BinanceFuturesFeed_def BybitLinearFeed_def BybitSpotFeed_def OkxFeed_def

text \<open>The feed \<^verbatim>\<open>wire_venue\<close> is instantiated with at each venue.\<close>

definition venue_feed :: "venue_id \<Rightarrow> 'v feed" where
  "venue_feed v =
     (case v of
        VenueId Binance Spot \<Rightarrow> BinanceSpotFeed
      | VenueId Binance Perp \<Rightarrow> BinanceFuturesFeed
      | VenueId Bybit Spot \<Rightarrow> BybitSpotFeed
      | VenueId Bybit Perp \<Rightarrow> BybitLinearFeed
      | VenueId Okx _ \<Rightarrow> OkxFeed)"

section \<open>What the exchanges send\<close>

definition level_json :: "json \<Rightarrow> price \<times> size_t \<Rightarrow> bool" where
  "level_json j l \<longleftrightarrow>
     (\<exists>price_text size_text rest. j = JArr (JStr price_text # JStr size_text # rest)
        \<and> from_decimal_string price_decimals price_text = Inr (fst l)
        \<and> from_decimal_string size_decimals size_text = Inr (snd l))"

definition has_levels :: "json \<Rightarrow> string \<Rightarrow> (price \<times> size_t) list \<Rightarrow> bool" where
  "has_levels j k ls \<longleftrightarrow> (\<exists>rows. has j k (JArr rows) \<and> list_all2 level_json rows ls)"

definition binance_message :: "market_type \<Rightarrow> json \<Rightarrow> snapshot_message + depth_update \<Rightarrow> bool" where
  "binance_message t j m \<longleftrightarrow>
     (case m of
        Inl sm \<Rightarrow> False
      | Inr u \<Rightarrow>
          has j ''e'' (JStr ''depthUpdate'') \<and> has j ''s'' (JStr (du_symbol u))
          \<and> has j ''U'' (JInt (uint (first_id u))) \<and> has j ''u'' (JInt (uint (final_id u)))
          \<and> (case t of Spot \<Rightarrow> prev_final_id u = 0 | Perp \<Rightarrow> has j ''pu'' (JInt (uint (prev_final_id u))))
          \<and> has_levels j ''b'' (du_bids u) \<and> has_levels j ''a'' (du_asks u))"

definition binance_control :: "json \<Rightarrow> bool" where
  "binance_control j \<longleftrightarrow> is_object j \<and> \<not> has j ''e'' (JStr ''depthUpdate'')"

definition bybit_message :: "json \<Rightarrow> snapshot_message + depth_update \<Rightarrow> bool" where
  "bybit_message j m \<longleftrightarrow>
     (\<exists>topic d. has j ''topic'' (JStr topic) \<and> has j ''data'' d \<and>
        (case m of
           Inl sm \<Rightarrow>
             has j ''type'' (JStr ''snapshot'') \<and> has d ''s'' (JStr (sm_symbol sm))
             \<and> has_levels d ''b'' (sm_bids sm) \<and> has_levels d ''a'' (sm_asks sm)
             \<and> has d ''u'' (JInt (uint (last_update_id sm)))
         | Inr u \<Rightarrow>
             has j ''type'' (JStr ''delta'') \<and> has d ''s'' (JStr (du_symbol u))
             \<and> has_levels d ''b'' (du_bids u) \<and> has_levels d ''a'' (du_asks u)
             \<and> has d ''u'' (JInt (uint (final_id u))) \<and> first_id u = final_id u \<and> prev_final_id u = 0))"

definition bybit_control :: "json \<Rightarrow> bool" where
  "bybit_control j \<longleftrightarrow> is_object j \<and>
     ((\<forall>topic. \<not> has j ''topic'' (JStr topic))
      \<or> (\<exists>t d. has j ''type'' (JStr t) \<and> t \<noteq> ''snapshot'' \<and> t \<noteq> ''delta'' \<and> has j ''data'' d \<and> is_object d))"

definition okx_message :: "json \<Rightarrow> snapshot_message + depth_update \<Rightarrow> bool" where
  "okx_message j m \<longleftrightarrow>
     (\<exists>arg entry rest n. has j ''arg'' arg \<and> has j ''data'' (JArr (entry # rest))
        \<and> has entry ''seqId'' (JInt n) \<and> fits_i64 n \<and>
        (case m of
           Inl sm \<Rightarrow>
             has arg ''instId'' (JStr (sm_symbol sm)) \<and> has j ''action'' (JStr ''snapshot'')
             \<and> has_levels entry ''bids'' (sm_bids sm) \<and> has_levels entry ''asks'' (sm_asks sm)
             \<and> last_update_id sm = word_of_int n
         | Inr u \<Rightarrow>
             has arg ''instId'' (JStr (du_symbol u)) \<and> has j ''action'' (JStr ''update'')
             \<and> has_levels entry ''bids'' (du_bids u) \<and> has_levels entry ''asks'' (du_asks u)
             \<and> first_id u = word_of_int n \<and> final_id u = word_of_int n
             \<and> (\<exists>k. has entry ''prevSeqId'' (JInt k) \<and> fits_i64 k \<and> prev_final_id u = word_of_int k)))"

definition okx_control :: "json \<Rightarrow> bool" where
  "okx_control j \<longleftrightarrow> is_object j \<and>
     ((\<forall>arg instid. has j ''arg'' arg \<longrightarrow> \<not> has arg ''instId'' (JStr instid))
      \<or> (\<forall>action. \<not> has j ''action'' (JStr action))
      \<or> (\<exists>action entry rest. has j ''action'' (JStr action) \<and> action \<noteq> ''snapshot'' \<and> action \<noteq> ''update''
           \<and> has j ''data'' (JArr (entry # rest)) \<and> is_object entry))"

definition venue_message :: "venue_id \<Rightarrow> json \<Rightarrow> snapshot_message + depth_update \<Rightarrow> bool" where
  "venue_message v = (case venue_exchange v of
     Binance \<Rightarrow> binance_message (venue_type v) | Bybit \<Rightarrow> bybit_message | Okx \<Rightarrow> okx_message)"

definition control_message :: "venue_id \<Rightarrow> json \<Rightarrow> bool" where
  "control_message v = (case venue_exchange v of
     Binance \<Rightarrow> binance_control | Bybit \<Rightarrow> bybit_control | Okx \<Rightarrow> okx_control)"

definition rest_snapshot :: "json \<Rightarrow> native_symbol \<Rightarrow> snapshot_message \<Rightarrow> bool" where
  "rest_snapshot j symbol sm \<longleftrightarrow>
     sm_symbol sm = symbol \<and> has j ''lastUpdateId'' (JInt (uint (last_update_id sm)))
     \<and> has_levels j ''bids'' (sm_bids sm) \<and> has_levels j ''asks'' (sm_asks sm)"

section \<open>Parsing reads exactly that\<close>

lemma or_bad_message_simps [simp]:
  "or_bad_message r = Inr x \<longleftrightarrow> r = Inr x" "or_bad_message r = Inl e \<longleftrightarrow> e = bad_message \<and> \<not> is_ok r"
  by (auto simp: or_bad_message_def split: sum.splits)

lemma parse_decimal_Inr: "parse_decimal_string_to_fixed d s = Inr r \<longleftrightarrow> from_decimal_string d s = Inr r"
  by (simp add: parse_decimal_string_to_fixed_def split: sum.splits)

context json_view
begin

lemma parse_level_eq:
  "list_all readable vs \<Longrightarrow> parse_level api (map Inr vs) = Inr l \<longleftrightarrow> level_json (JArr (map view vs)) l"
proof (cases vs)
  case (Cons v ws)
  assume "list_all readable vs"
  with Cons show ?thesis
    by (cases ws) (auto simp: parse_level_def try_bind_Inr level_json_def string parse_decimal_Inr)
qed (simp add: parse_level_def level_json_def)

lemma parse_levels_eq:
  "list_all readable vs \<Longrightarrow> parse_levels api (map Inr vs) = Inr ls \<longleftrightarrow> list_all2 level_json (map view vs) ls"
proof (induction vs arbitrary: ls)
  case (Cons v vs)
  then have v: "readable v" and vs: "list_all readable vs" by auto
  have row: "(\<exists>es. js_array api v = Inr es \<and> parse_level api es = Inr l) \<longleftrightarrow> level_json (view v) l" for l
  proof
    assume "\<exists>es. js_array api v = Inr es \<and> parse_level api es = Inr l"
    then show "level_json (view v) l" using elements [OF v] parse_level_eq by metis
  next
    assume l: "level_json (view v) l"
    then obtain js where "view v = JArr js" by (auto simp: level_json_def)
    then obtain es where "js_array api v = Inr es" using array_ok [OF v] by blast
    with l show "\<exists>es. js_array api v = Inr es \<and> parse_level api es = Inr l"
      using elements [OF v] parse_level_eq by metis
  qed
  show ?case using row by (cases ls) (auto simp: try_bind_Inr Cons.IH [OF vs])
qed auto

lemma get_levels_eq:
  assumes "readable v"
  shows "get_levels api v k = Inr ls \<longleftrightarrow> has_levels (view v) k ls"
proof
  assume "get_levels api v k = Inr ls"
  then obtain es where "get_elements api v k = Inr es" "parse_levels api es = Inr ls"
    by (auto simp: get_levels_def try_bind_Inr)
  then show "has_levels (view v) k ls"
    using get_elements_value [OF assms] parse_levels_eq unfolding has_levels_def by metis
next
  assume "has_levels (view v) k ls"
  then obtain rows where r: "has (view v) k (JArr rows)" "list_all2 level_json rows ls" by (auto simp: has_levels_def)
  obtain vs where "get_elements api v k = Inr (map Inr vs)" "list_all readable vs" "rows = map view vs"
    using get_elements_ok [OF assms r(1)] by blast
  with r(2) show "get_levels api v k = Inr ls" by (simp add: get_levels_def parse_levels_eq)
qed

lemma binance_update_eq:
  "readable d \<Longrightarrow> binance_update api d prev = Inr u \<longleftrightarrow>
     has (view d) ''s'' (JStr (du_symbol u)) \<and> has (view d) ''U'' (JInt (uint (first_id u)))
     \<and> has (view d) ''u'' (JInt (uint (final_id u))) \<and> prev = Inr (prev_final_id u)
     \<and> has_levels (view d) ''b'' (du_bids u) \<and> has_levels (view d) ''a'' (du_asks u)"
  by (cases u) (auto simp: binance_update_def try_bind_Inr get_text_eq get_u64_eq get_levels_eq)

lemma bybit_snapshot_eq:
  "readable d \<Longrightarrow> bybit_snapshot api d = Inr m \<longleftrightarrow>
     has (view d) ''s'' (JStr (sm_symbol m)) \<and> has_levels (view d) ''b'' (sm_bids m)
     \<and> has_levels (view d) ''a'' (sm_asks m) \<and> has (view d) ''u'' (JInt (uint (last_update_id m)))"
  by (cases m) (auto simp: bybit_snapshot_def try_bind_Inr get_text_eq get_u64_eq get_levels_eq)

lemma bybit_update_eq:
  "readable d \<Longrightarrow> bybit_update api d = Inr u \<longleftrightarrow>
     has (view d) ''s'' (JStr (du_symbol u)) \<and> has_levels (view d) ''b'' (du_bids u)
     \<and> has_levels (view d) ''a'' (du_asks u) \<and> has (view d) ''u'' (JInt (uint (final_id u)))
     \<and> first_id u = final_id u \<and> prev_final_id u = 0"
  by (cases u) (auto simp: bybit_update_def try_bind_Inr get_text_eq get_u64_eq get_levels_eq)

lemma okx_snapshot_eq:
  "readable d \<Longrightarrow> okx_snapshot api instid d = Inr m \<longleftrightarrow>
     sm_symbol m = instid \<and> has_levels (view d) ''bids'' (sm_bids m) \<and> has_levels (view d) ''asks'' (sm_asks m)
     \<and> (\<exists>n. has (view d) ''seqId'' (JInt n) \<and> fits_i64 n \<and> last_update_id m = word_of_int n)"
  by (cases m) (auto simp: okx_snapshot_def try_bind_Inr get_int_eq get_levels_eq)

lemma okx_update_eq:
  "readable d \<Longrightarrow> okx_update api instid d = Inr u \<longleftrightarrow>
     du_symbol u = instid \<and> has_levels (view d) ''bids'' (du_bids u) \<and> has_levels (view d) ''asks'' (du_asks u)
     \<and> (\<exists>n. has (view d) ''seqId'' (JInt n) \<and> fits_i64 n \<and> first_id u = word_of_int n \<and> final_id u = word_of_int n)
     \<and> (\<exists>k. has (view d) ''prevSeqId'' (JInt k) \<and> fits_i64 k \<and> prev_final_id u = word_of_int k)"
  by (cases u) (auto simp: okx_update_def try_bind_Inr get_int_eq get_levels_eq dest: has_unique)

lemma get_text_cases:
  assumes "readable v"
  obtains (found) s where "get_text api v k = Inr s" "has (view v) k (JStr s)"
  | (none) e where "get_text api v k = Inl e" "\<forall>s. \<not> has (view v) k (JStr s)"
proof (cases "get_text api v k")
  case (Inl e)
  then have "\<forall>s. \<not> has (view v) k (JStr s)" by (simp flip: get_text_eq [OF assms])
  with Inl none show thesis by blast
next
  case (Inr s)
  then show thesis using found get_text_eq [OF assms] by blast
qed

lemma root_object_cases:
  assumes "js_iterate api s = Inr v" "readable v"
  obtains (doc) d where "root_object api s = Inr d" "view d = view v" "is_object (view v)" "readable d"
  | (other) e where "root_object api s = Inl e" "\<not> is_object (view v)"
proof (cases "js_object api v")
  case (Inl e)
  then have "\<not> is_object (view v)" using object_ok [OF assms(2)] by auto
  with Inl assms other show thesis by (simp add: root_object_def)
next
  case (Inr d)
  with assms object [OF assms(2) this] doc show thesis by (simp add: root_object_def)
qed

lemma binance_parse_eq:
  assumes "js_iterate api s = Inr v" "readable v"
  shows "binance_futures_parse_message api s = Inr (Some m) \<longleftrightarrow> binance_message Perp (view v) m"
    "binance_spot_parse_message api s = Inr (Some m) \<longleftrightarrow> binance_message Spot (view v) m"
    "binance_futures_parse_message api s = Inr None \<longleftrightarrow> binance_control (view v)"
    "binance_spot_parse_message api s = Inr None \<longleftrightarrow> binance_control (view v)"
proof -
  have "(binance_futures_parse_message api s = Inr (Some m) \<longleftrightarrow> binance_message Perp (view v) m)
    \<and> (binance_spot_parse_message api s = Inr (Some m) \<longleftrightarrow> binance_message Spot (view v) m)
    \<and> (binance_futures_parse_message api s = Inr None \<longleftrightarrow> binance_control (view v))
    \<and> (binance_spot_parse_message api s = Inr None \<longleftrightarrow> binance_control (view v))"
    using assms
  proof (cases rule: root_object_cases)
    case (doc d)
    from doc(4) show ?thesis
    proof (cases rule: get_text_cases [where k = "''e''"])
      case (found t)
      then have "has (view v) ''e'' (JStr x) \<longleftrightarrow> x = t" for x using doc has_unique by auto
      with found doc show ?thesis
        by (auto simp: binance_futures_parse_message_def binance_spot_parse_message_def binance_message_def
            binance_control_def try_bind_Inr binance_update_eq get_u64_eq split: sum.split)
    next
      case (none e)
      with doc show ?thesis
        by (auto simp: binance_futures_parse_message_def binance_spot_parse_message_def binance_message_def
            binance_control_def split: sum.split)
    qed
  next
    case (other e)
    then have "\<not> has (view v) k x" for k x using has_object by blast
    with other show ?thesis
      by (auto simp: binance_futures_parse_message_def binance_spot_parse_message_def binance_message_def
          binance_control_def split: sum.split)
  qed
  then show "binance_futures_parse_message api s = Inr (Some m) \<longleftrightarrow> binance_message Perp (view v) m"
    "binance_spot_parse_message api s = Inr (Some m) \<longleftrightarrow> binance_message Spot (view v) m"
    "binance_futures_parse_message api s = Inr None \<longleftrightarrow> binance_control (view v)"
    "binance_spot_parse_message api s = Inr None \<longleftrightarrow> binance_control (view v)" by blast+
qed

lemma snapshot_response_eq:
  assumes "js_iterate api body = Inr v" "readable v"
  shows "parse_snapshot_response api symbol body = Inr m \<longleftrightarrow> rest_snapshot (view v) symbol m"
  using assms
proof (cases rule: root_object_cases)
  case (doc d)
  then show ?thesis
    by (cases m) (auto simp: parse_snapshot_response_def try_bind_Inr get_u64_eq get_levels_eq rest_snapshot_def)
next
  case (other e)
  then have "\<not> has (view v) k x" for k x using has_object by blast
  with other show ?thesis by (simp add: parse_snapshot_response_def rest_snapshot_def)
qed

lemma data_object_eq:
  assumes "readable d"
  shows "try_bind (js_field api d k) (js_object api) = Inr u \<Longrightarrow>
      readable u \<and> has (view d) k (view u) \<and> is_object (view u)"
    "has (view d) k j \<Longrightarrow> is_object j \<Longrightarrow> \<exists>u. try_bind (js_field api d k) (js_object api) = Inr u \<and> view u = j"
proof -
  show "readable u \<and> has (view d) k (view u) \<and> is_object (view u)" if r: "try_bind (js_field api d k) (js_object api) = Inr u"
  proof -
    obtain w where "js_field api d k = Inr w" "js_object api w = Inr u" using r by (auto simp: try_bind_Inr)
    then show ?thesis using field_value [OF assms] object by metis
  qed
  show "\<exists>u. try_bind (js_field api d k) (js_object api) = Inr u \<and> view u = j" if r: "has (view d) k j" "is_object j"
  proof -
    obtain w where w: "js_field api d k = Inr w" "readable w" "view w = j"
      using r(1) assms by (auto simp: field_has)
    then obtain u where u: "js_object api w = Inr u" using r(2) object_ok by blast
    with w object [OF w(2) u] show ?thesis by auto
  qed
qed

lemma object_field_cases:
  assumes "readable d"
  obtains (found) u where "try_bind (js_field api d k) (js_object api) = Inr u" "has (view d) k (view u)"
      "is_object (view u)" "readable u"
  | (none) e where "try_bind (js_field api d k) (js_object api) = Inl e" "\<forall>j. has (view d) k j \<longrightarrow> \<not> is_object j"
proof (cases "try_bind (js_field api d k) (js_object api)")
  case (Inl e)
  then have "\<forall>j. has (view d) k j \<longrightarrow> \<not> is_object j" using data_object_eq(2) [OF assms] by fastforce
  with Inl none show thesis by blast
next
  case (Inr u)
  then show thesis using found data_object_eq(1) [OF assms] by blast
qed

lemma bybit_data_eq:
  assumes parse: "parse_bybit_orderbook_message api s = or_bad_message (
      if ty = ''snapshot'' then try_bind (bybit_snapshot api u) (\<lambda>m. Inr (Some (Inl m)))
      else if ty = ''delta'' then try_bind (bybit_update api u) (\<lambda>m. Inr (Some (Inr m)))
      else Inr None)"
    and obj: "is_object j" "is_object (view u)" "readable u" and tp: "has j ''topic'' (JStr topic)"
    and ty: "\<And>x. has j ''type'' (JStr x) \<longleftrightarrow> x = ty" and data: "\<And>x. has j ''data'' x \<longleftrightarrow> x = view u"
  shows "(parse_bybit_orderbook_message api s = Inr (Some m) \<longleftrightarrow> bybit_message j m)
    \<and> (parse_bybit_orderbook_message api s = Inr None \<longleftrightarrow> bybit_control j)"
proof -
  have msg: "bybit_message j m \<longleftrightarrow> (case m of
      Inl sm \<Rightarrow> ty = ''snapshot'' \<and> bybit_snapshot api u = Inr sm
    | Inr x \<Rightarrow> ty = ''delta'' \<and> bybit_update api u = Inr x)"
    using tp unfolding bybit_message_def data ty bybit_snapshot_eq [OF obj(3)] bybit_update_eq [OF obj(3)]
    by (cases m) auto
  have ctl: "bybit_control j \<longleftrightarrow> ty \<noteq> ''snapshot'' \<and> ty \<noteq> ''delta''"
    using tp obj(1,2) unfolding bybit_control_def data ty by blast
  show ?thesis unfolding msg ctl parse by (cases m) (auto simp: try_bind_Inr)
qed

lemma bybit_no_data:
  assumes "\<And>x. has j ''data'' x \<Longrightarrow> \<not> is_object x"
  shows "\<not> bybit_message j m"
proof
  assume "bybit_message j m"
  then obtain x y where "has j ''data'' x" "has x ''s'' y" by (cases m) (auto simp: bybit_message_def)
  then show False using assms has_object by metis
qed

lemma bybit_parse_eq:
  assumes "js_iterate api s = Inr v" "readable v"
  shows "parse_bybit_orderbook_message api s = Inr (Some m) \<longleftrightarrow> bybit_message (view v) m"
    "parse_bybit_orderbook_message api s = Inr None \<longleftrightarrow> bybit_control (view v)"
proof -
  have "(parse_bybit_orderbook_message api s = Inr (Some m) \<longleftrightarrow> bybit_message (view v) m)
    \<and> (parse_bybit_orderbook_message api s = Inr None \<longleftrightarrow> bybit_control (view v))"
    using assms
  proof (cases rule: root_object_cases)
    case (doc d)
    from doc(4) show ?thesis
    proof (cases rule: get_text_cases [where k = "''topic''"])
      case topic: (found topic)
      from doc(4) show ?thesis
      proof (cases rule: get_text_cases [where k = "''type''"])
        case type: (found ty)
        then have ty: "has (view v) ''type'' (JStr x) \<longleftrightarrow> x = ty" for x using doc has_unique by auto
        from doc(4) show ?thesis
        proof (cases rule: object_field_cases [where k = "''data''"])
          case (found u)
          then have "has (view v) ''data'' x \<longleftrightarrow> x = view u" for x using doc(2) has_unique by metis
          with doc topic type ty found show ?thesis
            by (intro bybit_data_eq [where u = u and topic = topic and ty = ty])
              (simp_all add: parse_bybit_orderbook_message_def)
        next
          case (none e)
          with bybit_no_data [of "view v" m] topic type ty doc show ?thesis
            by (auto simp: parse_bybit_orderbook_message_def bybit_control_def)
        qed
      next
        case (none e)
        with topic doc show ?thesis
          by (cases m) (auto simp: parse_bybit_orderbook_message_def bybit_message_def bybit_control_def)
      qed
    next
      case (none e)
      with doc show ?thesis
        by (auto simp: parse_bybit_orderbook_message_def bybit_message_def bybit_control_def)
    qed
  next
    case (other e)
    then have "\<not> has (view v) k x" for k x using has_object by blast
    with other show ?thesis
      by (auto simp: parse_bybit_orderbook_message_def bybit_message_def bybit_control_def)
  qed
  then show "parse_bybit_orderbook_message api s = Inr (Some m) \<longleftrightarrow> bybit_message (view v) m"
    "parse_bybit_orderbook_message api s = Inr None \<longleftrightarrow> bybit_control (view v)" by blast+
qed

text \<open>The two fields of the envelope of an OKX message.\<close>

lemma okx_envelope_cases:
  assumes d: "readable d"
  defines "r \<equiv> try_bind (try_bind (js_field api d ''arg'') (\<lambda>arg. get_text api arg ''instId'')) (\<lambda>instid.
               try_bind (get_text api d ''action'') (\<lambda>action. Inr (instid, action)))"
  obtains (found) instid action arg where "r = Inr (instid, action)" "has (view d) ''arg'' arg"
      "has arg ''instId'' (JStr instid)" "has (view d) ''action'' (JStr action)"
  | (none) e where "r = Inl e" "(\<forall>arg instid. has (view d) ''arg'' arg \<longrightarrow> \<not> has arg ''instId'' (JStr instid))
      \<or> (\<forall>action. \<not> has (view d) ''action'' (JStr action))"
proof (cases r)
  case (Inr x)
  obtain instid action where "x = (instid, action)" by force
  with Inr obtain w where "js_field api d ''arg'' = Inr w" "get_text api w ''instId'' = Inr instid"
    "get_text api d ''action'' = Inr action" by (auto simp: r_def try_bind_Inr)
  with field_value [OF d] have "has (view d) ''arg'' (view w)" "has (view w) ''instId'' (JStr instid)"
    "has (view d) ''action'' (JStr action)" using get_text_eq d by metis+
  then show thesis using found Inr \<open>x = _\<close> by blast
next
  case (Inl e)
  have "r = Inr (instid, action)"
    if h: "has (view d) ''arg'' arg" "has arg ''instId'' (JStr instid)" "has (view d) ''action'' (JStr action)"
    for arg instid action
  proof -
    obtain w where "js_field api d ''arg'' = Inr w" "readable w" "view w = arg" using h(1) d by (auto simp: field_has)
    moreover have "get_text api w ''instId'' = Inr instid" "get_text api d ''action'' = Inr action"
      using h(2,3) d \<open>readable w\<close> \<open>view w = arg\<close> by (simp_all add: get_text_eq)
    ultimately show ?thesis by (simp add: r_def)
  qed
  then show thesis using none Inl by (metis Inl_Inr_False)
qed

lemma get_elements_cases:
  assumes "readable d"
  obtains (found) vs where "get_elements api d k = Inr (map Inr vs)" "has (view d) k (JArr (map view vs))"
      "list_all readable vs"
  | (none) e where "get_elements api d k = Inl e" "\<forall>js. \<not> has (view d) k (JArr js)"
proof (cases "get_elements api d k")
  case (Inl e)
  then have "\<forall>js. \<not> has (view d) k (JArr js)" using get_elements_ok [OF assms] by fastforce
  with Inl none show thesis by blast
next
  case (Inr es)
  then show thesis using found get_elements_value [OF assms] by blast
qed

text \<open>The part of an OKX message below the envelope.\<close>

lemma okx_entry_eq:
  assumes "list_all readable vs"
  shows "okx_entry api instid action (map Inr vs) = Inr (Some m) \<longleftrightarrow>
     (\<exists>e ws. vs = e # ws \<and> (case m of
        Inl sm \<Rightarrow> action = ''snapshot'' \<and> okx_snapshot api instid e = Inr sm
      | Inr u \<Rightarrow> action = ''update'' \<and> okx_update api instid e = Inr u))"
    "okx_entry api instid action (map Inr vs) = Inr None \<longleftrightarrow>
     (\<exists>e ws. vs = e # ws \<and> is_object (view e) \<and> action \<noteq> ''snapshot'' \<and> action \<noteq> ''update'')"
proof -
  have "(okx_entry api instid action (map Inr vs) = Inr (Some m) \<longleftrightarrow>
      (\<exists>e ws. vs = e # ws \<and> (case m of
         Inl sm \<Rightarrow> action = ''snapshot'' \<and> okx_snapshot api instid e = Inr sm
       | Inr u \<Rightarrow> action = ''update'' \<and> okx_update api instid e = Inr u)))
    \<and> (okx_entry api instid action (map Inr vs) = Inr None \<longleftrightarrow>
      (\<exists>e ws. vs = e # ws \<and> is_object (view e) \<and> action \<noteq> ''snapshot'' \<and> action \<noteq> ''update''))"
  proof (cases vs)
    case (Cons e ws)
    with assms have e: "readable e" by simp
    show ?thesis
    proof (cases "js_object api e")
      case (Inl x)
      then have no: "\<not> is_object (view e)" using object_ok [OF e] by auto
      then have "okx_snapshot api instid e \<noteq> Inr sm" "okx_update api instid e \<noteq> Inr u" for sm u
        using has_object e by (auto simp: okx_snapshot_eq okx_update_eq)
      with Inl Cons no show ?thesis by (cases m) (auto simp: okx_entry_def)
    next
      case (Inr d)
      then have d: "readable d" "view d = view e" "is_object (view e)" using object [OF e] by auto
      then have "okx_snapshot api instid d = Inr sm \<longleftrightarrow> okx_snapshot api instid e = Inr sm"
        "okx_update api instid d = Inr u \<longleftrightarrow> okx_update api instid e = Inr u" for sm u
        using e by (simp_all add: okx_snapshot_eq okx_update_eq)
      with Inr Cons d show ?thesis by (cases m) (auto simp: okx_entry_def try_bind_Inr)
    qed
  qed (simp add: okx_entry_def)
  then show "okx_entry api instid action (map Inr vs) = Inr (Some m) \<longleftrightarrow>
      (\<exists>e ws. vs = e # ws \<and> (case m of
         Inl sm \<Rightarrow> action = ''snapshot'' \<and> okx_snapshot api instid e = Inr sm
       | Inr u \<Rightarrow> action = ''update'' \<and> okx_update api instid e = Inr u))"
    "okx_entry api instid action (map Inr vs) = Inr None \<longleftrightarrow>
      (\<exists>e ws. vs = e # ws \<and> is_object (view e) \<and> action \<noteq> ''snapshot'' \<and> action \<noteq> ''update'')"
    by blast+
qed

lemma okx_data_eq:
  assumes d: "view d = j" "readable d" and obj: "is_object j"
    and arg: "\<And>x. has j ''arg'' x \<longleftrightarrow> x = arg" and inst: "\<And>i. has arg ''instId'' (JStr i) \<longleftrightarrow> i = instid"
    and act: "\<And>t. has j ''action'' (JStr t) \<longleftrightarrow> t = action"
  defines "parse \<equiv> or_bad_message (try_bind (get_elements api d ''data'') (okx_entry api instid action))"
  shows "(parse = Inr (Some m) \<longleftrightarrow> okx_message j m) \<and> (parse = Inr None \<longleftrightarrow> okx_control j)"
  using d(2)
proof (cases rule: get_elements_cases [where k = "''data''"])
  case (found vs)
  then have data: "has j ''data'' (JArr js) \<longleftrightarrow> js = map view vs" for js
    using d has_unique by (metis json.inject(5))
  have msg: "okx_message j m \<longleftrightarrow> (\<exists>e ws. vs = e # ws \<and> (case m of
      Inl sm \<Rightarrow> action = ''snapshot'' \<and> okx_snapshot api instid e = Inr sm
    | Inr u \<Rightarrow> action = ''update'' \<and> okx_update api instid e = Inr u))"
    unfolding okx_message_def arg act data using found(3)
    by (cases m; cases vs) (auto simp: inst okx_snapshot_eq okx_update_eq)
  have ctl: "okx_control j \<longleftrightarrow>
      (\<exists>e ws. vs = e # ws \<and> is_object (view e) \<and> action \<noteq> ''snapshot'' \<and> action \<noteq> ''update'')"
    unfolding okx_control_def arg act data using obj inst by (cases vs) auto
  show ?thesis unfolding msg ctl parse_def by (simp add: found(1) okx_entry_eq [OF found(3)])
next
  case (none e)
  then have "\<not> okx_message j m" "\<not> okx_control j"
    unfolding okx_message_def okx_control_def arg act using d inst by auto
  with none show ?thesis by (simp add: parse_def)
qed

lemma okx_parse_eq:
  assumes "js_iterate api s = Inr v" "readable v" "s \<noteq> ''pong''"
  shows "okx_parse_message api s = Inr (Some m) \<longleftrightarrow> okx_message (view v) m"
    "okx_parse_message api s = Inr None \<longleftrightarrow> okx_control (view v)"
proof -
  have "(okx_parse_message api s = Inr (Some m) \<longleftrightarrow> okx_message (view v) m)
    \<and> (okx_parse_message api s = Inr None \<longleftrightarrow> okx_control (view v))"
    using assms(1,2)
  proof (cases rule: root_object_cases)
    case (doc d)
    from doc(4) show ?thesis
    proof (cases rule: okx_envelope_cases)
      case env: (found instid action arg)
      have arg: "has (view v) ''arg'' x \<longleftrightarrow> x = arg" and inst: "has arg ''instId'' (JStr i) \<longleftrightarrow> i = instid"
        and act: "has (view v) ''action'' (JStr t) \<longleftrightarrow> t = action" for x i t
        using env(2-4) doc(2) has_unique by (metis, metis json.inject(4), metis json.inject(4))
      have parse: "okx_parse_message api s =
          or_bad_message (try_bind (get_elements api d ''data'') (okx_entry api instid action))"
        using assms(3) by (simp add: okx_parse_message_def doc(1) env(1))
      show ?thesis unfolding parse by (rule okx_data_eq [OF doc(2,4,3) arg inst act])
    next
      case (none e)
      then have "\<not> okx_message (view v) m"
        unfolding okx_message_def doc(2) by (cases m) auto
      moreover have "okx_control (view v)" using none(2) doc(3) unfolding okx_control_def doc(2) by blast
      ultimately show ?thesis using assms(3) by (simp add: okx_parse_message_def doc(1) none(1))
    qed
  next
    case (other e)
    then have "\<not> has (view v) k x" for k x using has_object by blast
    with other assms(3) show ?thesis
      by (simp add: okx_parse_message_def okx_message_def okx_control_def)
  qed
  then show "okx_parse_message api s = Inr (Some m) \<longleftrightarrow> okx_message (view v) m"
    "okx_parse_message api s = Inr None \<longleftrightarrow> okx_control (view v)" by blast+
qed

end

section \<open>The feeds\<close>

lemma from_decimal_string_fits: "from_decimal_string d s = Inr r \<Longrightarrow> fits_i64 r"
proof -
  assume "from_decimal_string d s = Inr r"
  then obtain negative ip dot fp where "decimal_shape ip dot fp" "decimal_magnitude d ip fp \<le> i64_max"
    "r = apply_sign negative (decimal_magnitude d ip fp)" using from_decimal_string_Inr by blast
  moreover from this have "0 \<le> decimal_magnitude d ip fp"
    using digits_value_bounds [of ip] digits_value_bounds [of fp]
    by (auto simp: decimal_magnitude_def decimal_shape_def intro!: round_div_nonneg_result)
  ultimately show ?thesis by (auto simp: apply_sign_def i64_defs)
qed

lemma has_levels_fit: "has_levels j k ls \<Longrightarrow> \<forall>(p, s) \<in> set ls. fits_i64 p \<and> fits_i64 s"
proof -
  have "list_all2 level_json rows ls \<Longrightarrow> \<forall>(p, s) \<in> set ls. fits_i64 p \<and> fits_i64 s" for rows
    by (induction rows ls rule: list_all2_induct) (auto simp: level_json_def dest: from_decimal_string_fits)
  then show "has_levels j k ls \<Longrightarrow> \<forall>(p, s) \<in> set ls. fits_i64 p \<and> fits_i64 s" by (auto simp: has_levels_def)
qed

lemma parse_message_error: "parse_message (venue_feed v) api s = Inl e \<Longrightarrow> e = bad_message"
  by (cases v rule: venue_id.exhaust; cases "venue_exchange v"; cases "venue_type v")
    (auto simp: venue_feed_def feed_classes binance_spot_parse_message_def binance_futures_parse_message_def
      parse_bybit_orderbook_message_def okx_parse_message_def split: if_splits)

lemma venue_message_fits:
  "venue_message v j m \<Longrightarrow> \<forall>(p, q) \<in> set (case m of Inl x \<Rightarrow> sm_bids x @ sm_asks x
     | Inr u \<Rightarrow> du_bids u @ du_asks u). fits_i64 p \<and> fits_i64 q"
  by (cases m; cases "venue_exchange v")
    (auto simp: venue_message_def binance_message_def bybit_message_def okx_message_def dest!: has_levels_fit)


definition sample_document :: json where
  "sample_document = JObj [
     (''e'', JStr ''depthUpdate''), (''E'', JInt 1700000000000), (''s'', JStr ''BTCUSDT''),
     (''U'', JInt 157), (''u'', JInt 160), (''pu'', JInt 149),
     (''b'', JArr [JArr [JStr ''0.5'', JStr ''10'']]), (''a'', JArr [])]"

definition sample_update :: depth_update where
  "sample_update = \<lparr>du_symbol = ''BTCUSDT'', first_id = 157, final_id = 160, prev_final_id = 149,
     du_bids = [(500000000, 10000000)], du_asks = []\<rparr>"


end
