(* ===== verification/Book_Subscription.thy ===== *)
theory Book_Subscription
  imports Json_Api Symbol Double_Format
begin

text \<open>
  \<^verbatim>\<open>ingestion/book_subscription.hpp\<close> and \<^verbatim>\<open>ingestion/idle_timeout.hpp\<close>: the three sections of
  the configuration document. The theorems hold for every JSON library, whatever it returns: what is
  accepted is well-formed because the code checks it.
\<close>

section \<open>The code: subscriptions\<close>

record venue_subscription =
  sub_venue_id :: venue_id
  sub_book_id :: book_id
  sub_native_symbol :: native_symbol

definition parse_market_type :: "string \<Rightarrow> market_type option" where
  "parse_market_type type_field =
     (if type_field = ''SPOT'' then Some Spot else if type_field = ''PERP'' then Some Perp else None)"

text \<open>How a parse is left early: an exception of the library, or a returned message.\<close>

datatype exit = Thrown json_error | Returned string

definition throwing :: "json_error + 'a \<Rightarrow> exit + 'a" where
  "throwing r = (case r of Inl e \<Rightarrow> Inl (Thrown e) | Inr x \<Rightarrow> Inr x)"

definition caught :: "string \<Rightarrow> json_error + 'a \<Rightarrow> exit + 'a" where
  "caught msg r = (case r of Inl e \<Rightarrow> Inl (Returned msg) | Inr x \<Rightarrow> Inr x)"

definition require :: "string \<Rightarrow> 'a option \<Rightarrow> exit + 'a" where
  "require msg r = (case r of None \<Rightarrow> Inl (Returned msg) | Some x \<Rightarrow> Inr x)"

definition quoted :: "string \<Rightarrow> string" where
  "quoted s = ''\"'' @ s @ ''\"''"

text \<open>The outer \<^verbatim>\<open>try\<close> of the three functions.\<close>

definition config_result :: "'v json_api \<Rightarrow> exit + 'a \<Rightarrow> string + 'a" where
  "config_result api r =
     (case r of
        Inl (Thrown e) \<Rightarrow> Inl (''malformed subscription config: '' @ js_what api e)
      | Inl (Returned msg) \<Rightarrow> Inl msg
      | Inr x \<Rightarrow> Inr x)"

text \<open>The loop over the venues of one book.\<close>

fun parse_venues ::
  "'v json_api \<Rightarrow> book_id \<Rightarrow> exchange list \<Rightarrow> (json_error + 'v) list \<Rightarrow> exit + venue_subscription list" where
  "parse_venues api i seen_exchanges [] = Inr []"
| "parse_venues api i seen_exchanges (venue_value # rest) =
     try_bind (caught (''\"venues\" for '' @ quoted (book_id_to_string i) @ '' must be an array of strings'')
                 (try_bind venue_value (js_string api))) (\<lambda>venue_token.
     try_bind (require (''unknown venue '' @ quoted venue_token @ '' for '' @ quoted (book_id_to_string i))
                 (parse_exchange venue_token)) (\<lambda>x.
     if x \<in> set seen_exchanges
     then Inl (Returned (''venue '' @ exchange_name x @ '' listed twice for '' @ quoted (book_id_to_string i)))
     else try_bind (parse_venues api i (x # seen_exchanges) rest) (\<lambda>subs.
       Inr (\<lparr>sub_venue_id = VenueId x (book_type i), sub_book_id = i,
             sub_native_symbol = native_symbol x (book_symbol i) (book_type i)\<rparr> # subs))))"

definition book_fields :: "'v json_api \<Rightarrow> 'v \<Rightarrow> json_error + (string \<times> string \<times> (json_error + 'v) list)" where
  "book_fields api book =
     try_bind (get_text api book ''symbol'') (\<lambda>symbol_field.
     try_bind (get_text api book ''type'') (\<lambda>type_field.
     try_bind (get_elements api book ''venues'') (\<lambda>venues_field.
     Inr (symbol_field, type_field, venues_field))))"

text \<open>The loop over the books.\<close>

fun parse_books ::
  "'v json_api \<Rightarrow> book_id list \<Rightarrow> (json_error + 'v) list \<Rightarrow> exit + venue_subscription list" where
  "parse_books api seen_book_ids [] = Inr []"
| "parse_books api seen_book_ids (book_value # rest) =
     try_bind (throwing (try_bind book_value (js_object api))) (\<lambda>book.
     try_bind (caught ''each entry in \"books\" needs a \"symbol\" (string), \"type\" (string), and \"venues\" (array of strings)''
                 (book_fields api book)) (\<lambda>(symbol_field, type_field, venues_field).
     try_bind (require (''unknown book type '' @ quoted type_field @ '' (expected SPOT or PERP) for symbol ''
                          @ quoted symbol_field) (parse_market_type type_field)) (\<lambda>t.
     try_bind (require (''malformed symbol (expected \"BASE_QUOTE\", e.g. \"BTC_USDT\"): '' @ quoted symbol_field)
                 (split_base_quote symbol_field)) (\<lambda>symbol.
     let i = BookId symbol t
     in if i \<in> set seen_book_ids
        then Inl (Returned (''book '' @ quoted (book_id_to_string i) @ '' is configured more than once''))
        else try_bind (parse_venues api i [] venues_field) (\<lambda>subs.
          if subs = [] then Inl (Returned (''empty venue list for '' @ quoted (book_id_to_string i)))
          else try_bind (parse_books api (i # seen_book_ids) rest) (\<lambda>subs'. Inr (subs @ subs')))))))"

definition parse_book_subscriptions :: "'v json_api \<Rightarrow> string \<Rightarrow> string + venue_subscription list" where
  "parse_book_subscriptions api json_text = config_result api (
     try_bind (throwing (try_bind (js_iterate api json_text) (\<lambda>doc. get_elements api doc ''books''))) (\<lambda>bs.
     try_bind (parse_books api [] bs) (\<lambda>result.
     if result = [] then Inl (Returned ''no book subscriptions configured'') else Inr result)))"

text \<open>\<^verbatim>\<open>padded_string::load\<close> is a parameter: the text of a file, or an error message.\<close>

definition load_config :: "(string \<Rightarrow> string + string) \<Rightarrow> (string \<Rightarrow> string + 'a) \<Rightarrow> string \<Rightarrow> string + 'a" where
  "load_config load_file parse path =
     (case load_file path of
        Inl msg \<Rightarrow> Inl (''failed to read subscription config '' @ quoted path @ '': '' @ msg)
      | Inr json \<Rightarrow> parse json)"

definition load_book_subscriptions ::
  "(string \<Rightarrow> string + string) \<Rightarrow> 'v json_api \<Rightarrow> string \<Rightarrow> string + venue_subscription list" where
  "load_book_subscriptions load_file api = load_config load_file (parse_book_subscriptions api)"

section \<open>The code: idle timeouts\<close>

text \<open>Timeouts are in seconds.\<close>

definition kDefaultIdleTimeout :: int where "kDefaultIdleTimeout = 30"

definition kMaxIdleTimeout :: int where "kMaxIdleTimeout = 24 * 60 * 60"

record idle_timeout_config =
  default_timeout :: int
  overrides :: "venue_id \<rightharpoonup> int"

definition for_venue :: "idle_timeout_config \<Rightarrow> venue_id \<Rightarrow> int" where
  "for_venue config v = (case overrides config v of Some t \<Rightarrow> t | None \<Rightarrow> default_timeout config)"

text \<open>An optional number: absent, present, or an error.\<close>

definition optional_int :: "'v json_api \<Rightarrow> string \<Rightarrow> 'v \<Rightarrow> string \<Rightarrow> exit + int option" where
  "optional_int api range_error doc k =
     (case get_int api doc k of
        Inr n \<Rightarrow> Inr (Some n)
      | Inl e \<Rightarrow>
          if e = INCORRECT_TYPE then Inl (Returned range_error)
          else if e \<noteq> NO_SUCH_FIELD then Inl (Thrown e)
          else Inr None)"

definition idle_timeout_seconds_range_error :: string where
  "idle_timeout_seconds_range_error =
     ''\"idle_timeout_seconds\" must be a positive number of seconds, no more than ''
     @ to_string kMaxIdleTimeout @ '' (24 hours)''"

definition override_fields :: "'v json_api \<Rightarrow> json_error + 'v \<Rightarrow> exit + (string \<times> string \<times> int)" where
  "override_fields api entry_value =
     (case try_bind (try_bind entry_value (js_object api)) (\<lambda>entry.
           try_bind (get_text api entry ''venue'') (\<lambda>venue_token.
           try_bind (get_text api entry ''type'') (\<lambda>type_field.
           try_bind (get_int api entry ''seconds'') (\<lambda>seconds. Inr (venue_token, type_field, seconds))))) of
        Inr x \<Rightarrow> Inr x
      | Inl e \<Rightarrow>
          if e \<noteq> NO_SUCH_FIELD \<and> e \<noteq> INCORRECT_TYPE then Inl (Thrown e)
          else Inl (Returned ''each entry in \"venue_idle_timeout_overrides\" needs \"venue\" (string), \"type\" (string), and \"seconds\" (positive integer)''))"

text \<open>The loop over the overrides.\<close>

fun parse_overrides ::
  "'v json_api \<Rightarrow> idle_timeout_config \<Rightarrow> (json_error + 'v) list \<Rightarrow> exit + idle_timeout_config" where
  "parse_overrides api config [] = Inr config"
| "parse_overrides api config (entry_value # rest) =
     try_bind (override_fields api entry_value) (\<lambda>(venue_token, type_field, seconds).
     if seconds \<le> 0 \<or> seconds > kMaxIdleTimeout
     then Inl (Returned (''idle timeout override for '' @ quoted venue_token
            @ '' must be a positive number of seconds, no more than '' @ to_string kMaxIdleTimeout @ '' (24 hours)''))
     else
       try_bind (require (''unknown venue '' @ quoted venue_token @ '' in \"venue_idle_timeout_overrides\"'')
                   (parse_exchange venue_token)) (\<lambda>x.
       try_bind (require (''unknown type '' @ quoted type_field
                            @ '' in \"venue_idle_timeout_overrides\" (expected SPOT or PERP)'')
                   (parse_market_type type_field)) (\<lambda>t.
       if overrides config (VenueId x t) \<noteq> None
       then Inl (Returned (''idle timeout override for '' @ quoted (venue_token @ ''_'' @ type_field)
              @ '' is configured more than once''))
       else parse_overrides api (config\<lparr>overrides := (overrides config)(VenueId x t \<mapsto> seconds)\<rparr>) rest)))"

definition parse_idle_timeout_config :: "'v json_api \<Rightarrow> string \<Rightarrow> string + idle_timeout_config" where
  "parse_idle_timeout_config api json_text = config_result api (
     try_bind (throwing (js_iterate api json_text)) (\<lambda>doc.
     try_bind (optional_int api idle_timeout_seconds_range_error doc ''idle_timeout_seconds'') (\<lambda>default_seconds.
     try_bind (case default_seconds of
                 None \<Rightarrow> Inr \<lparr>default_timeout = kDefaultIdleTimeout, overrides = Map.empty\<rparr>
               | Some n \<Rightarrow>
                   if n \<le> 0 \<or> n > kMaxIdleTimeout then Inl (Returned idle_timeout_seconds_range_error)
                   else Inr \<lparr>default_timeout = n, overrides = Map.empty\<rparr>) (\<lambda>config.
     case get_elements api doc ''venue_idle_timeout_overrides'' of
       Inr overrides_field \<Rightarrow> parse_overrides api config overrides_field
     | Inl e \<Rightarrow> if e \<noteq> NO_SUCH_FIELD then Inl (Thrown e) else Inr config))))"

definition load_idle_timeout_config ::
  "(string \<Rightarrow> string + string) \<Rightarrow> 'v json_api \<Rightarrow> string \<Rightarrow> string + idle_timeout_config" where
  "load_idle_timeout_config load_file api = load_config load_file (parse_idle_timeout_config api)"

section \<open>The code: threads\<close>

definition kMaxIoThreads :: int where "kMaxIoThreads = 64"

definition io_threads_range_error :: string where
  "io_threads_range_error =
     ''\"io_threads\" must be a positive integer, no more than '' @ to_string kMaxIoThreads"

definition parse_io_threads :: "'v json_api \<Rightarrow> string \<Rightarrow> string + int" where
  "parse_io_threads api json_text = config_result api (
     try_bind (throwing (js_iterate api json_text)) (\<lambda>doc.
     try_bind (optional_int api io_threads_range_error doc ''io_threads'') (\<lambda>io_threads.
     case io_threads of
       None \<Rightarrow> Inr 1
     | Some n \<Rightarrow>
         if n \<le> 0 \<or> n > kMaxIoThreads then Inl (Returned io_threads_range_error) else Inr n)))"

definition load_io_threads :: "(string \<Rightarrow> string + string) \<Rightarrow> 'v json_api \<Rightarrow> string \<Rightarrow> string + int" where
  "load_io_threads load_file api = load_config load_file (parse_io_threads api)"

section \<open>What is accepted\<close>

lemma exits_Inr [simp]:
  "throwing r = Inr x \<longleftrightarrow> r = Inr x" "caught msg r = Inr x \<longleftrightarrow> r = Inr x" "require msg opt = Inr x \<longleftrightarrow> opt = Some x"
  by (simp_all add: throwing_def caught_def require_def split: sum.split option.split)

lemma config_result_Inr [simp]: "config_result api r = Inr x \<longleftrightarrow> r = Inr x"
  by (simp add: config_result_def split: sum.split exit.split)

text \<open>A subscription of a spellable book, at a venue of the book's market, under its native name.\<close>

definition subscription_ok :: "venue_subscription \<Rightarrow> bool" where
  "subscription_ok s \<longleftrightarrow>
     spellable (sub_book_id s) \<and> venue_type (sub_venue_id s) = book_type (sub_book_id s)
     \<and> sub_native_symbol s =
         native_symbol (venue_exchange (sub_venue_id s)) (book_symbol (sub_book_id s)) (book_type (sub_book_id s))"

lemma parse_venues_ok:
  "parse_venues api i seen es = Inr subs \<Longrightarrow> spellable i \<Longrightarrow>
     distinct (map sub_venue_id subs)
     \<and> (\<forall>s \<in> set subs. sub_book_id s = i \<and> subscription_ok s \<and> venue_exchange (sub_venue_id s) \<notin> set seen)"
proof (induction es arbitrary: seen subs)
  case (Cons e es)
  from Cons.prems(1) obtain x subs' where x: "x \<notin> set seen" and subs': "parse_venues api i (x # seen) es = Inr subs'"
    and subs: "subs = \<lparr>sub_venue_id = VenueId x (book_type i), sub_book_id = i,
        sub_native_symbol = native_symbol x (book_symbol i) (book_type i)\<rparr> # subs'"
    by (auto simp: try_bind_Inr split: if_splits)
  note rest = Cons.IH [OF subs' Cons.prems(2)]
  then have "VenueId x (book_type i) \<notin> sub_venue_id ` set subs'" by (metis imageE list.set_intros(1) venue_id.sel(1))
  with rest x subs Cons.prems(2) show ?case by (auto simp: subscription_ok_def)
qed simp

lemma parse_books_ok:
  "parse_books api seen es = Inr subs \<Longrightarrow>
     distinct (map (\<lambda>s. (sub_venue_id s, sub_book_id s)) subs)
     \<and> (\<forall>s \<in> set subs. subscription_ok s \<and> sub_book_id s \<notin> set seen)"
proof (induction es arbitrary: seen subs)
  case (Cons e es)
  from Cons.prems obtain t symbol token vs subs1 subs2 where
    i: "split_base_quote token = Some symbol" "BookId symbol t \<notin> set seen"
    and subs1: "parse_venues api (BookId symbol t) [] vs = Inr subs1"
    and subs2: "parse_books api (BookId symbol t # seen) es = Inr subs2" and subs: "subs = subs1 @ subs2"
    by (auto simp: try_bind_Inr Let_def split: if_splits prod.splits)
  have "spellable (BookId symbol t)" using split_base_quote_Some [OF i(1)] by (auto simp: spellable_def)
  note one = parse_venues_ok [OF subs1 this] and rest = Cons.IH [OF subs2]
  have "distinct (map (\<lambda>s. (sub_venue_id s, sub_book_id s)) subs1)"
    using one by (auto simp: distinct_map inj_on_def)
  with one rest i(2) show ?case by (auto simp: subs)
qed simp

definition timeouts_ok :: "idle_timeout_config \<Rightarrow> bool" where
  "timeouts_ok config \<longleftrightarrow> (\<forall>v. 1 \<le> for_venue config v \<and> for_venue config v \<le> kMaxIdleTimeout)"

lemma for_venue_override:
  "for_venue (config\<lparr>overrides := (overrides config)(v \<mapsto> n)\<rparr>) w = (if w = v then n else for_venue config w)"
  by (simp add: for_venue_def split: option.split)

lemma parse_overrides_ok: "parse_overrides api config es = Inr config' \<Longrightarrow> timeouts_ok config \<Longrightarrow> timeouts_ok config'"
proof (induction es arbitrary: config)
  case (Cons e es)
  from Cons.prems(1) obtain x t n where n: "0 < n" "n \<le> kMaxIdleTimeout"
    and rest: "parse_overrides api (config\<lparr>overrides := (overrides config)(VenueId x t \<mapsto> n)\<rparr>) es = Inr config'"
    by (auto simp: try_bind_Inr not_le not_less split: if_splits prod.splits)
  have "timeouts_ok (config\<lparr>overrides := (overrides config)(VenueId x t \<mapsto> n)\<rparr>)"
    using n Cons.prems(2) by (simp add: timeouts_ok_def for_venue_override)
  then show ?case by (rule Cons.IH [OF rest])
qed simp

lemma parse_idle_timeout_ok:
  assumes "parse_idle_timeout_config api json_text = Inr config"
  shows "timeouts_ok config"
proof -
  obtain doc default_seconds config0 where
    base: "(case default_seconds of
        None \<Rightarrow> Inr \<lparr>default_timeout = kDefaultIdleTimeout, overrides = Map.empty\<rparr>
      | Some n \<Rightarrow>
          if n \<le> 0 \<or> n > kMaxIdleTimeout then Inl (Returned idle_timeout_seconds_range_error)
          else Inr \<lparr>default_timeout = n, overrides = Map.empty\<rparr>) = Inr config0"
    and rest: "(case get_elements api doc ''venue_idle_timeout_overrides'' of
        Inr es \<Rightarrow> parse_overrides api config0 es
      | Inl e \<Rightarrow> if e \<noteq> NO_SUCH_FIELD then Inl (Thrown e) else Inr config0) = Inr config"
    using assms unfolding parse_idle_timeout_config_def config_result_Inr try_bind_Inr by blast
  have "timeouts_ok config0"
    using base by (auto simp: timeouts_ok_def for_venue_def kMaxIdleTimeout_def kDefaultIdleTimeout_def
        split: option.splits if_splits)
  with rest parse_overrides_ok [of api config0 _ config] show ?thesis by (auto split: sum.splits if_splits)
qed

lemma parse_io_threads_ok:
  assumes "parse_io_threads api json_text = Inr n"
  shows "1 \<le> n \<and> n \<le> kMaxIoThreads"
proof -
  obtain io_threads where "(case io_threads of
      None \<Rightarrow> Inr 1
    | Some n \<Rightarrow>
        if n \<le> 0 \<or> n > kMaxIoThreads then Inl (Returned io_threads_range_error) else Inr n) = Inr n"
    using assms unfolding parse_io_threads_def config_result_Inr try_bind_Inr by blast
  then show ?thesis by (auto simp: kMaxIoThreads_def split: option.splits if_splits)
qed

lemma parse_book_subscriptions_ok:
  assumes "parse_book_subscriptions api json_text = Inr subs"
  shows "subs \<noteq> []" "distinct (map (\<lambda>s. (sub_venue_id s, sub_book_id s)) subs)" "\<forall>s \<in> set subs. subscription_ok s"
proof -
  obtain es where "parse_books api [] es = Inr subs" and ne: "subs \<noteq> []"
    using assms by (auto simp: parse_book_subscriptions_def try_bind_Inr split: if_splits)
  from parse_books_ok [OF this(1)] ne show "subs \<noteq> []"
    "distinct (map (\<lambda>s. (sub_venue_id s, sub_book_id s)) subs)" "\<forall>s \<in> set subs. subscription_ok s" by simp_all
qed

text \<open>
  C32. An accepted configuration is well-formed, whatever the JSON library returns. There is a
  subscription; no venue is subscribed twice for a book; every book is one whose spelling reads back,
  every venue is of the book's market and is asked for the symbol it lists the book under; every idle
  timeout is between one second and a day, so that its conversion to nanoseconds cannot overflow; and
  the number of threads is between 1 and 64.
\<close>

theorem accepted_configuration_is_well_formed:
  assumes "parse_book_subscriptions api json_text = Inr subs"
    "parse_idle_timeout_config api json_text = Inr config" "parse_io_threads api json_text = Inr n"
  shows "subs \<noteq> [] \<and> distinct (map (\<lambda>s. (sub_venue_id s, sub_book_id s)) subs)
    \<and> (\<forall>s \<in> set subs. parse_book_id (book_id_to_string (sub_book_id s)) = Some (sub_book_id s)
        \<and> venue_type (sub_venue_id s) = book_type (sub_book_id s)
        \<and> sub_native_symbol s = native_symbol (venue_exchange (sub_venue_id s))
            (book_symbol (sub_book_id s)) (book_type (sub_book_id s)))
    \<and> (\<forall>v. 1 \<le> for_venue config v \<and> for_venue config v \<le> 86400 \<and> fits_i64 (for_venue config v * 1000000000))
    \<and> 1 \<le> n \<and> n \<le> 64"
proof -
  have "timeouts_ok config" by (rule parse_idle_timeout_ok [OF assms(2)])
  then have "\<forall>v. 1 \<le> for_venue config v \<and> for_venue config v \<le> 86400"
    by (simp add: timeouts_ok_def kMaxIdleTimeout_def)
  moreover have "fits_i64 (t * 1000000000)" if "1 \<le> t" "t \<le> 86400" for t using that by (simp add: i64_defs)
  moreover have "parse_book_id (book_id_to_string i) = Some i" if "spellable i" for i
    using that by (rule parse_book_id_spelled)
  ultimately show ?thesis
    using parse_book_subscriptions_ok [OF assms(1)] parse_io_threads_ok [OF assms(3)]
    by (simp add: subscription_ok_def kMaxIoThreads_def)
qed

definition sample_config :: json where
  "sample_config = JObj [
     (''books'', JArr [
        JObj [(''symbol'', JStr ''BTC_USDT''), (''type'', JStr ''SPOT''), (''venues'', JArr [JStr ''OKX'', JStr ''BYBIT''])]]),
     (''io_threads'', JInt 4),
     (''venue_idle_timeout_overrides'', JArr [
        JObj [(''venue'', JStr ''OKX''), (''type'', JStr ''SPOT''), (''seconds'', JInt 120)]])]"

definition sample_api :: "json json_api" where
  "sample_api = tree_api (\<lambda>s. Inr sample_config)"

definition sample_subscriptions :: "venue_subscription list" where
  "sample_subscriptions =
     (let i = BookId (BaseQuote (Asset ''BTC'') (Asset ''USDT'')) Spot
      in [\<lparr>sub_venue_id = VenueId Okx Spot, sub_book_id = i, sub_native_symbol = ''BTC-USDT''\<rparr>,
          \<lparr>sub_venue_id = VenueId Bybit Spot, sub_book_id = i, sub_native_symbol = ''BTCUSDT''\<rparr>])"

lemma sample_config_parses: "parse_book_subscriptions sample_api ''config'' = Inr sample_subscriptions"
  by code_simp

lemma sample_timeouts:
  "parse_idle_timeout_config sample_api ''config''
     = Inr \<lparr>default_timeout = 30, overrides = [VenueId Okx Spot \<mapsto> 120]\<rparr>"
  by (simp add: parse_idle_timeout_config_def sample_api_def sample_config_def tree_api_def throwing_def
      optional_int_def get_int_def get_elements_def get_text_def override_fields_def config_result_def require_def
      kDefaultIdleTimeout_def kMaxIdleTimeout_def parse_exchange_def parse_market_type_def i64_defs)

lemma sample_threads: "parse_io_threads sample_api ''config'' = Inr 4"
  by code_simp

theorem accepted_configuration_is_well_formed_witness:
  "\<exists>config. parse_idle_timeout_config sample_api ''config'' = Inr config
     \<and> for_venue config (VenueId Okx Spot) = 120 \<and> parse_io_threads sample_api ''config'' = Inr 4
     \<and> distinct (map (\<lambda>s. (sub_venue_id s, sub_book_id s)) sample_subscriptions)
     \<and> fits_i64 (for_venue config (VenueId Okx Spot) * 1000000000)"
proof -
  define config where "config = \<lparr>default_timeout = 30, overrides = [VenueId Okx Spot \<mapsto> 120 :: int]\<rparr>"
  have idle: "parse_idle_timeout_config sample_api ''config'' = Inr config"
    unfolding config_def by (rule sample_timeouts)
  have "for_venue config (VenueId Okx Spot) = 120" by (simp add: config_def for_venue_def)
  with accepted_configuration_is_well_formed [OF sample_config_parses idle sample_threads] idle sample_threads
  show ?thesis by blast
qed

end
