(* ===== verification/Sync_Refinement.thy ===== *)
theory Sync_Refinement
  imports Symbol_Sync Aggregate_Book
begin

text \<open>
  What the resynchronisation machine promises: the book its actions build is the exchange's own.
  The exchange is a function \<open>T\<close> from sequence numbers to books. A depth event is faithful to it
  when its levels are the sizes at its final id and it lists every price that changed since any id
  the venue's protocol lets it be applied on; a snapshot is faithful when it is the book at its own
  id. Nothing is assumed of delivery: events may be lost, repeated or reordered, and the connection
  may drop at any point. One \<open>T\<close> serves a whole run, so an exchange that restarts its numbering and
  gives an id it used before to another book is outside these hypotheses. The locale \<open>policy_laws\<close> is the contract of a sequence policy, and
  every policy of the code is an interpretation of it.
\<close>

section \<open>The abstract book of one venue\<close>

type_synonym lookups = "(price \<rightharpoonup> size_t) \<times> (price \<rightharpoonup> size_t)"

text \<open>What carrying out one action does to the venue's book, \<open>None\<close> when it has none.\<close>

fun apply_action :: "lookups option \<Rightarrow> sync_action \<Rightarrow> lookups option" where
  "apply_action b RequestSnapshot = b"
| "apply_action b (ApplySnapshot bs as) = Some (snapshot_lookup bs, snapshot_lookup as)"
| "apply_action b (ApplyDelta bs as) =
     (case b of Some (fb, fa) \<Rightarrow> Some (replay bs fb, replay as fa)
      | None \<Rightarrow> Some (replay bs Map.empty, replay as Map.empty))"
| "apply_action b InvalidateVenue = None"

text \<open>The same, on the aggregate the code keeps.\<close>

fun execute_on :: "venue_id \<Rightarrow> aggregate_order_book \<Rightarrow> sync_action \<Rightarrow> aggregate_order_book" where
  "execute_on v b RequestSnapshot = b"
| "execute_on v b (ApplySnapshot bs as) = fst (snd (apply_snapshot v bs as b))"
| "execute_on v b (ApplyDelta bs as) = fst (snd (apply_batch v bs as b))"
| "execute_on v b InvalidateVenue = fst (invalidate_venue v b)"

definition venue_view :: "aggregate_order_book \<Rightarrow> venue_id \<Rightarrow> lookups option" where
  "venue_view b v = map_option (\<lambda>vb. (map_of (bids vb), map_of (asks vb))) (venues b v)"

section \<open>Faithful messages\<close>

definition side_describes ::
  "(u64 \<Rightarrow> (price \<rightharpoonup> size_t)) \<Rightarrow> u64 set \<Rightarrow> u64 \<Rightarrow> levels \<Rightarrow> bool" where
  "side_describes f N m lvls \<longleftrightarrow>
     (\<forall>(p, s) \<in> set lvls. f m p = (if s = 0 then None else Some s))
     \<and> (\<forall>n \<in> N. \<forall>p. f n p \<noteq> f m p \<longrightarrow> p \<in> fst ` set lvls)"

definition describes :: "(u64 \<Rightarrow> lookups) \<Rightarrow> u64 set \<Rightarrow> depth_update \<Rightarrow> bool" where
  "describes T N e \<longleftrightarrow>
     side_describes (\<lambda>n. fst (T n)) N (final_id e) (du_bids e)
     \<and> side_describes (\<lambda>n. snd (T n)) N (final_id e) (du_asks e)"

definition truthful :: "(u64 \<Rightarrow> lookups) \<Rightarrow> snapshot_message \<Rightarrow> bool" where
  "truthful T m \<longleftrightarrow>
     T (last_update_id m) = (snapshot_lookup (sm_bids m), snapshot_lookup (sm_asks m))"

lemma replay_agree:
  assumes "\<forall>(p, s) \<in> set lvls. g p = (if s = 0 then None else Some s)"
  shows "replay lvls f p = (if p \<in> fst ` set lvls then g p else f p)"
  using assms
proof (induction lvls arbitrary: f)
  case Nil
  then show ?case by simp
next
  case (Cons x lvls)
  then show ?case by (cases x) (auto simp: put_level_def)
qed

lemma side_describes_replay:
  assumes "side_describes f N m lvls" "n \<in> N"
  shows "replay lvls (f n) = f m"
proof
  fix p
  from assms have "\<forall>(p, s) \<in> set lvls. f m p = (if s = 0 then None else Some s)"
    and "f n p \<noteq> f m p \<Longrightarrow> p \<in> fst ` set lvls" by (auto simp: side_describes_def)
  then show "replay lvls (f n) p = f m p" using replay_agree [of lvls "f m" "f n" p] by auto
qed

lemma describes_delta:
  "describes T N e \<Longrightarrow> n \<in> N \<Longrightarrow> apply_action (Some (T n)) (delta_of e) = Some (T (final_id e))"
  using side_describes_replay [of "\<lambda>n. fst (T n)" N "final_id e" "du_bids e" n]
    side_describes_replay [of "\<lambda>n. snd (T n)" N "final_id e" "du_asks e" n]
  by (cases "T n"; cases "T (final_id e)") (simp add: describes_def delta_of_def)

section \<open>The contract of a sequence policy\<close>

text \<open>
  \<open>covers e\<close> are the ids on which the exchange's protocol lets the event be applied, \<open>shape\<close> the
  shape its ids have; the policy may only accept an event on an id it covers.
\<close>

fun published ::
  "(depth_update \<Rightarrow> bool) \<Rightarrow> (depth_update \<Rightarrow> u64 set) \<Rightarrow> (u64 \<Rightarrow> lookups) \<Rightarrow> sync_event \<Rightarrow> bool" where
  "published shape covers T (Depth e) \<longleftrightarrow> shape e \<and> describes T (covers e) e"
| "published shape covers T (Snapshot m) \<longleftrightarrow> truthful T m"
| "published shape covers T Connected \<longleftrightarrow> True"
| "published shape covers T Disconnected \<longleftrightarrow> True"

text \<open>
  The machine with the book its driver keeps, under every schedule of faithful events.
\<close>

inductive sync_reaches ::
  "sequence_policy \<Rightarrow> (sync_event \<Rightarrow> bool) \<Rightarrow> symbol_sync \<Rightarrow> lookups option \<Rightarrow> bool"
  for pol :: sequence_policy and ok :: "sync_event \<Rightarrow> bool" where
  start: "sync_reaches pol ok initial_sync None"
| step: "sync_reaches pol ok s b \<Longrightarrow> ok ev \<Longrightarrow> sync_step pol ev s = (s', acts) \<Longrightarrow>
         sync_reaches pol ok s' (foldl apply_action b acts)"

definition sync_inv ::
  "(depth_update \<Rightarrow> bool) \<Rightarrow> (u64 \<Rightarrow> lookups) \<Rightarrow> symbol_sync \<Rightarrow> lookups option \<Rightarrow> bool" where
  "sync_inv good T s b \<longleftrightarrow>
     (case sync_state s of
        Live \<Rightarrow> b = Some (T (last_final_id s)) \<and> sync_buffer s = []
      | Buffering \<Rightarrow> b = None)
     \<and> list_all good (sync_buffer s)"

text \<open>Every book on display while a list of actions is carried out is one the exchange had.\<close>

definition shows_only :: "(u64 \<Rightarrow> lookups) \<Rightarrow> lookups option \<Rightarrow> sync_action list \<Rightarrow> bool" where
  "shows_only T = along (\<lambda>b. b = None \<or> (\<exists>n. b = Some (T n))) apply_action"

lemma shows_only_Nil [simp]: "shows_only T b [] \<longleftrightarrow> b = None \<or> (\<exists>n. b = Some (T n))"
  by (simp add: shows_only_def)

lemma shows_only_Cons [simp]:
  "shows_only T b (a # acts) \<longleftrightarrow>
     (b = None \<or> (\<exists>n. b = Some (T n))) \<and> shows_only T (apply_action b a) acts"
  by (simp add: shows_only_def)

lemma shows_only_append:
  "shows_only T b (xs @ ys) \<longleftrightarrow> shows_only T b xs \<and> shows_only T (foldl apply_action b xs) ys"
  by (simp add: shows_only_def along_append)

locale policy_laws =
  fixes pol :: sequence_policy
    and covers :: "depth_update \<Rightarrow> u64 set"
    and shape :: "depth_update \<Rightarrow> bool"
  assumes bridge: "shape e \<Longrightarrow> bridges_snapshot pol e m \<Longrightarrow> last_update_id m \<in> covers e"
    and contiguous: "shape e \<Longrightarrow> is_contiguous pol e n \<Longrightarrow> n \<in> covers e"
begin

lemma chain_exposes:
  assumes "chained pol n es" "\<forall>e \<in> set es. published shape covers T (Depth e)"
  shows "foldl apply_action (Some (T n)) (map delta_of es)
      = Some (T (if es = [] then n else final_id (last es)))
    \<and> shows_only T (Some (T n)) (map delta_of es)"
  using assms
proof (induction es arbitrary: n)
  case (Cons e es)
  then have "apply_action (Some (T n)) (delta_of e) = Some (T (final_id e))"
    by (intro describes_delta [of T "covers e"]) (auto intro: contiguous)
  with Cons show ?case by auto
qed auto

lemma snapshot_exposes:
  assumes good: "\<forall>e \<in> set es. published shape covers T (Depth e)" and m: "truthful T m"
    and tail: "apply_tail pol True es last0 = (acts, applied, gap)" "es \<noteq> []"
    and br: "bridges_snapshot pol (hd es) m"
  shows "foldl apply_action b (ApplySnapshot (sm_bids m) (sm_asks m) # acts) = Some (T applied)
    \<and> shows_only T (Some (T (last_update_id m))) acts
    \<and> (\<forall>e \<in> set (case gap of None \<Rightarrow> [] | Some g \<Rightarrow> g). e \<in> set es)"
proof -
  obtain d ds where acts: "acts = map delta_of (d # ds)"
    and es: "es = (d # ds) @ (case gap of None \<Rightarrow> [] | Some g \<Rightarrow> g)"
    and app: "applied = final_id (last (d # ds))" and ch: "chained pol (final_id d) ds"
    using apply_tail_split [OF tail(1)] tail(2) by fastforce
  have d: "published shape covers T (Depth d)" and ds: "\<forall>e \<in> set ds. published shape covers T (Depth e)"
    using good es by auto
  from br es have "last_update_id m \<in> covers d" using d by (auto intro: bridge)
  with d have 1: "apply_action (Some (T (last_update_id m))) (delta_of d) = Some (T (final_id d))"
    by (intro describes_delta [of T "covers d"]) auto
  from m have 0: "Some (snapshot_lookup (sm_bids m), snapshot_lookup (sm_asks m)) = Some (T (last_update_id m))"
    by (simp add: truthful_def)
  show ?thesis using chain_exposes [OF ch ds] 1 es by (auto simp: acts app 0)
qed

lemma shown_absent_or_true:
  "sync_inv P T s b \<Longrightarrow> b = None \<or> (\<exists>n. b = Some (T n))"
  by (auto simp: sync_inv_def split: sync_state.splits)

lemma unbridged_inv:
  assumes inv: "sync_inv (\<lambda>e. published shape covers T (Depth e)) T s b"
    and m: "truthful T m" and none: "bridge_on pol m s = []" and step: "on_snapshot pol m s = (s', acts)"
  shows "sync_inv (\<lambda>e. published shape covers T (Depth e)) T s' (foldl apply_action b acts) \<and> shows_only T b acts"
proof (cases "kTrustsConnectionOrder pol \<and> sync_buffer s = []")
  case True
  with on_snapshot_unbridged [OF none] step have acts: "acts = [ApplySnapshot (sm_bids m) (sm_asks m)]"
    and s': "sync_state s' = Live" "sync_buffer s' = []" "last_final_id s' = last_update_id m"
    by auto
  have "apply_action b (ApplySnapshot (sm_bids m) (sm_asks m)) = Some (T (last_update_id m))"
    using m by (simp add: truthful_def)
  with acts s' shown_absent_or_true [OF inv] show ?thesis by (simp add: sync_inv_def del: apply_action.simps) blast
next
  case False
  with on_snapshot_unbridged [OF none] step have "acts = [InvalidateVenue] \<and> sync_state s' = Buffering
      \<or> acts = [RequestSnapshot] \<and> sync_state s' = sync_state s \<and> last_final_id s' = last_final_id s"
    and buf: "sync_buffer s' = unstale pol m s"
    by (auto split: if_splits)
  moreover have "sync_buffer s = [] \<Longrightarrow> sync_buffer s' = []" using buf by (simp add: unstale_def)
  moreover have "\<forall>e \<in> set (unstale pol m s). published shape covers T (Depth e)"
    using inv by (simp add: sync_inv_def list_all_iff unstale_def)
  ultimately show ?thesis
    using inv by (cases "sync_state s") (auto simp: sync_inv_def list_all_iff)
qed

lemma bridged_inv:
  assumes inv: "sync_inv (\<lambda>e. published shape covers T (Depth e)) T s b"
    and m: "truthful T m" and some: "bridge_on pol m s \<noteq> []" and step: "on_snapshot pol m s = (s', acts)"
  shows "sync_inv (\<lambda>e. published shape covers T (Depth e)) T s' (foldl apply_action b acts) \<and> shows_only T b acts"
proof -
  have "\<forall>e \<in> set (unstale pol m s). published shape covers T (Depth e)"
    using inv by (simp add: sync_inv_def list_all_iff unstale_def)
  then have gtl: "\<forall>e \<in> set (bridge_on pol m s). published shape covers T (Depth e)"
    unfolding bridge_on_def by (meson set_dropWhileD)
  obtain ds applied gap where
    t: "apply_tail pol True (bridge_on pol m s) (last_final_id s) = (ds, applied, gap)"
    by (metis prod_cases3)
  have "bridges_snapshot pol (hd (bridge_on pol m s)) m"
    using some hd_dropWhile [of "\<lambda>e. \<not> bridges_snapshot pol e m" "unstale pol m s"]
    unfolding bridge_on_def by blast
  note E = snapshot_exposes [OF gtl m t some this, of b]
  have shown: "shows_only T b (ApplySnapshot (sm_bids m) (sm_asks m) # ds)"
    using E shown_absent_or_true [OF inv] m by (simp add: truthful_def)
  have "shows_only T b ((ApplySnapshot (sm_bids m) (sm_asks m) # ds) @ [InvalidateVenue])"
    using E by (subst shows_only_append) (simp add: shown del: shows_only_Cons foldl_Cons, auto)
  with shown on_snapshot_bridged [OF some t] step E gtl show ?thesis
    by (cases gap) (auto simp: sync_inv_def list_all_iff simp del: shows_only_Cons)
qed

lemma depth_inv:
  assumes inv: "sync_inv (\<lambda>e. published shape covers T (Depth e)) T s b"
    and pub: "published shape covers T (Depth e)" and step: "on_depth_update pol e s = (s', acts)"
  shows "sync_inv (\<lambda>e. published shape covers T (Depth e)) T s' (foldl apply_action b acts) \<and> shows_only T b acts"
proof (cases "sync_state s = Live \<and> is_contiguous pol e (last_final_id s)")
  case True
  then have "apply_action (Some (T (last_final_id s))) (delta_of e) = Some (T (final_id e))"
    using pub by (intro describes_delta [of T "covers e"]) (auto intro: contiguous)
  with True inv step show ?thesis
    by (auto simp: on_depth_update_def sync_inv_def delta_of_def)
next
  case False
  with inv step pub show ?thesis
    by (cases "sync_state s")
      (auto simp: on_depth_update_def handle_gap_def sync_inv_def Let_def)
qed

lemma step_inv:
  assumes inv: "sync_inv (\<lambda>e. published shape covers T (Depth e)) T s b"
    and pub: "published shape covers T ev" and step: "sync_step pol ev s = (s', acts)"
  shows "sync_inv (\<lambda>e. published shape covers T (Depth e)) T s' (foldl apply_action b acts)
    \<and> shows_only T b acts"
proof (cases ev)
  case Connected
  with inv step show ?thesis
    by (auto simp: on_connected_def sync_inv_def split: if_splits sync_state.splits)
next
  case Disconnected
  with inv step show ?thesis
    by (auto simp: on_disconnected_def reset_def sync_inv_def split: sync_state.splits)
next
  case (Depth e)
  with depth_inv [OF inv] pub step show ?thesis by simp
next
  case (Snapshot m)
  with unbridged_inv [OF inv] bridged_inv [OF inv] pub step show ?thesis
    by (cases "bridge_on pol m s = []") simp_all
qed

lemma reaches_inv:
  "sync_reaches pol (published shape covers T) s b \<Longrightarrow>
   sync_inv (\<lambda>e. published shape covers T (Depth e)) T s b"
proof (induction rule: sync_reaches.induct)
  case start
  show ?case by (simp add: sync_inv_def initial_sync_def)
next
  case (step s b ev s' acts)
  with step_inv show ?case by blast
qed

end

section \<open>The four policies meet the contract\<close>

text \<open>
  What the exchanges document of their ids. Binance Spot: an event carries the updates
  \<^verbatim>\<open>U\<close> to \<^verbatim>\<open>u\<close>, numbered from 1. Binance Futures: it carries everything after
  \<^verbatim>\<open>pu\<close>, and may also be applied on any id within \<^verbatim>\<open>U\<close> to \<^verbatim>\<open>u\<close>. Bybit:
  one update per event. OKX: everything after \<^verbatim>\<open>prevSeqId\<close>.
\<close>

definition spot_covers :: "depth_update \<Rightarrow> u64 set" where
  "spot_covers e = {n. unat (first_id e) \<le> unat n + 1 \<and> n \<le> final_id e}"

definition spot_shape :: "depth_update \<Rightarrow> bool" where
  "spot_shape e \<longleftrightarrow> 0 < first_id e \<and> first_id e \<le> final_id e"

definition futures_covers :: "depth_update \<Rightarrow> u64 set" where
  "futures_covers e = insert (prev_final_id e) {first_id e .. final_id e}"

definition bybit_covers :: "depth_update \<Rightarrow> u64 set" where
  "bybit_covers e = {final_id e - 1}"

definition okx_covers :: "depth_update \<Rightarrow> u64 set" where
  "okx_covers e = {prev_final_id e}"

lemma word_succ_cases:
  fixes n :: u64
  shows "n + 1 = 0 \<or> unat (n + 1) = unat n + 1"
  by (metis Suc_eq_plus1 add.commute unatSuc)

interpretation spot_policy: policy_laws BinanceSpotSequencePolicy spot_covers spot_shape
proof
  fix e m
  assume sh: "spot_shape e" and br: "bridges_snapshot BinanceSpotSequencePolicy e m"
  then have le: "first_id e \<le> last_update_id m + 1" "last_update_id m + 1 \<le> final_id e" "0 < first_id e"
    by (simp_all add: policy_defs spot_shape_def)
  then have ne: "last_update_id m + 1 \<noteq> 0" by auto
  then have suc: "unat (last_update_id m + 1) = unat (last_update_id m) + 1"
    using word_succ_cases by blast
  with le show "last_update_id m \<in> spot_covers e"
    by (simp add: spot_covers_def word_le_nat_alt)
next
  fix e n
  assume sh: "spot_shape e" and c: "is_contiguous BinanceSpotSequencePolicy e n"
  then have eq: "first_id e = n + 1" and le: "n + 1 \<le> final_id e" "n + 1 \<noteq> 0"
    by (auto simp: policy_defs spot_shape_def)
  then have suc: "unat (n + 1) = unat n + 1" using word_succ_cases by blast
  with eq le show "n \<in> spot_covers e"
    by (simp add: spot_covers_def word_le_nat_alt)
qed

interpretation futures_policy: policy_laws BinanceFuturesSequencePolicy futures_covers "\<lambda>e. True"
  by unfold_locales (auto simp: policy_defs futures_covers_def)

interpretation bybit_policy: policy_laws BybitSequencePolicy bybit_covers "\<lambda>e. True"
  by unfold_locales (auto simp: policy_defs bybit_covers_def)

interpretation okx_policy: policy_laws OkxSequencePolicy okx_covers "\<lambda>e. True"
  by unfold_locales (auto simp: policy_defs okx_covers_def)

text \<open>The policy each venue is wired with in \<^verbatim>\<open>server_main.cpp\<close>, and its protocol.\<close>

fun venue_policy :: "venue_id \<Rightarrow> sequence_policy" where
  "venue_policy (VenueId Binance Spot) = BinanceSpotSequencePolicy"
| "venue_policy (VenueId Binance Perp) = BinanceFuturesSequencePolicy"
| "venue_policy (VenueId Bybit _) = BybitSequencePolicy"
| "venue_policy (VenueId Okx _) = OkxSequencePolicy"

fun venue_covers :: "venue_id \<Rightarrow> depth_update \<Rightarrow> u64 set" where
  "venue_covers (VenueId Binance Spot) = spot_covers"
| "venue_covers (VenueId Binance Perp) = futures_covers"
| "venue_covers (VenueId Bybit _) = bybit_covers"
| "venue_covers (VenueId Okx _) = okx_covers"

fun venue_shape :: "venue_id \<Rightarrow> depth_update \<Rightarrow> bool" where
  "venue_shape (VenueId Binance Spot) = spot_shape"
| "venue_shape _ = (\<lambda>e. True)"

definition faithful :: "venue_id \<Rightarrow> (u64 \<Rightarrow> lookups) \<Rightarrow> sync_event \<Rightarrow> bool" where
  "faithful v T = published (venue_shape v) (venue_covers v) T"

interpretation venue_laws: policy_laws "venue_policy v" "venue_covers v" "venue_shape v" for v
proof -
  show "policy_laws (venue_policy v) (venue_covers v) (venue_shape v)"
    using spot_policy.policy_laws_axioms futures_policy.policy_laws_axioms
      bybit_policy.policy_laws_axioms okx_policy.policy_laws_axioms
    by (cases v rule: venue_policy.cases) simp_all
qed

section \<open>Properties of the machine\<close>

definition sample_truth :: "u64 \<Rightarrow> lookups" where
  "sample_truth n = ([100 \<mapsto> uint n + 1], Map.empty)"

definition sample_event :: depth_update where
  "sample_event = \<lparr>du_symbol = ''BTCUSDT'', first_id = 5, final_id = 7, prev_final_id = 0,
     du_bids = [(100, 8)], du_asks = []\<rparr>"

definition sample_snapshot :: snapshot_message where
  "sample_snapshot = \<lparr>sm_symbol = ''BTCUSDT'', sm_bids = [(100, 6)], sm_asks = [],
     last_update_id = 5\<rparr>"

definition sample_buffered :: symbol_sync where
  "sample_buffered = \<lparr>sync_state = Buffering, sync_buffer = [sample_event], last_final_id = 0,
     snapshot_requested = False\<rparr>"

definition sample_live :: symbol_sync where
  "sample_live = \<lparr>sync_state = Live, sync_buffer = [], last_final_id = 7,
     snapshot_requested = False\<rparr>"

lemmas sample_defs = sample_truth_def sample_event_def sample_snapshot_def sample_buffered_def
  sample_live_def

lemma sample_faithful:
  "faithful (VenueId Binance Spot) sample_truth (Depth sample_event)"
  "faithful (VenueId Binance Spot) sample_truth (Snapshot sample_snapshot)"
  by (auto simp: faithful_def describes_def side_describes_def truthful_def snapshot_lookup_def
      sample_defs spot_shape_def fun_eq_iff split: if_splits)

lemma sample_steps:
  "sync_step BinanceSpotSequencePolicy (Depth sample_event) initial_sync = (sample_buffered, [])"
  "sync_step BinanceSpotSequencePolicy (Snapshot sample_snapshot) sample_buffered =
     (sample_live, [ApplySnapshot [(100, 6)] [], ApplyDelta [(100, 8)] []])"
  by (simp_all add: on_depth_update_def on_snapshot_def initial_sync_def policy_defs Let_def sample_defs)

lemma sample_reaches:
  "sync_reaches (venue_policy (VenueId Binance Spot)) (faithful (VenueId Binance Spot) sample_truth)
     sample_buffered None"
proof -
  let ?R = "sync_reaches (venue_policy (VenueId Binance Spot)) (faithful (VenueId Binance Spot) sample_truth)"
  have "?R initial_sync None" by (rule sync_reaches.start)
  from sync_reaches.step [OF this sample_faithful(1)] sample_steps(1)
  show "?R sample_buffered None" by fastforce
qed

text \<open>
  C5. No intermediate book is ever wrong. While the driver carries out the actions of one event one
  by one, every book the venue shows between two of them is one the exchange had, or no book: also
  when a gap is found in the middle of the buffer, after the snapshot was applied.
\<close>

theorem every_shown_book_is_an_exchange_book:
  assumes "sync_reaches (venue_policy v) (faithful v T) s b" "faithful v T ev"
    "sync_step (venue_policy v) ev s = (s', acts)"
  shows "shows_only T b acts"
  using venue_laws.step_inv [of v T s b ev s' acts] venue_laws.reaches_inv [of v T s b] assms
  by (simp add: faithful_def)

theorem every_shown_book_is_an_exchange_book_witness:
  "shows_only sample_truth None [ApplySnapshot [(100, 6)] [], ApplyDelta [(100, 8)] []]"
  using every_shown_book_is_an_exchange_book [OF sample_reaches sample_faithful(2)] sample_steps(2)
  by simp

text \<open>
  C6. Resynchronisation succeeds whenever it can. When a snapshot arrives and, past the stale events,
  some buffered event bridges it and every later one follows on from the one before, the machine
  goes live at the last buffered id; the stale events and those before the bridge are dropped, and the
  actions are the snapshot and then every event from the bridge on, in order. A venue that trusts its
  connection goes live on a snapshot alone when nothing was buffered.
\<close>

theorem resync_completes:
  "(filter (\<lambda>e. \<not> should_drop_buffered pol e m) (sync_buffer s) = pre @ d # ds
    \<and> (\<forall>e \<in> set pre. \<not> bridges_snapshot pol e m) \<and> bridges_snapshot pol d m
    \<and> chained pol (final_id d) ds \<longrightarrow>
      on_snapshot pol m s =
        (s\<lparr>sync_state := Live, sync_buffer := [], last_final_id := final_id (last (d # ds))\<rparr>,
         ApplySnapshot (sm_bids m) (sm_asks m) # map delta_of (d # ds)))
   \<and> (kTrustsConnectionOrder pol \<and> sync_buffer s = [] \<longrightarrow>
      on_snapshot pol m s =
        (s\<lparr>sync_state := Live, last_final_id := last_update_id m\<rparr>,
         [ApplySnapshot (sm_bids m) (sm_asks m)]))"
proof (intro conjI impI; elim conjE)
  assume f: "filter (\<lambda>e. \<not> should_drop_buffered pol e m) (sync_buffer s) = pre @ d # ds"
    and pre: "\<forall>e \<in> set pre. \<not> bridges_snapshot pol e m" and d: "bridges_snapshot pol d m"
    and ch: "chained pol (final_id d) ds"
  have br: "bridge_on pol m s = d # ds"
    using pre d by (simp add: bridge_on_def unstale_def f dropWhile_append2)
  have tail: "apply_tail pol True (d # ds) (last_final_id s)
      = (map delta_of (d # ds), final_id (last (d # ds)), None)"
    using apply_tail_chained [OF ch] by (simp add: delta_of_def)
  show "on_snapshot pol m s =
      (s\<lparr>sync_state := Live, sync_buffer := [], last_final_id := final_id (last (d # ds))\<rparr>,
       ApplySnapshot (sm_bids m) (sm_asks m) # map delta_of (d # ds))"
    using on_snapshot_bridged [of pol m s, unfolded br, OF _ tail] by simp
qed (simp add: on_snapshot_def Let_def)

theorem resync_completes_witness:
  "on_snapshot BinanceSpotSequencePolicy sample_snapshot sample_buffered =
     (sample_live, [ApplySnapshot [(100, 6)] [], ApplyDelta [(100, 8)] []])"
  using resync_completes [of BinanceSpotSequencePolicy sample_snapshot sample_buffered "[]" sample_event "[]"]
  by (simp add: sample_defs policy_defs delta_of_def)

end
