(* ===== verification/Venue_Session.thy ===== *)
theory Venue_Session
  imports Sync_Refinement Symbol_Book
begin

text \<open>
  \<^verbatim>\<open>ingestion/venue_session.hpp\<close>: the driver of one venue connection. Everything it does runs
  on one strand, and between two suspension points nothing else of the session runs; so a message
  read from the socket, a finished snapshot fetch, a connect, a drop and a stop are each one step.
  The socket, the HTTP client and the JSON parsers are outside: a step is given what they deliver.
  The template parameter \<^verbatim>\<open>Book\<close> is a record of the three operations the session calls, and its
  contract is the locale \<open>book_target\<close>, interpreted on both classes the code instantiates it with.
\<close>

section \<open>The code: the registry and the session\<close>

record 'b book_ops =
  op_apply_snapshot :: "venue_id \<Rightarrow> levels \<Rightarrow> levels \<Rightarrow> 'b \<Rightarrow> unit expected \<times> 'b"
  op_apply_batch :: "venue_id \<Rightarrow> levels \<Rightarrow> levels \<Rightarrow> 'b \<Rightarrow> unit expected \<times> 'b"
  op_invalidate_venue :: "venue_id \<Rightarrow> 'b \<Rightarrow> 'b"

text \<open>\<^verbatim>\<open>SymbolRegistry\<close>: a \<^verbatim>\<open>Book*\<close> is a number; \<^verbatim>\<open>emplace\<close> keeps an earlier entry.\<close>

type_synonym symbol_registry = "native_symbol \<rightharpoonup> nat"

definition registry_add :: "native_symbol \<Rightarrow> nat \<Rightarrow> symbol_registry \<Rightarrow> symbol_registry" where
  "registry_add symbol book r = (case r symbol of None \<Rightarrow> r(symbol \<mapsto> book) | Some _ \<Rightarrow> r)"

record 'b session =
  ses_venue :: venue_id
  ses_policy :: sequence_policy
  ses_via_rest :: bool
  registry :: symbol_registry
  books :: "nat \<Rightarrow> 'b"
  symbol_syncs :: "(native_symbol \<times> symbol_sync) list"
  snapshot_fetches :: "native_symbol list"
  stopping :: bool

text \<open>The constructor: one machine per symbol, \<^verbatim>\<open>try_emplace\<close> ignoring a repeated one.\<close>

definition new_session ::
  "venue_id \<Rightarrow> sequence_policy \<Rightarrow> bool \<Rightarrow> native_symbol list \<Rightarrow> symbol_registry \<Rightarrow> (nat \<Rightarrow> 'b) \<Rightarrow> 'b session"
  where
  "new_session v pol via_rest symbols reg bks =
     \<lparr>ses_venue = v, ses_policy = pol, ses_via_rest = via_rest, registry = reg, books = bks,
      symbol_syncs = map (\<lambda>s. (s, initial_sync)) (remdups symbols), snapshot_fetches = [],
      stopping = False\<rparr>"

definition set_sync :: "native_symbol \<Rightarrow> symbol_sync \<Rightarrow> 'b session \<Rightarrow> 'b session" where
  "set_sync symbol sync ses =
     ses\<lparr>symbol_syncs := map (\<lambda>(a, s). (a, if a = symbol then sync else s)) (symbol_syncs ses)\<rparr>"

text \<open>The visitor of \<^verbatim>\<open>execute_action\<close>: whether the book rejected the action, and the session.\<close>

definition visit_action ::
  "'b book_ops \<Rightarrow> native_symbol \<Rightarrow> sync_action \<Rightarrow> 'b session \<Rightarrow> bool \<times> 'b session" where
  "visit_action ops symbol action ses =
     (case registry ses symbol of
        None \<Rightarrow> (False, ses)
      | Some k \<Rightarrow>
          (case action of
             ApplySnapshot bs as \<Rightarrow>
               let (r, b') = op_apply_snapshot ops (ses_venue ses) bs as (books ses k)
               in (\<not> is_ok r, ses\<lparr>books := (books ses)(k := b')\<rparr>)
           | ApplyDelta bs as \<Rightarrow>
               let (r, b') = op_apply_batch ops (ses_venue ses) bs as (books ses k)
               in (\<not> is_ok r, ses\<lparr>books := (books ses)(k := b')\<rparr>)
           | InvalidateVenue \<Rightarrow>
               (False, ses\<lparr>books := (books ses)(k := op_invalidate_venue ops (ses_venue ses) (books ses k))\<rparr>)
           | RequestSnapshot \<Rightarrow> (False, ses)))"

text \<open>
  \<^verbatim>\<open>execute_action\<close> and \<^verbatim>\<open>execute_actions\<close>, which call each other: a rejected action goes
  through \<^verbatim>\<open>on_disconnected\<close>. The result says whether an \<^verbatim>\<open>InvalidateVenue\<close> was carried out.
\<close>

fun action_rank :: "sync_action \<Rightarrow> nat" where
  "action_rank (ApplySnapshot bs as) = 5"
| "action_rank (ApplyDelta bs as) = 5"
| "action_rank RequestSnapshot = 1"
| "action_rank InvalidateVenue = 1"

function (sequential)
  execute_action :: "'b book_ops \<Rightarrow> native_symbol \<Rightarrow> sync_action \<Rightarrow> 'b session \<Rightarrow> bool \<times> 'b session"
and
  execute_actions :: "'b book_ops \<Rightarrow> native_symbol \<Rightarrow> sync_action list \<Rightarrow> 'b session \<Rightarrow> bool \<times> 'b session"
where
  "execute_action ops symbol RequestSnapshot ses =
     (if stopping ses then (False, ses)
      else (False, ses\<lparr>snapshot_fetches := snapshot_fetches ses @ [symbol]\<rparr>))"
| "execute_action ops symbol InvalidateVenue ses =
     (True, snd (visit_action ops symbol InvalidateVenue ses))"
| "execute_action ops symbol action ses =
     (let (apply_failed, ses1) = visit_action ops symbol action ses
      in if \<not> apply_failed then (False, ses1)
         else
           (case map_of (symbol_syncs ses1) symbol of
              Some sync \<Rightarrow>
                execute_actions ops symbol (snd (on_disconnected sync))
                  (set_sync symbol (fst (on_disconnected sync)) ses1)
            | None \<Rightarrow> (False, ses1)))"
| "execute_actions ops symbol [] ses = (False, ses)"
| "execute_actions ops symbol (action # actions) ses =
     (let (gap, ses1) = execute_action ops symbol action ses;
          (gap', ses2) = execute_actions ops symbol actions ses1
      in (gap \<or> gap', ses2))"
  by pat_completeness auto

termination
  by (relation "measure (\<lambda>x. case x of Inl (ops, symbol, action, ses) \<Rightarrow> action_rank action
      | Inr (ops, symbol, actions, ses) \<Rightarrow> 1 + (\<Sum>a\<leftarrow>actions. action_rank a + 1))")
    (auto simp: on_disconnected_def)

definition resync_rest_venue_after_gap :: "'b book_ops \<Rightarrow> native_symbol \<Rightarrow> 'b session \<Rightarrow> 'b session" where
  "resync_rest_venue_after_gap ops symbol ses =
     (case map_of (symbol_syncs ses) symbol of
        None \<Rightarrow> ses
      | Some sync \<Rightarrow>
          snd (execute_actions ops symbol (snd (on_connected sync)) (set_sync symbol (fst (on_connected sync)) ses)))"

text \<open>\<open>ForceReconnect\<close> is the exception that leaves the read loop.\<close>

datatype outcome = Continue | ForceReconnect

definition execute_actions_and_maybe_force_reconnect ::
  "'b book_ops \<Rightarrow> native_symbol \<Rightarrow> sync_action list \<Rightarrow> 'b session \<Rightarrow> outcome \<times> 'b session" where
  "execute_actions_and_maybe_force_reconnect ops symbol actions ses =
     (let (gap_detected, ses1) = execute_actions ops symbol actions ses
      in if \<not> gap_detected then (Continue, ses1)
         else if kTrustsConnectionOrder (ses_policy ses) then (ForceReconnect, ses1)
         else (Continue, resync_rest_venue_after_gap ops symbol ses1))"

definition dispatch_snapshot :: "'b book_ops \<Rightarrow> snapshot_message \<Rightarrow> 'b session \<Rightarrow> outcome \<times> 'b session" where
  "dispatch_snapshot ops message ses =
     (case map_of (symbol_syncs ses) (sm_symbol message) of
        None \<Rightarrow> (Continue, ses)
      | Some sync \<Rightarrow>
          let (sync', actions) = on_snapshot (ses_policy ses) message sync
          in execute_actions_and_maybe_force_reconnect ops (sm_symbol message) actions
               (set_sync (sm_symbol message) sync' ses))"

definition dispatch_depth_update :: "'b book_ops \<Rightarrow> depth_update \<Rightarrow> 'b session \<Rightarrow> outcome \<times> 'b session" where
  "dispatch_depth_update ops message ses =
     (case map_of (symbol_syncs ses) (du_symbol message) of
        None \<Rightarrow> (Continue, ses)
      | Some sync \<Rightarrow>
          let (sync', actions) = on_depth_update (ses_policy ses) message sync
          in execute_actions_and_maybe_force_reconnect ops (du_symbol message) actions
               (set_sync (du_symbol message) sync' ses))"

text \<open>
  \<^verbatim>\<open>handle_request_snapshot\<close> from the point where the response has arrived: \<open>None\<close> is a body
  the feed cannot parse.
\<close>

definition snapshot_fetched ::
  "'b book_ops \<Rightarrow> native_symbol \<Rightarrow> snapshot_message option \<Rightarrow> 'b session \<Rightarrow> outcome \<times> 'b session" where
  "snapshot_fetched ops symbol response ses0 =
     (let ses = ses0\<lparr>snapshot_fetches := remove1 symbol (snapshot_fetches ses0)\<rparr>
      in if \<not> ses_via_rest ses then (Continue, ses)
         else if stopping ses then (Continue, ses)
         else case response of
             None \<Rightarrow> (Continue, ses)
           | Some snapshot \<Rightarrow>
               (case map_of (symbol_syncs ses) symbol of
                  None \<Rightarrow> (Continue, ses)
                | Some sync \<Rightarrow>
                    let (sync', actions) = on_snapshot (ses_policy ses) snapshot sync;
                        (gap_detected, ses1) = execute_actions ops symbol actions (set_sync symbol sync' ses)
                    in if \<not> gap_detected then (Continue, ses1)
                       else if kTrustsConnectionOrder (ses_policy ses) then (ForceReconnect, ses1)
                       else (Continue, resync_rest_venue_after_gap ops symbol ses1)))"

text \<open>The loops over every covered symbol: after a connect, and after any drop.\<close>

fun each_symbol ::
  "'b book_ops \<Rightarrow> (symbol_sync \<Rightarrow> symbol_sync \<times> sync_action list) \<Rightarrow> native_symbol list \<Rightarrow> 'b session \<Rightarrow> 'b session"
  where
  "each_symbol ops f [] ses = ses"
| "each_symbol ops f (symbol # symbols) ses =
     (case map_of (symbol_syncs ses) symbol of
        None \<Rightarrow> each_symbol ops f symbols ses
      | Some sync \<Rightarrow>
          each_symbol ops f symbols
            (snd (execute_actions ops symbol (snd (f sync)) (set_sync symbol (fst (f sync)) ses))))"

definition connected :: "'b book_ops \<Rightarrow> 'b session \<Rightarrow> 'b session" where
  "connected ops ses = each_symbol ops on_connected (map fst (symbol_syncs ses)) ses"

definition invalidate_all :: "'b book_ops \<Rightarrow> 'b session \<Rightarrow> 'b session" where
  "invalidate_all ops ses = each_symbol ops on_disconnected (map fst (symbol_syncs ses)) ses"

text \<open>What \<^verbatim>\<open>run()\<close> goes through; leaving the read loop leads to \<^verbatim>\<open>invalidate_all\<close>.\<close>

datatype session_event =
    SConnected
  | SDepth depth_update
  | SSnapshot snapshot_message
  | SFetched native_symbol "snapshot_message option"
  | SDropped
  | SStop

definition after :: "'b book_ops \<Rightarrow> outcome \<times> 'b session \<Rightarrow> 'b session" where
  "after ops r = (case fst r of Continue \<Rightarrow> snd r | ForceReconnect \<Rightarrow> invalidate_all ops (snd r))"

fun session_step :: "'b book_ops \<Rightarrow> 'b session \<Rightarrow> session_event \<Rightarrow> 'b session" where
  "session_step ops ses SConnected = connected ops ses"
| "session_step ops ses (SDepth m) = after ops (dispatch_depth_update ops m ses)"
| "session_step ops ses (SSnapshot m) = after ops (dispatch_snapshot ops m ses)"
| "session_step ops ses (SFetched symbol response) = after ops (snapshot_fetched ops symbol response ses)"
| "session_step ops ses SDropped = invalidate_all ops ses"
| "session_step ops ses SStop = ses\<lparr>stopping := True\<rparr>"

section \<open>Messages a book accepts\<close>

fun action_in_range :: "sync_action \<Rightarrow> bool" where
  "action_in_range (ApplySnapshot bs as) \<longleftrightarrow> levels_in_range bs \<and> levels_in_range as"
| "action_in_range (ApplyDelta bs as) \<longleftrightarrow> levels_in_range bs \<and> levels_in_range as"
| "action_in_range RequestSnapshot \<longleftrightarrow> True"
| "action_in_range InvalidateVenue \<longleftrightarrow> True"

definition update_in_range :: "depth_update \<Rightarrow> bool" where
  "update_in_range e \<longleftrightarrow> levels_in_range (du_bids e) \<and> levels_in_range (du_asks e)"

fun event_in_range :: "sync_event \<Rightarrow> bool" where
  "event_in_range (Depth e) \<longleftrightarrow> update_in_range e"
| "event_in_range (Snapshot m) \<longleftrightarrow> levels_in_range (sm_bids m) \<and> levels_in_range (sm_asks m)"
| "event_in_range Connected \<longleftrightarrow> True"
| "event_in_range Disconnected \<longleftrightarrow> True"

lemma delta_in_range: "update_in_range e \<Longrightarrow> action_in_range (delta_of e)"
  by (simp add: update_in_range_def delta_of_def)

lemma apply_tail_in_range:
  assumes "list_all update_in_range es" "apply_tail pol b es l = (acts, applied, gap)"
  shows "list_all action_in_range acts
    \<and> list_all update_in_range (case gap of None \<Rightarrow> [] | Some g \<Rightarrow> g)"
proof -
  obtain don where "acts = map delta_of don" "es = don @ (case gap of None \<Rightarrow> [] | Some g \<Rightarrow> g)"
    using apply_tail_split [OF assms(2)] by blast
  with assms(1) show ?thesis by (auto simp: list_all_iff delta_in_range)
qed

lemma sync_step_in_range:
  assumes buf: "list_all update_in_range (sync_buffer s)" and ev: "event_in_range ev"
    and step: "sync_step pol ev s = (s', acts)"
  shows "list_all action_in_range acts" and "list_all update_in_range (sync_buffer s')"
proof -
  have un: "list_all update_in_range (unstale pol m s)" for m
    using buf by (auto simp: unstale_def list_all_iff)
  then have br: "list_all update_in_range (bridge_on pol m s)" for m
    unfolding bridge_on_def list_all_iff by (meson set_dropWhileD)
  have "list_all action_in_range acts \<and> list_all update_in_range (sync_buffer s')"
  proof (cases ev)
    case (Snapshot m)
    show ?thesis
    proof (cases "bridge_on pol m s = []")
      case True
      with on_snapshot_unbridged [OF True] un step ev Snapshot show ?thesis by (auto split: if_splits)
    next
      case False
      obtain ds applied gap where
        t: "apply_tail pol True (bridge_on pol m s) (last_final_id s) = (ds, applied, gap)"
        by (metis prod_cases3)
      with on_snapshot_bridged [OF False t] apply_tail_in_range [OF br t] step ev Snapshot
      show ?thesis by (cases gap) auto
    qed
  qed (use buf ev step in \<open>auto simp: on_connected_def on_disconnected_def on_depth_update_def reset_def
      handle_gap_def Let_def update_in_range_def split: if_splits\<close>)
  then show "list_all action_in_range acts" and "list_all update_in_range (sync_buffer s')" by auto
qed

section \<open>What a session asks of its books\<close>

text \<open>What the exchange and the network deliver, when the exchange is faithful.\<close>

fun good_event :: "venue_id \<Rightarrow> (native_symbol \<Rightarrow> u64 \<Rightarrow> lookups) \<Rightarrow> session_event \<Rightarrow> bool" where
  "good_event v T (SDepth m) \<longleftrightarrow> faithful v (T (du_symbol m)) (Depth m) \<and> event_in_range (Depth m)"
| "good_event v T (SSnapshot m) \<longleftrightarrow> truthful (T (sm_symbol m)) m \<and> event_in_range (Snapshot m)"
| "good_event v T (SFetched symbol response) \<longleftrightarrow>
     (case response of None \<Rightarrow> True | Some m \<Rightarrow> truthful (T symbol) m \<and> event_in_range (Snapshot m))"
| "good_event v T SConnected \<longleftrightarrow> True"
| "good_event v T SDropped \<longleftrightarrow> True"
| "good_event v T SStop \<longleftrightarrow> True"

locale book_target =
  fixes ops :: "'b book_ops"
    and inv :: "'b \<Rightarrow> bool"
    and view :: "'b \<Rightarrow> venue_id \<Rightarrow> lookups option"
  assumes snapshot: "inv b \<Longrightarrow> levels_in_range bs \<Longrightarrow> levels_in_range as \<Longrightarrow>
      op_apply_snapshot ops v bs as b = (r, b') \<Longrightarrow>
      r = Inr () \<and> inv b' \<and> view b' = (view b)(v := apply_action (view b v) (ApplySnapshot bs as))"
    and batch: "inv b \<Longrightarrow> levels_in_range bs \<Longrightarrow> levels_in_range as \<Longrightarrow>
      op_apply_batch ops v bs as b = (r, b') \<Longrightarrow>
      r = Inr () \<and> inv b' \<and> view b' = (view b)(v := apply_action (view b v) (ApplyDelta bs as))"
    and invalidate: "inv b \<Longrightarrow>
      inv (op_invalidate_venue ops v b) \<and> view (op_invalidate_venue ops v b) = (view b)(v := None)"
begin

text \<open>Every book in order, every machine in step with the book its symbol is registered to.\<close>

definition session_inv :: "(native_symbol \<Rightarrow> u64 \<Rightarrow> lookups) \<Rightarrow> 'b session \<Rightarrow> bool" where
  "session_inv T ses \<longleftrightarrow>
     ses_policy ses = venue_policy (ses_venue ses) \<and> (\<forall>k. inv (books ses k))
     \<and> inj_on (registry ses) (dom (map_of (symbol_syncs ses)))
     \<and> (\<forall>k. Some k \<notin> registry ses ` dom (map_of (symbol_syncs ses)) \<longrightarrow>
          view (books ses k) (ses_venue ses) = None)
     \<and> (\<forall>symbol sync. map_of (symbol_syncs ses) symbol = Some sync \<longrightarrow>
          list_all update_in_range (sync_buffer sync)
          \<and> (\<exists>k. registry ses symbol = Some k
              \<and> sync_inv (\<lambda>e. faithful (ses_venue ses) (T symbol) (Depth e)) (T symbol) sync
                  (view (books ses k) (ses_venue ses))))"

lemma session_inv_sync:
  assumes "session_inv T ses" "map_of (symbol_syncs ses) a = Some s" "registry ses a = Some k"
  shows "sync_inv (\<lambda>e. faithful (ses_venue ses) (T a) (Depth e)) (T a) s (view (books ses k) (ses_venue ses))"
proof -
  obtain j where "registry ses a = Some j"
    "sync_inv (\<lambda>e. faithful (ses_venue ses) (T a) (Depth e)) (T a) s (view (books ses j) (ses_venue ses))"
    using assms(1,2) unfolding session_inv_def by blast
  with assms(3) show ?thesis by simp
qed

lemma execute_action_ok:
  assumes "\<forall>k. inv (books ses k)" "registry ses symbol = Some k" "action_in_range a"
  shows "\<exists>b1 f1. execute_action ops symbol a ses =
      (a = InvalidateVenue, ses\<lparr>books := (books ses)(k := b1), snapshot_fetches := f1\<rparr>)
    \<and> inv b1 \<and> view b1 = (view (books ses k))(ses_venue ses := apply_action (view (books ses k) (ses_venue ses)) a)"
proof (cases a)
  case RequestSnapshot
  have "ses\<lparr>books := (books ses)(k := books ses k), snapshot_fetches := f\<rparr> = ses\<lparr>snapshot_fetches := f\<rparr>" for f
    by simp
  with RequestSnapshot assms(1) show ?thesis
    by (intro exI [of _ "books ses k"]
        exI [of _ "if stopping ses then snapshot_fetches ses else snapshot_fetches ses @ [symbol]"]) simp
next
  case (ApplySnapshot bs as)
  obtain r b1 where eq: "op_apply_snapshot ops (ses_venue ses) bs as (books ses k) = (r, b1)" by force
  from snapshot [OF _ _ _ eq] assms ApplySnapshot have "r = Inr ()" "inv b1"
    "view b1 = (view (books ses k))(ses_venue ses := apply_action (view (books ses k) (ses_venue ses)) a)" by auto
  with ApplySnapshot assms(2) eq show ?thesis
    by (intro exI [of _ b1] exI [of _ "snapshot_fetches ses"]) (simp add: visit_action_def)
next
  case (ApplyDelta bs as)
  obtain r b1 where eq: "op_apply_batch ops (ses_venue ses) bs as (books ses k) = (r, b1)" by force
  from batch [OF _ _ _ eq] assms ApplyDelta have "r = Inr ()" "inv b1"
    "view b1 = (view (books ses k))(ses_venue ses := apply_action (view (books ses k) (ses_venue ses)) a)" by auto
  with ApplyDelta assms(2) eq show ?thesis
    by (intro exI [of _ b1] exI [of _ "snapshot_fetches ses"]) (simp add: visit_action_def)
next
  case InvalidateVenue
  with assms invalidate show ?thesis
    by (intro exI [of _ "op_invalidate_venue ops (ses_venue ses) (books ses k)"] exI [of _ "snapshot_fetches ses"])
      (simp add: visit_action_def)
qed

lemma execute_actions_ok:
  assumes "\<forall>k. inv (books ses k)" "registry ses symbol = Some k" "list_all action_in_range acts"
  shows "\<exists>b' fs. execute_actions ops symbol acts ses =
      (InvalidateVenue \<in> set acts, ses\<lparr>books := (books ses)(k := b'), snapshot_fetches := fs\<rparr>)
    \<and> inv b' \<and> view b' = (view (books ses k))
        (ses_venue ses := foldl apply_action (view (books ses k) (ses_venue ses)) acts)"
  using assms
proof (induction acts arbitrary: ses)
  case Nil
  have "ses\<lparr>books := (books ses)(k := books ses k), snapshot_fetches := snapshot_fetches ses\<rparr> = ses" by simp
  with Nil show ?case by (intro exI [of _ "books ses k"] exI [of _ "snapshot_fetches ses"]) simp
next
  case (Cons a acts)
  let ?v = "ses_venue ses"
  have "\<forall>k. inv (books ses k)" "registry ses symbol = Some k" "action_in_range a" using Cons.prems by simp_all
  from execute_action_ok [OF this]
  obtain b1 f1 where 1: "execute_action ops symbol a ses =
      (a = InvalidateVenue, ses\<lparr>books := (books ses)(k := b1), snapshot_fetches := f1\<rparr>)"
    "inv b1" "view b1 = (view (books ses k))(?v := apply_action (view (books ses k) ?v) a)" by blast
  let ?s = "ses\<lparr>books := (books ses)(k := b1), snapshot_fetches := f1\<rparr>"
  have "\<forall>k. inv (books ?s k)" "registry ?s symbol = Some k" "list_all action_in_range acts"
    using Cons.prems 1(2) by simp_all
  from Cons.IH [OF this] obtain b' fs where 2: "execute_actions ops symbol acts ?s =
      (InvalidateVenue \<in> set acts, ?s\<lparr>books := (books ?s)(k := b'), snapshot_fetches := fs\<rparr>)"
    "inv b'" "view b' = (view (books ?s k))(ses_venue ?s := foldl apply_action (view (books ?s k) (ses_venue ?s)) acts)"
    by blast
  show ?case
    by (intro exI [of _ b'] exI [of _ fs]) (use 1 2 in \<open>auto simp: fun_upd_same simp del: fun_upd_apply\<close>)
qed

lemma map_of_set_sync:
  "map_of (symbol_syncs (set_sync symbol sync ses)) a =
     map_option (\<lambda>s. if a = symbol then sync else s) (map_of (symbol_syncs ses) a)"
proof -
  have "map_of (map (\<lambda>(b, s). (b, if b = symbol then sync else s)) xs) a
      = map_option (\<lambda>s. if a = symbol then sync else s) (map_of xs a)" for xs
    by (induction xs) auto
  then show ?thesis by (simp add: set_sync_def)
qed

lemma set_sync_parts [simp]:
  "ses_venue (set_sync symbol sync ses) = ses_venue ses" "ses_policy (set_sync symbol sync ses) = ses_policy ses"
  "ses_via_rest (set_sync symbol sync ses) = ses_via_rest ses" "registry (set_sync symbol sync ses) = registry ses"
  "books (set_sync symbol sync ses) = books ses" "stopping (set_sync symbol sync ses) = stopping ses"
  "snapshot_fetches (set_sync symbol sync ses) = snapshot_fetches ses"
  by (simp_all add: set_sync_def)

text \<open>One event of one symbol's machine, with its actions carried out.\<close>

text \<open>The machine of one symbol moves, and its book with it.\<close>

lemma registered_apart:
  assumes ses: "session_inv T ses" and syncs: "map_of (symbol_syncs ses) symbol = Some sync"
    "map_of (symbol_syncs ses) a = Some s" and a: "a \<noteq> symbol" and k: "registry ses symbol = Some k"
  obtains j where "registry ses a = Some j" "j \<noteq> k" "list_all update_in_range (sync_buffer s)"
    "sync_inv (\<lambda>e. faithful (ses_venue ses) (T a) (Depth e)) (T a) s (view (books ses j) (ses_venue ses))"
proof -
  obtain j where j: "registry ses a = Some j" "list_all update_in_range (sync_buffer s)"
    "sync_inv (\<lambda>e. faithful (ses_venue ses) (T a) (Depth e)) (T a) s (view (books ses j) (ses_venue ses))"
    using ses syncs(2) unfolding session_inv_def by blast
  have "inj_on (registry ses) (dom (map_of (symbol_syncs ses)))" using ses by (simp add: session_inv_def)
  then have "registry ses a \<noteq> registry ses symbol" using a syncs by (meson domI inj_onD)
  then have "j \<noteq> k" using j(1) k by auto
  then show thesis by (rule that [OF j(1) _ j(2,3)])
qed

lemma syncs_set_sync:
  assumes "map_of (symbol_syncs ses) symbol = Some sync"
  shows "map_of (symbol_syncs (set_sync symbol sync' ses)) a =
    (if a = symbol then Some sync' else map_of (symbol_syncs ses) a)"
  using map_of_set_sync [of symbol sync' ses a] assms by (simp add: option.map_ident)

lemma session_inv_moved:
  assumes ses: "session_inv T ses" and sync: "map_of (symbol_syncs ses) symbol = Some sync"
    and k: "registry ses symbol = Some k" and buf: "list_all update_in_range (sync_buffer sync')"
    and b': "inv b'" "view b' = (view (books ses k))(ses_venue ses := bk)"
    and si: "sync_inv (\<lambda>e. faithful (ses_venue ses) (T symbol) (Depth e)) (T symbol) sync' bk"
  shows "session_inv T ((set_sync symbol sync' ses)\<lparr>books := (books ses)(k := b'), snapshot_fetches := fs\<rparr>)"
    (is "session_inv T ?s2")
proof -
  have syncs: "map_of (symbol_syncs ?s2) a = (if a = symbol then Some sync' else map_of (symbol_syncs ses) a)" for a
    using syncs_set_sync [OF sync] by simp
  have "dom (map_of (symbol_syncs ?s2)) = dom (map_of (symbol_syncs ses))"
    using sync unfolding dom_def syncs by auto
  moreover have "Some k \<in> registry ses ` dom (map_of (symbol_syncs ses))"
    using sync k by (metis domI imageI)
  ultimately have inj: "inj_on (registry ?s2) (dom (map_of (symbol_syncs ?s2)))"
    and untouched: "\<forall>j. Some j \<notin> registry ?s2 ` dom (map_of (symbol_syncs ?s2)) \<longrightarrow>
      view (books ?s2 j) (ses_venue ?s2) = None"
    using ses by (auto simp: session_inv_def)
  have "list_all update_in_range (sync_buffer s) \<and> (\<exists>j. registry ?s2 a = Some j
      \<and> sync_inv (\<lambda>e. faithful (ses_venue ?s2) (T a) (Depth e)) (T a) s (view (books ?s2 j) (ses_venue ?s2)))"
    if s: "map_of (symbol_syncs ?s2) a = Some s" for a s
  proof (cases "a = symbol")
    case True
    with s syncs [of a] si k buf b'(2) show ?thesis by (intro conjI exI [of _ k]) simp_all
  next
    case False
    with s syncs [of a] have "map_of (symbol_syncs ses) a = Some s" by simp
    from registered_apart [OF ses sync this False k] obtain j where
      j: "registry ses a = Some j" "j \<noteq> k" "list_all update_in_range (sync_buffer s)"
        "sync_inv (\<lambda>e. faithful (ses_venue ses) (T a) (Depth e)) (T a) s (view (books ses j) (ses_venue ses))" .
    then show ?thesis by (intro conjI exI [of _ j]) simp_all
  qed
  then show ?thesis unfolding session_inv_def using ses b'(1) inj untouched by (auto simp: session_inv_def)
qed

lemma machine_step:
  assumes ses: "session_inv T ses" and sync: "map_of (symbol_syncs ses) symbol = Some sync"
    and step: "sync_step (ses_policy ses) ev sync = (sync', acts)"
    and ev: "faithful (ses_venue ses) (T symbol) ev" "event_in_range ev"
  obtains ses' where
    "execute_actions ops symbol acts (set_sync symbol sync' ses) = (InvalidateVenue \<in> set acts, ses')"
    "session_inv T ses'" "ses_venue ses' = ses_venue ses" "ses_policy ses' = ses_policy ses"
    "stopping ses' = stopping ses" "ses_via_rest ses' = ses_via_rest ses"
    "map_of (symbol_syncs ses') symbol = Some sync'"
    "\<And>a. a \<noteq> symbol \<Longrightarrow> map_of (symbol_syncs ses') a = map_of (symbol_syncs ses) a"
    "map fst (symbol_syncs ses') = map fst (symbol_syncs ses)" "registry ses' = registry ses"
    "\<And>k w. w \<noteq> ses_venue ses \<Longrightarrow> view (books ses' k) w = view (books ses k) w"
proof -
  let ?v = "ses_venue ses"
  let ?s1 = "set_sync symbol sync' ses"
  obtain k where k: "registry ses symbol = Some k" and buf: "list_all update_in_range (sync_buffer sync)"
    and si: "sync_inv (\<lambda>e. faithful ?v (T symbol) (Depth e)) (T symbol) sync (view (books ses k) ?v)"
    using ses sync unfolding session_inv_def by blast
  note rng = sync_step_in_range [OF buf ev(2) step]
  obtain b' fs where ex: "execute_actions ops symbol acts ?s1 =
      (InvalidateVenue \<in> set acts, ?s1\<lparr>books := (books ses)(k := b'), snapshot_fetches := fs\<rparr>)"
    and b': "inv b'" "view b' = (view (books ses k))(?v := foldl apply_action (view (books ses k) ?v) acts)"
    using execute_actions_ok [of ?s1 symbol k acts] ses k rng(1) by (auto simp: session_inv_def)
  let ?s2 = "?s1\<lparr>books := (books ses)(k := b'), snapshot_fetches := fs\<rparr>"
  have "sync_inv (\<lambda>e. faithful ?v (T symbol) (Depth e)) (T symbol) sync' (foldl apply_action (view (books ses k) ?v) acts)"
    using venue_laws.step_inv [of ?v "T symbol" sync "view (books ses k) ?v" ev sync' acts] si ev(1) step ses
    by (simp add: faithful_def session_inv_def)
  note moved = session_inv_moved [OF ses sync k rng(2) b' this, of fs]
  have "map fst (symbol_syncs ?s2) = map fst (symbol_syncs ses)"
    by (simp add: set_sync_def case_prod_unfold comp_def)
  moreover have "view (books ?s2 j) w = view (books ses j) w" if "w \<noteq> ?v" for j w
    using that b'(2) by simp
  ultimately show thesis using moved syncs_set_sync [OF sync] by (intro that [OF ex]) auto
qed

text \<open>What no step of a session touches: its own configuration, and the other venues.\<close>

definition same_shape :: "'b session \<Rightarrow> 'b session \<Rightarrow> bool" where
  "same_shape ses ses' \<longleftrightarrow>
     ses_venue ses' = ses_venue ses \<and> ses_policy ses' = ses_policy ses \<and> stopping ses' = stopping ses
     \<and> ses_via_rest ses' = ses_via_rest ses \<and> registry ses' = registry ses
     \<and> map fst (symbol_syncs ses') = map fst (symbol_syncs ses)
     \<and> (\<forall>k w. w \<noteq> ses_venue ses \<longrightarrow> view (books ses' k) w = view (books ses k) w)"

lemma machine_step_shape:
  assumes "session_inv T ses" "map_of (symbol_syncs ses) symbol = Some sync"
    "sync_step (ses_policy ses) ev sync = (sync', acts)"
    "faithful (ses_venue ses) (T symbol) ev" "event_in_range ev"
  obtains ses' where
    "execute_actions ops symbol acts (set_sync symbol sync' ses) = (InvalidateVenue \<in> set acts, ses')"
    "session_inv T ses'" "same_shape ses ses'"
proof (rule machine_step [OF assms])
  fix ses'
  assume *: "execute_actions ops symbol acts (set_sync symbol sync' ses) = (InvalidateVenue \<in> set acts, ses')"
    "session_inv T ses'" "ses_venue ses' = ses_venue ses" "ses_policy ses' = ses_policy ses"
    "stopping ses' = stopping ses" "ses_via_rest ses' = ses_via_rest ses"
    "map fst (symbol_syncs ses') = map fst (symbol_syncs ses)" "registry ses' = registry ses"
    "\<And>k w. w \<noteq> ses_venue ses \<Longrightarrow> view (books ses' k) w = view (books ses k) w"
  show thesis by (rule that [OF *(1,2)]) (use *(3-) in \<open>simp add: same_shape_def\<close>)
qed

lemma resync_ok:
  assumes "session_inv T ses"
  shows "session_inv T (resync_rest_venue_after_gap ops symbol ses)
    \<and> same_shape ses (resync_rest_venue_after_gap ops symbol ses)"
proof (cases "map_of (symbol_syncs ses) symbol")
  case None
  with assms show ?thesis by (simp add: resync_rest_venue_after_gap_def same_shape_def)
next
  case (Some sync)
  obtain sync' acts where oc: "on_connected sync = (sync', acts)" by force
  obtain ses' where "execute_actions ops symbol acts (set_sync symbol sync' ses) = (InvalidateVenue \<in> set acts, ses')"
    "session_inv T ses'" "same_shape ses ses'"
    using machine_step_shape [OF assms Some, of Connected sync' acts] oc by (auto simp: faithful_def)
  with Some oc show ?thesis by (simp add: resync_rest_venue_after_gap_def)
qed

lemma dispatch_ok:
  assumes ses: "session_inv T ses" and sync: "map_of (symbol_syncs ses) symbol = Some sync"
    and step: "sync_step (ses_policy ses) ev sync = (sync', acts)"
    and ev: "faithful (ses_venue ses) (T symbol) ev" "event_in_range ev"
  shows "session_inv T (snd (execute_actions_and_maybe_force_reconnect ops symbol acts (set_sync symbol sync' ses)))
    \<and> same_shape ses (snd (execute_actions_and_maybe_force_reconnect ops symbol acts (set_sync symbol sync' ses)))"
proof -
  obtain ses' where ex: "execute_actions ops symbol acts (set_sync symbol sync' ses) = (InvalidateVenue \<in> set acts, ses')"
    and ok: "session_inv T ses'" "same_shape ses ses'"
    using machine_step_shape [OF ses sync step ev] by blast
  with resync_ok [OF ok(1), of symbol] show ?thesis
    by (auto simp: execute_actions_and_maybe_force_reconnect_def same_shape_def)
qed

lemma each_symbol_ok:
  assumes "session_inv T ses" "\<And>s. f s = sync_step (ses_policy ses) ev s" "ev = Connected \<or> ev = Disconnected"
  shows "session_inv T (each_symbol ops f symbols ses) \<and> same_shape ses (each_symbol ops f symbols ses)"
  using assms
proof (induction symbols arbitrary: ses)
  case Nil
  then show ?case by (simp add: same_shape_def)
next
  case (Cons symbol symbols)
  show ?case
  proof (cases "map_of (symbol_syncs ses) symbol")
    case None
    with Cons show ?thesis by simp
  next
    case (Some sync)
    obtain sync' acts where fs: "f sync = (sync', acts)" by force
    have pub: "faithful (ses_venue ses) (T symbol) ev" "event_in_range ev"
      using Cons.prems(3) by (auto simp: faithful_def)
    obtain ses' where ex: "execute_actions ops symbol acts (set_sync symbol sync' ses) = (InvalidateVenue \<in> set acts, ses')"
      and ok: "session_inv T ses'" "same_shape ses ses'"
      using machine_step_shape [OF Cons.prems(1) Some _ pub, of sync' acts] fs Cons.prems(2) by metis
    have "session_inv T (each_symbol ops f symbols ses') \<and> same_shape ses' (each_symbol ops f symbols ses')"
      using Cons.prems ok by (intro Cons.IH) (simp_all add: same_shape_def)
    with Some fs ex ok(2) show ?thesis by (simp add: same_shape_def)
  qed
qed

lemma connected_ok:
  "session_inv T ses \<Longrightarrow> session_inv T (connected ops ses) \<and> same_shape ses (connected ops ses)"
  unfolding connected_def by (rule each_symbol_ok [of T ses _ Connected]) simp_all

lemma invalidate_all_ok:
  "session_inv T ses \<Longrightarrow> session_inv T (invalidate_all ops ses) \<and> same_shape ses (invalidate_all ops ses)"
  unfolding invalidate_all_def by (rule each_symbol_ok [of T ses _ Disconnected]) simp_all

lemma fetched_ok:
  assumes ses: "session_inv T ses"
    and m: "\<And>m. response = Some m \<Longrightarrow> truthful (T symbol) m \<and> event_in_range (Snapshot m)"
  shows "session_inv T (snd (snapshot_fetched ops symbol response ses))
    \<and> same_shape ses (snd (snapshot_fetched ops symbol response ses))"
proof -
  define ses1 where "ses1 = ses\<lparr>snapshot_fetches := remove1 symbol (snapshot_fetches ses)\<rparr>"
  have inv1: "session_inv T ses1" and sh: "same_shape ses ses1"
    using ses by (simp_all add: ses1_def session_inv_def same_shape_def)
  show ?thesis
  proof (cases "ses_via_rest ses1 \<and> \<not> stopping ses1 \<and> response \<noteq> None \<and> map_of (symbol_syncs ses1) symbol \<noteq> None")
    case False
    then have "snd (snapshot_fetched ops symbol response ses) = ses1"
      by (auto simp: snapshot_fetched_def ses1_def [symmetric] Let_def split: option.splits)
    with inv1 sh show ?thesis by simp
  next
    case True
    then obtain m sync where r: "response = Some m" and sync: "map_of (symbol_syncs ses1) symbol = Some sync"
      by blast
    obtain sync' acts where os: "on_snapshot (ses_policy ses1) m sync = (sync', acts)" by force
    have "snd (snapshot_fetched ops symbol response ses)
        = snd (execute_actions_and_maybe_force_reconnect ops symbol acts (set_sync symbol sync' ses1))"
      using True r sync os
      by (simp add: snapshot_fetched_def ses1_def [symmetric] Let_def
          execute_actions_and_maybe_force_reconnect_def split: prod.split)
    moreover have "session_inv T (snd (execute_actions_and_maybe_force_reconnect ops symbol acts (set_sync symbol sync' ses1)))
      \<and> same_shape ses1 (snd (execute_actions_and_maybe_force_reconnect ops symbol acts (set_sync symbol sync' ses1)))"
      using m [OF r] os by (intro dispatch_ok [OF inv1 sync, of "Snapshot m"]) (simp_all add: faithful_def)
    ultimately show ?thesis using sh by (simp add: same_shape_def)
  qed
qed

lemma after_ok:
  assumes "session_inv T (snd r)" "same_shape ses (snd r)"
  shows "session_inv T (after ops r) \<and> same_shape ses (after ops r)"
  using assms invalidate_all_ok [OF assms(1)]
  by (cases "fst r") (auto simp: after_def same_shape_def)

lemma session_step_ok:
  assumes ses: "session_inv T ses" and ev: "good_event (ses_venue ses) T ev" "ev \<noteq> SStop"
  shows "session_inv T (session_step ops ses ev) \<and> same_shape ses (session_step ops ses ev)"
proof (cases ev)
  case (SDepth m)
  have "session_inv T (snd (dispatch_depth_update ops m ses)) \<and> same_shape ses (snd (dispatch_depth_update ops m ses))"
  proof (cases "map_of (symbol_syncs ses) (du_symbol m)")
    case None
    with ses show ?thesis by (simp add: dispatch_depth_update_def same_shape_def)
  next
    case (Some sync)
    obtain sync' acts where os: "on_depth_update (ses_policy ses) m sync = (sync', acts)" by force
    from dispatch_ok [OF ses Some, of "Depth m" sync' acts] Some os ev SDepth show ?thesis
      by (simp add: dispatch_depth_update_def)
  qed
  with after_ok [of T "dispatch_depth_update ops m ses" ses] SDepth show ?thesis by simp
next
  case (SSnapshot m)
  have "session_inv T (snd (dispatch_snapshot ops m ses)) \<and> same_shape ses (snd (dispatch_snapshot ops m ses))"
  proof (cases "map_of (symbol_syncs ses) (sm_symbol m)")
    case None
    with ses show ?thesis by (simp add: dispatch_snapshot_def same_shape_def)
  next
    case (Some sync)
    obtain sync' acts where os: "on_snapshot (ses_policy ses) m sync = (sync', acts)" by force
    from dispatch_ok [OF ses Some, of "Snapshot m" sync' acts] Some os ev SSnapshot show ?thesis
      by (simp add: dispatch_snapshot_def faithful_def)
  qed
  with after_ok [of T "dispatch_snapshot ops m ses" ses] SSnapshot show ?thesis by simp
next
  case (SFetched symbol response)
  have "session_inv T (snd (snapshot_fetched ops symbol response ses))
      \<and> same_shape ses (snd (snapshot_fetched ops symbol response ses))"
    using ev SFetched by (intro fetched_ok [OF ses]) auto
  with after_ok [of T "snapshot_fetched ops symbol response ses" ses] SFetched show ?thesis by simp
qed (use ses ev connected_ok invalidate_all_ok in auto)

lemma each_disconnected:
  assumes "session_inv T ses" "map_of (symbol_syncs (each_symbol ops on_disconnected symbols ses)) a = Some s"
    "a \<in> set symbols \<or> (\<forall>s0. map_of (symbol_syncs ses) a = Some s0 \<longrightarrow> sync_state s0 = Buffering)"
  shows "sync_state s = Buffering"
  using assms
proof (induction symbols arbitrary: ses)
  case Nil
  then show ?case by auto
next
  case (Cons symbol symbols)
  show ?case
  proof (cases "map_of (symbol_syncs ses) symbol")
    case None
    with Cons.prems have "a \<in> set symbols \<or> (\<forall>s0. map_of (symbol_syncs ses) a = Some s0 \<longrightarrow> sync_state s0 = Buffering)"
      by auto
    with Cons None show ?thesis by simp
  next
    case (Some sync)
    have st: "sync_step (ses_policy ses) Disconnected sync = (reset sync, [InvalidateVenue])"
      by (simp add: on_disconnected_def)
    obtain ses' where ex: "execute_actions ops symbol [InvalidateVenue] (set_sync symbol (reset sync) ses)
          = (InvalidateVenue \<in> set [InvalidateVenue], ses')"
      and ok: "session_inv T ses'" "map_of (symbol_syncs ses') symbol = Some (reset sync)"
      and oth: "\<And>a. a \<noteq> symbol \<Longrightarrow> map_of (symbol_syncs ses') a = map_of (symbol_syncs ses) a"
      by (rule machine_step [OF Cons.prems(1) Some st]) (auto simp: faithful_def)
    have each: "each_symbol ops on_disconnected (symbol # symbols) ses = each_symbol ops on_disconnected symbols ses'"
      using Some ex by (simp add: on_disconnected_def)
    have "a \<in> set symbols \<or> (\<forall>s0. map_of (symbol_syncs ses') a = Some s0 \<longrightarrow> sync_state s0 = Buffering)"
      using Cons.prems(3) ok(2) oth [of a] by (cases "a = symbol") (auto simp: reset_def)
    with Cons.IH [OF ok(1)] Cons.prems(2) each show ?thesis by simp
  qed
qed

lemma invalidate_all_withdraws:
  assumes "session_inv T ses"
  shows "view (books (invalidate_all ops ses) k) (ses_venue ses) = None"
proof -
  let ?ses' = "invalidate_all ops ses"
  have si: "session_inv T ?ses'" and sh: "same_shape ses ?ses'" using invalidate_all_ok [OF assms] by auto
  have v: "ses_venue ?ses' = ses_venue ses" and fst: "map fst (symbol_syncs ?ses') = map fst (symbol_syncs ses)"
    using sh by (simp_all add: same_shape_def)
  show ?thesis
  proof (cases "Some k \<in> registry ?ses' ` dom (map_of (symbol_syncs ?ses'))")
    case False
    with si v show ?thesis by (simp add: session_inv_def)
  next
    case True
    then obtain a s where a: "registry ?ses' a = Some k" "map_of (symbol_syncs ?ses') a = Some s" by force
    have "a \<in> fst ` set (symbol_syncs ?ses')" using a(2) by (metis domI dom_map_of_conv_image_fst)
    then have "a \<in> set (map fst (symbol_syncs ses))" using fst by (metis set_map)
    then have "sync_state s = Buffering"
      using each_disconnected [OF assms, of "map fst (symbol_syncs ses)" a s] a(2)
      by (simp add: invalidate_all_def)
    with session_inv_sync [OF si a(2,1)] v show ?thesis by (simp add: sync_inv_def)
  qed
qed

lemma late_fetches_change_nothing:
  assumes "stopping ses" "list_all (\<lambda>ev. \<exists>symbol response. ev = SFetched symbol response) evs"
  shows "books (foldl (session_step ops) ses evs) = books ses"
  using assms
proof (induction evs arbitrary: ses)
  case (Cons ev evs)
  then obtain symbol response where ev: "ev = SFetched symbol response" by auto
  with Cons.prems have "session_step ops ses ev =
      ses\<lparr>snapshot_fetches := remove1 symbol (snapshot_fetches ses)\<rparr>"
    by (simp add: snapshot_fetched_def Let_def after_def)
  with Cons show ?case by simp
qed simp

lemma session_inv_other:
  assumes "session_inv T ses" "\<forall>k. inv (B k)" "\<forall>k. view (B k) (ses_venue ses) = view (books ses k) (ses_venue ses)"
  shows "session_inv T (ses\<lparr>books := B\<rparr>)"
  using assms by (simp add: session_inv_def)

lemma session_stop_ok: "session_inv T ses \<Longrightarrow> session_inv T (session_step ops ses SStop)"
  by (simp add: session_inv_def)

end

section \<open>Both books meet the contract\<close>

definition aggregate_ops :: "aggregate_order_book book_ops" where
  "aggregate_ops = \<lparr>
     op_apply_snapshot = (\<lambda>v bs as b. (fst (apply_snapshot v bs as b), fst (snd (apply_snapshot v bs as b)))),
     op_apply_batch = (\<lambda>v bs as b. (fst (apply_batch v bs as b), fst (snd (apply_batch v bs as b)))),
     op_invalidate_venue = (\<lambda>v b. fst (invalidate_venue v b))\<rparr>"

definition symbol_book_ops :: "u64 \<times> u64 \<Rightarrow> symbol_book book_ops" where
  "symbol_book_ops clock = \<lparr>
     op_apply_snapshot = sb_apply_snapshot clock,
     op_apply_batch = sb_apply_batch clock,
     op_invalidate_venue = sb_invalidate_venue clock\<rparr>"

lemma venue_view_update:
  "venues b' = (venues b)(v \<mapsto> vb) \<Longrightarrow>
   venue_view b' = (venue_view b)(v \<mapsto> (map_of (bids vb), map_of (asks vb)))"
  by (auto simp: venue_view_def fun_eq_iff)

lemma venue_view_batch:
  "apply_action (venue_view b v) (ApplyDelta bs as) =
     Some (replay bs (map_of (bids (venue_book b v))), replay as (map_of (asks (venue_book b v))))"
  by (simp add: venue_view_def venue_book_def split: option.split)

interpretation aggregate_target: book_target aggregate_ops agg_inv venue_view
proof
  fix b bs as v r b'
  assume b: "agg_inv b" and l: "levels_in_range bs" "levels_in_range as"
    and eq: "op_apply_snapshot aggregate_ops v bs as b = (r, b')"
  obtain bc ac where "apply_snapshot v bs as b = (r, b', bc, ac)"
    using eq by (cases "apply_snapshot v bs as b") (auto simp: aggregate_ops_def)
  note ok = apply_snapshot_ok [OF b _ _ _ _ this]
  show "r = Inr () \<and> agg_inv b' \<and> venue_view b' = (venue_view b)(v := apply_action (venue_view b v) (ApplySnapshot bs as))"
    using ok l venue_view_update [OF ok(3)] by (simp add: levels_in_range_iff)
next
  fix b bs as v r b'
  assume b: "agg_inv b" and l: "levels_in_range bs" "levels_in_range as"
    and eq: "op_apply_batch aggregate_ops v bs as b = (r, b')"
  obtain bc ac where "apply_batch v bs as b = (r, b', bc, ac)"
    using eq by (cases "apply_batch v bs as b") (auto simp: aggregate_ops_def)
  note ok = apply_batch_ok [OF b _ _ _ _ this]
  show "r = Inr () \<and> agg_inv b' \<and> venue_view b' = (venue_view b)(v := apply_action (venue_view b v) (ApplyDelta bs as))"
    using ok(1-5) l venue_view_update [OF ok(3)] unfolding venue_view_batch by (simp add: levels_in_range_iff)
next
  fix b v
  assume b: "agg_inv b"
  obtain b' bc ac where eq: "invalidate_venue v b = (b', bc, ac)" by (metis prod_cases3)
  note ok = invalidate_venue_ok [OF b eq]
  have "venue_view b' = (venue_view b)(v := None)" using ok(2) by (auto simp: venue_view_def fun_eq_iff)
  with ok(1) eq show "agg_inv (op_invalidate_venue aggregate_ops v b)
      \<and> venue_view (op_invalidate_venue aggregate_ops v b) = (venue_view b)(v := None)"
    by (simp add: aggregate_ops_def)
qed

interpretation symbol_book_target: book_target "symbol_book_ops clock" sb_inv "\<lambda>sb. venue_view (sb_book sb)" for clock
proof
  fix sb bs as v r sb'
  assume sb: "sb_inv sb" and l: "levels_in_range bs" "levels_in_range as"
    and eq: "op_apply_snapshot (symbol_book_ops clock) v bs as sb = (r, sb')"
  let ?op = "SApplySnapshot clock v bs as"
  have rng: "op_sizes_in_range (book_op_of ?op)" using l by (simp add: levels_in_range_iff)
  have sb': "sb' = server_step sb ?op" using eq by (simp add: symbol_book_ops_def)
  have a: "agg_inv (sb_book sb)" using sb by (simp add: sb_inv_def)
  obtain r1 b' where ag: "op_apply_snapshot aggregate_ops v bs as (sb_book sb) = (r1, b')" by force
  note tgt = aggregate_target.snapshot [OF a l ag]
  have "r = Inr ()"
    using eq l tgt ag by (auto simp: symbol_book_ops_def sb_apply_snapshot_def levels_in_range_iff aggregate_ops_def
        split: prod.splits)
  moreover have "sb_book sb' = b'"
    using server_step_revision(2) [OF sb rng] ag by (simp add: sb' aggregate_ops_def)
  ultimately show "r = Inr () \<and> sb_inv sb' \<and> venue_view (sb_book sb')
      = (venue_view (sb_book sb))(v := apply_action (venue_view (sb_book sb) v) (ApplySnapshot bs as))"
    using tgt server_step_revision(1) [OF sb rng] by (simp add: sb')
next
  fix sb bs as v r sb'
  assume sb: "sb_inv sb" and l: "levels_in_range bs" "levels_in_range as"
    and eq: "op_apply_batch (symbol_book_ops clock) v bs as sb = (r, sb')"
  let ?op = "SApplyBatch clock v bs as"
  have rng: "op_sizes_in_range (book_op_of ?op)" using l by (simp add: levels_in_range_iff)
  have sb': "sb' = server_step sb ?op" using eq by (simp add: symbol_book_ops_def)
  have a: "agg_inv (sb_book sb)" using sb by (simp add: sb_inv_def)
  obtain r1 b' where ag: "op_apply_batch aggregate_ops v bs as (sb_book sb) = (r1, b')" by force
  note tgt = aggregate_target.batch [OF a l ag]
  have "r = Inr ()"
    using eq l tgt ag by (auto simp: symbol_book_ops_def sb_apply_batch_def levels_in_range_iff aggregate_ops_def
        split: prod.splits)
  moreover have "sb_book sb' = b'"
    using server_step_revision(2) [OF sb rng] ag by (simp add: sb' aggregate_ops_def)
  ultimately show "r = Inr () \<and> sb_inv sb' \<and> venue_view (sb_book sb')
      = (venue_view (sb_book sb))(v := apply_action (venue_view (sb_book sb) v) (ApplyDelta bs as))"
    using tgt server_step_revision(1) [OF sb rng] by (simp only: sb')
next
  fix sb v
  assume sb: "sb_inv sb"
  let ?op = "SInvalidate clock v"
  have a: "agg_inv (sb_book sb)" using sb by (simp add: sb_inv_def)
  from server_step_revision [OF sb, of ?op] aggregate_target.invalidate [OF a, of v]
  show "sb_inv (op_invalidate_venue (symbol_book_ops clock) v sb)
      \<and> venue_view (sb_book (op_invalidate_venue (symbol_book_ops clock) v sb)) = (venue_view (sb_book sb))(v := None)"
    by (simp add: symbol_book_ops_def aggregate_ops_def)
qed

section \<open>One symbol of one venue on the aggregate\<close>

text \<open>
  The machine of one symbol, its actions carried out on the aggregate, under every schedule: the
  aggregate may hold anything of other venues, and other venues act on it between two events.
\<close>

inductive feed_reaches :: "venue_id \<Rightarrow> (u64 \<Rightarrow> lookups) \<Rightarrow> symbol_sync \<Rightarrow> aggregate_order_book \<Rightarrow> bool"
  for v :: venue_id and T :: "u64 \<Rightarrow> lookups" where
  start: "agg_inv b \<Longrightarrow> venues b v = None \<Longrightarrow> feed_reaches v T initial_sync b"
| event: "feed_reaches v T s b \<Longrightarrow> faithful v T ev \<Longrightarrow> event_in_range ev \<Longrightarrow>
          sync_step (venue_policy v) ev s = (s', acts) \<Longrightarrow> feed_reaches v T s' (foldl (execute_on v) b acts)"
| other: "feed_reaches v T s b \<Longrightarrow> w \<noteq> v \<Longrightarrow> action_in_range action \<Longrightarrow> feed_reaches v T s (execute_on w b action)"

text \<open>The book carries the action out: no call reports a rejection.\<close>

fun accepted :: "venue_id \<Rightarrow> aggregate_order_book \<Rightarrow> sync_action \<Rightarrow> bool" where
  "accepted v b (ApplySnapshot bs as) = is_ok (fst (apply_snapshot v bs as b))"
| "accepted v b (ApplyDelta bs as) = is_ok (fst (apply_batch v bs as b))"
| "accepted v b _ = True"

lemma execute_on_ok:
  assumes "agg_inv b" "action_in_range action"
  shows "accepted v b action \<and> agg_inv (execute_on v b action)
    \<and> venue_view (execute_on v b action) = (venue_view b)(v := apply_action (venue_view b v) action)"
proof (cases action)
  case (ApplySnapshot bs as)
  then have l: "levels_in_range bs" "levels_in_range as" using assms(2) by auto
  have "op_apply_snapshot aggregate_ops v bs as b = (fst (apply_snapshot v bs as b), execute_on v b action)"
    by (simp add: aggregate_ops_def ApplySnapshot)
  from aggregate_target.snapshot [OF assms(1) l this] show ?thesis by (simp add: ApplySnapshot)
next
  case (ApplyDelta bs as)
  then have l: "levels_in_range bs" "levels_in_range as" using assms(2) by auto
  have "op_apply_batch aggregate_ops v bs as b = (fst (apply_batch v bs as b), execute_on v b action)"
    by (simp add: aggregate_ops_def ApplyDelta)
  from aggregate_target.batch [OF assms(1) l this] show ?thesis by (simp add: ApplyDelta del: apply_action.simps execute_on.simps)
next
  case InvalidateVenue
  with aggregate_target.invalidate [OF assms(1), of v] show ?thesis by (simp add: aggregate_ops_def)
qed (use assms in simp)

lemma execute_all_ok:
  assumes "agg_inv b" "list_all action_in_range acts"
  shows "agg_inv (foldl (execute_on v) b acts)
    \<and> venue_view (foldl (execute_on v) b acts) v = foldl apply_action (venue_view b v) acts"
  using assms
proof (induction acts arbitrary: b)
  case (Cons a acts)
  with execute_on_ok [of b a v] show ?case by simp
qed simp

lemma feed_reaches_inv:
  "feed_reaches v T s b \<Longrightarrow> agg_inv b \<and> list_all update_in_range (sync_buffer s)
     \<and> sync_inv (\<lambda>e. faithful v T (Depth e)) T s (venue_view b v)"
proof (induction rule: feed_reaches.induct)
  case (start b)
  then show ?case by (simp add: sync_inv_def initial_sync_def venue_view_def)
next
  case (event s b ev s' acts)
  then have inv: "agg_inv b" "list_all update_in_range (sync_buffer s)"
    "sync_inv (\<lambda>e. published (venue_shape v) (venue_covers v) T (Depth e)) T s (venue_view b v)"
    by (simp_all add: faithful_def)
  note rng = sync_step_in_range [OF inv(2) event(3,4)]
  from execute_all_ok [OF inv(1) rng(1), of v] rng(2) venue_laws.step_inv [OF inv(3) _ event(4)] event(2)
  show ?case by (simp add: faithful_def)
next
  case (other s b w action)
  with execute_on_ok [of b action w] show ?case by simp
qed

text \<open>
  C4. A live book is the exchange's book, and an unsynchronised venue shows nothing. For every venue
  the server wires, whatever the schedule of connects, disconnects, depth events and snapshots, with
  any loss, repetition or reordering of messages that are faithful and whose levels the book accepts,
  and whatever other venues do to the same \<^verbatim>\<open>AggregateOrderBook\<close> in between: after every event, in
  state \<^verbatim>\<open>Live\<close> the venue's book in the aggregate is exactly the exchange's book at
  \<^verbatim>\<open>last_final_id_\<close> and nothing is left in the buffer; in state \<^verbatim>\<open>Buffering\<close> the venue has no book in
  the aggregate at all. The aggregate is the sum of the venues' books throughout, and rejects none of
  these actions.
\<close>

theorem live_book_is_exchange_book:
  assumes "feed_reaches v T s b"
  shows "(sync_state s = Live \<longrightarrow> venue_view b v = Some (T (last_final_id s)) \<and> sync_buffer s = [])
    \<and> (sync_state s = Buffering \<longrightarrow> venue_view b v = None)
    \<and> (\<forall>p. level_at (bids (aggregate b)) p = (\<Sum>w\<in>UNIV. level_at (bids (venue_book b w)) p)
         \<and> level_at (asks (aggregate b)) p = (\<Sum>w\<in>UNIV. level_at (asks (venue_book b w)) p))
    \<and> (\<forall>w action. action_in_range action \<longrightarrow> accepted w b action)"
proof -
  have inv: "agg_inv b" and sync: "sync_inv (\<lambda>e. faithful v T (Depth e)) T s (venue_view b v)"
    using feed_reaches_inv [OF assms] by auto
  have "action_in_range action \<Longrightarrow> accepted w b action" for w action using execute_on_ok [OF inv] by blast
  with inv sync show ?thesis by (auto simp: sync_inv_def agg_inv_def side_ok_def split: sync_state.splits)
qed

lemma sample_levels_in_range:
  "levels_in_range [(100, 8)]" "levels_in_range [(100, 6)]" "levels_in_range []"
  by (simp_all add: levels_in_range_def venue_size_limit_def i64_max_def)

lemma sample_feed_reaches:
  "feed_reaches (VenueId Binance Spot) sample_truth sample_live (foldl (execute_on (VenueId Binance Spot))
     empty_aggregate [ApplySnapshot [(100, 6)] [], ApplyDelta [(100, 8)] []])"
proof -
  let ?R = "feed_reaches (VenueId Binance Spot) sample_truth"
  have "?R initial_sync empty_aggregate"
    by (rule feed_reaches.start [OF agg_inv_empty]) (simp add: empty_aggregate_def)
  from feed_reaches.event [OF this sample_faithful(1)] sample_steps(1)
  have "?R sample_buffered empty_aggregate"
    using sample_levels_in_range by (fastforce simp: update_in_range_def sample_event_def)
  moreover have "event_in_range (Snapshot sample_snapshot)"
    using sample_levels_in_range by (simp add: sample_snapshot_def)
  ultimately show ?thesis
    using feed_reaches.event [OF _ sample_faithful(2)] sample_steps(2) by (metis venue_policy.simps(1))
qed

theorem live_book_is_exchange_book_witness:
  "venue_view (foldl (execute_on (VenueId Binance Spot)) empty_aggregate
     [ApplySnapshot [(100, 6)] [], ApplyDelta [(100, 8)] []]) (VenueId Binance Spot) = Some (sample_truth 7)"
  using live_book_is_exchange_book [OF sample_feed_reaches] by (simp add: sample_live_def)

end
