(* ===== verification/Market.thy ===== *)
theory Market
  imports Venue_Session
begin

text \<open>
  All venue sessions of the server over the books they share: the composition of
  \<^verbatim>\<open>SymbolSync\<close>, \<^verbatim>\<open>VenueSession\<close>, \<^verbatim>\<open>AggregateOrderBook\<close> and
  \<^verbatim>\<open>SymbolBook\<close> as \<^verbatim>\<open>server_main.cpp\<close> wires it. The sessions run on different strands;
  every call into a book holds that book's lock for its whole effect, and a session's calls only
  touch its own venue's entry of a book. The model interleaves whole session steps: what a book holds
  after each of them is stated here, what one venue's entry holds between the actions of one step in
  \<^verbatim>\<open>Sync_Refinement\<close>.
\<close>

section \<open>The wiring\<close>

text \<open>\<^verbatim>\<open>Feed::kSnapshotViaRest\<close> of the feed each venue is wired with.\<close>

fun venue_via_rest :: "venue_id \<Rightarrow> bool" where
  "venue_via_rest (VenueId Binance _) = True"
| "venue_via_rest (VenueId Bybit _) = False"
| "venue_via_rest (VenueId Okx _) = False"

record market =
  mk_sessions :: "venue_id \<Rightarrow> symbol_book session"
  mk_books :: "nat \<Rightarrow> symbol_book"

definition new_market ::
  "(venue_id \<Rightarrow> native_symbol list) \<Rightarrow> (venue_id \<Rightarrow> symbol_registry) \<Rightarrow> market" where
  "new_market syms reg =
     \<lparr>mk_sessions = (\<lambda>v. new_session v (venue_policy v) (venue_via_rest v) (syms v) (reg v) (\<lambda>k. new_symbol_book)),
      mk_books = (\<lambda>k. new_symbol_book)\<rparr>"

text \<open>One step of one venue's session on the shared books.\<close>

definition market_step :: "market \<Rightarrow> (u64 \<times> u64) \<times> venue_id \<times> session_event \<Rightarrow> market" where
  "market_step mk = (\<lambda>(clock, v, ev).
     let ses = session_step (symbol_book_ops clock) ((mk_sessions mk v)\<lparr>books := mk_books mk\<rparr>) ev
     in \<lparr>mk_sessions = (mk_sessions mk)(v := ses), mk_books = books ses\<rparr>)"

definition run_market ::
  "(venue_id \<Rightarrow> native_symbol list) \<Rightarrow> (venue_id \<Rightarrow> symbol_registry)
   \<Rightarrow> ((u64 \<times> u64) \<times> venue_id \<times> session_event) list \<Rightarrow> market" where
  "run_market syms reg evs = foldl market_step (new_market syms reg) evs"

text \<open>Every symbol has a book, and no two symbols of a venue share one.\<close>

definition wired :: "(venue_id \<Rightarrow> native_symbol list) \<Rightarrow> (venue_id \<Rightarrow> symbol_registry) \<Rightarrow> bool" where
  "wired syms reg \<longleftrightarrow> (\<forall>v. set (syms v) \<subseteq> dom (reg v) \<and> inj_on (reg v) (set (syms v)))"

section \<open>The specification\<close>

text \<open>
  What book \<open>k\<close> should show of venue \<open>v\<close>: the exchange's book of the symbol registered to it, at
  the last id applied, when that symbol is live, and nothing otherwise.
\<close>

definition exchange_book ::
  "(venue_id \<Rightarrow> native_symbol \<Rightarrow> u64 \<Rightarrow> lookups) \<Rightarrow> market \<Rightarrow> nat \<Rightarrow> venue_id \<Rightarrow> lookups option" where
  "exchange_book T mk k v =
     (case find (\<lambda>(symbol, sync). registry (mk_sessions mk v) symbol = Some k) (symbol_syncs (mk_sessions mk v)) of
        None \<Rightarrow> None
      | Some (symbol, sync) \<Rightarrow>
          if sync_state sync = Live then Some (T v symbol (last_final_id sync)) else None)"

definition size_at :: "(price \<rightharpoonup> size_t) \<Rightarrow> price \<Rightarrow> size_t" where
  "size_at f p = (case f p of None \<Rightarrow> 0 | Some s \<Rightarrow> s)"

definition bid_size :: "lookups option \<Rightarrow> price \<Rightarrow> size_t" where
  "bid_size b p = (case b of None \<Rightarrow> 0 | Some (fb, fa) \<Rightarrow> size_at fb p)"

definition ask_size :: "lookups option \<Rightarrow> price \<Rightarrow> size_t" where
  "ask_size b p = (case b of None \<Rightarrow> 0 | Some (fb, fa) \<Rightarrow> size_at fa p)"

section \<open>The invariant\<close>

abbreviation book_view :: "symbol_book \<Rightarrow> venue_id \<Rightarrow> lookups option" where
  "book_view sb \<equiv> venue_view (sb_book sb)"

definition market_inv :: "(venue_id \<Rightarrow> native_symbol \<Rightarrow> u64 \<Rightarrow> lookups) \<Rightarrow> market \<Rightarrow> bool" where
  "market_inv T mk \<longleftrightarrow>
     (\<forall>v. ses_venue (mk_sessions mk v) = v
        \<and> book_target.session_inv sb_inv book_view (T v) ((mk_sessions mk v)\<lparr>books := mk_books mk\<rparr>))"

lemma market_step_inv:
  assumes inv: "market_inv T mk" and ev: "good_event v (T v) ev"
  shows "market_inv T (market_step mk (clock, v, ev))"
proof -
  let ?ses = "(mk_sessions mk v)\<lparr>books := mk_books mk\<rparr>"
  let ?ses' = "session_step (symbol_book_ops clock) ?ses ev"
  have v: "ses_venue ?ses = v" and si: "symbol_book_target.session_inv (T v) ?ses"
    using inv by (simp_all add: market_inv_def)
  have "symbol_book_target.session_inv (T v) ?ses' \<and> ses_venue ?ses' = v
    \<and> (\<forall>k w. w \<noteq> v \<longrightarrow> book_view (books ?ses' k) w = book_view (mk_books mk k) w)"
  proof (cases "ev = SStop")
    case True
    with si v symbol_book_target.session_stop_ok [OF si] show ?thesis by simp
  next
    case False
    with symbol_book_target.session_step_ok [OF si, of ev clock] ev v show ?thesis
      by (simp add: symbol_book_target.same_shape_def)
  qed
  then have si': "symbol_book_target.session_inv (T v) ?ses'" and v': "ses_venue ?ses' = v"
    and oth: "\<And>k w. w \<noteq> v \<Longrightarrow> book_view (books ?ses' k) w = book_view (mk_books mk k) w" by auto
  have "symbol_book_target.session_inv (T w) ((mk_sessions mk w)\<lparr>books := books ?ses'\<rparr>)" if "w \<noteq> v" for w
  proof -
    have "symbol_book_target.session_inv (T w) (((mk_sessions mk w)\<lparr>books := mk_books mk\<rparr>)\<lparr>books := books ?ses'\<rparr>)"
    proof (rule symbol_book_target.session_inv_other)
      show "symbol_book_target.session_inv (T w) ((mk_sessions mk w)\<lparr>books := mk_books mk\<rparr>)"
        using inv by (simp add: market_inv_def)
      show "\<forall>k. sb_inv (books ?ses' k)" using si' by (simp add: symbol_book_target.session_inv_def)
      have "ses_venue ((mk_sessions mk w)\<lparr>books := mk_books mk\<rparr>) = w" using inv by (simp add: market_inv_def)
      with oth that show "\<forall>k. book_view (books ?ses' k) (ses_venue ((mk_sessions mk w)\<lparr>books := mk_books mk\<rparr>))
          = book_view (books ((mk_sessions mk w)\<lparr>books := mk_books mk\<rparr>) k) (ses_venue ((mk_sessions mk w)\<lparr>books := mk_books mk\<rparr>))"
        by simp
    qed
    then show ?thesis by simp
  qed
  moreover have "?ses'\<lparr>books := books ?ses'\<rparr> = ?ses'" by simp
  ultimately show ?thesis
    using inv si' v' by (auto simp: market_inv_def market_step_def Let_def)
qed

lemma new_market_inv:
  assumes "wired syms reg"
  shows "market_inv T (new_market syms reg)"
proof -
  have dom: "map_of (map (\<lambda>s. (s, initial_sync)) xs) a = (if a \<in> set xs then Some initial_sync else None)"
    for xs :: "native_symbol list" and a
    by (induction xs) auto
  then have dom': "dom (map_of (map (\<lambda>s. (s, initial_sync)) xs)) = set xs" for xs :: "native_symbol list"
    by (auto simp: dom_def)
  have view: "book_view new_symbol_book v = None" for v
    by (simp add: venue_view_def new_symbol_book_def)
  have "\<exists>k. reg v symbol = Some k" if "symbol \<in> set (syms v)" for v symbol
    using assms that by (auto simp: wired_def)
  moreover have "sync_state initial_sync = Buffering" "sync_buffer initial_sync = []"
    by (simp_all add: initial_sync_def)
  ultimately show ?thesis
    using assms
    by (auto simp: market_inv_def new_market_def new_session_def symbol_book_target.session_inv_def sb_inv_new
        dom dom' view wired_def sync_inv_def split: if_splits)
qed

lemma run_market_inv:
  assumes "wired syms reg" "list_all (\<lambda>(clock, v, ev). good_event v (T v) ev) evs"
  shows "market_inv T (run_market syms reg evs)"
proof -
  have "market_inv T mk \<Longrightarrow> market_inv T (foldl market_step mk evs)" for mk
    using assms(2)
  proof (induction evs arbitrary: mk)
    case (Cons e evs)
    then show ?case by (cases e) (auto intro: market_step_inv)
  qed simp
  with new_market_inv [OF assms(1)] show ?thesis by (simp add: run_market_def)
qed

lemma find_map_of: "find (\<lambda>(a, b). P a) xs = Some (a, b) \<Longrightarrow> P a \<and> map_of xs a = Some b"
  by (induction xs) (auto split: if_splits prod.splits)

lemma market_view:
  assumes "market_inv T mk"
  shows "book_view (mk_books mk k) v = exchange_book T mk k v"
proof -
  let ?ses = "(mk_sessions mk v)\<lparr>books := mk_books mk\<rparr>"
  let ?P = "\<lambda>(symbol, sync :: symbol_sync). registry (mk_sessions mk v) symbol = Some k"
  have v: "ses_venue (mk_sessions mk v) = v" and si: "symbol_book_target.session_inv (T v) ?ses"
    using assms by (simp_all add: market_inv_def)
  show ?thesis
  proof (cases "find ?P (symbol_syncs (mk_sessions mk v))")
    case None
    then have "Some k \<notin> registry (mk_sessions mk v) ` dom (map_of (symbol_syncs (mk_sessions mk v)))"
      by (auto simp: find_None_iff dest!: map_of_SomeD)
    with si v None show ?thesis by (simp add: symbol_book_target.session_inv_def exchange_book_def)
  next
    case (Some x)
    obtain symbol sync where x: "x = (symbol, sync)" by force
    from Some x have reg: "registry (mk_sessions mk v) symbol = Some k" by (auto simp: find_Some_iff)
    have "map_of (symbol_syncs (mk_sessions mk v)) symbol = Some sync"
      using find_map_of [of "\<lambda>a. registry (mk_sessions mk v) a = Some k" "symbol_syncs (mk_sessions mk v)" symbol sync]
        Some x by simp
    with symbol_book_target.session_inv_sync [OF si, of symbol sync k] v reg x Some show ?thesis
      by (auto simp: exchange_book_def sync_inv_def split: sync_state.splits)
  qed
qed

lemma bid_size_view: "level_at (bids (venue_book b v)) p = bid_size (venue_view b v) p"
  by (simp add: level_at_def venue_book_def bid_size_def venue_view_def size_at_def empty_book_def split: option.split)

lemma ask_size_view: "level_at (asks (venue_book b v)) p = ask_size (venue_view b v) p"
  by (simp add: level_at_def venue_book_def ask_size_def venue_view_def size_at_def empty_book_def split: option.split)

section \<open>Properties\<close>

text \<open>
  C1. The server shows exactly the live venues' own books, summed. For the whole ingestion side:
  six venue sessions over shared books, driven by any interleaving of connects, drops, forced
  reconnects, stops, depth events, pushed snapshots and finished or failed snapshot fetches, with
  any loss, repetition or reordering, as long as the messages are faithful and their levels valid, with
  sizes up to a sixth of the range. Then after every sequence of whole session steps, and for every
  book: each venue contributes the exchange's own book at the last applied id if its symbol is live
  and nothing otherwise, and the aggregate's size at every price of each side is the sum of those
  contributions.
\<close>

theorem market_is_sum_of_exchange_books:
  assumes "wired syms reg" "list_all (\<lambda>(clock, v, ev). good_event v (T v) ev) evs"
  shows "let mk = run_market syms reg evs in \<forall>k.
    (\<forall>v. venue_view (sb_book (mk_books mk k)) v = exchange_book T mk k v)
    \<and> (\<forall>p. level_at (bids (aggregate (sb_book (mk_books mk k)))) p
          = (\<Sum>v\<in>UNIV. bid_size (exchange_book T mk k v) p))
    \<and> (\<forall>p. level_at (asks (aggregate (sb_book (mk_books mk k)))) p
          = (\<Sum>v\<in>UNIV. ask_size (exchange_book T mk k v) p))"
proof -
  let ?mk = "run_market syms reg evs"
  have inv: "market_inv T ?mk" by (rule run_market_inv [OF assms])
  then have "symbol_book_target.session_inv (T (VenueId Okx Spot))
      ((mk_sessions ?mk (VenueId Okx Spot))\<lparr>books := mk_books ?mk\<rparr>)"
    by (simp add: market_inv_def)
  then have sb: "sb_inv (mk_books ?mk k)" for k
    by (simp add: symbol_book_target.session_inv_def)
  then have "agg_inv (sb_book (mk_books ?mk k))" for k by (simp add: sb_inv_def)
  then have
    "level_at (bids (aggregate (sb_book (mk_books ?mk k)))) p
       = (\<Sum>v\<in>UNIV. bid_size (book_view (mk_books ?mk k) v) p)"
    "level_at (asks (aggregate (sb_book (mk_books ?mk k)))) p
       = (\<Sum>v\<in>UNIV. ask_size (book_view (mk_books ?mk k) v) p)" for k p
    by (simp_all add: agg_inv_def side_ok_def bid_size_view ask_size_view)
  with market_view [OF inv] show ?thesis by (simp add: Let_def)
qed

definition sample_syms :: "venue_id \<Rightarrow> native_symbol list" where
  "sample_syms v = (if v = VenueId Binance Spot then [''BTCUSDT''] else [])"

definition sample_reg :: "venue_id \<Rightarrow> symbol_registry" where
  "sample_reg v = (if v = VenueId Binance Spot then [''BTCUSDT'' \<mapsto> 0] else Map.empty)"

definition sample_market_events :: "((u64 \<times> u64) \<times> venue_id \<times> session_event) list" where
  "sample_market_events =
     [((1, 1), VenueId Binance Spot, SConnected), ((2, 2), VenueId Binance Spot, SDepth sample_event),
      ((3, 3), VenueId Binance Spot, SFetched ''BTCUSDT'' (Some sample_snapshot))]"

lemma sample_market_good:
  "wired sample_syms sample_reg"
  "list_all (\<lambda>(clock, v, ev). good_event v ((\<lambda>v symbol. sample_truth) v) ev) sample_market_events"
proof -
  show "wired sample_syms sample_reg" by (simp add: wired_def sample_syms_def sample_reg_def)
  have "update_in_range sample_event" "levels_in_range (sm_bids sample_snapshot)" "levels_in_range (sm_asks sample_snapshot)"
    using sample_levels_in_range
    by (simp_all add: update_in_range_def sample_event_def sample_snapshot_def)
  with sample_faithful
  show "list_all (\<lambda>(clock, v, ev). good_event v ((\<lambda>v symbol. sample_truth) v) ev) sample_market_events"
    by (simp add: sample_market_events_def faithful_def)
qed

theorem market_is_sum_of_exchange_books_witness:
  "let mk = run_market sample_syms sample_reg sample_market_events in
   venue_view (sb_book (mk_books mk 0)) (VenueId Binance Spot)
     = exchange_book (\<lambda>v symbol. sample_truth) mk 0 (VenueId Binance Spot)
   \<and> level_at (bids (aggregate (sb_book (mk_books mk 0)))) 100
     = (\<Sum>v\<in>UNIV. bid_size (exchange_book (\<lambda>v symbol. sample_truth) mk 0 v) 100)"
  using market_is_sum_of_exchange_books [OF sample_market_good] by (simp add: Let_def)

text \<open>
  Stopping withdraws a session for good. After \<^verbatim>\<open>stop()\<close> and the drop it causes, none of
  the session's books holds anything of its venue, whatever the session had done before; and
  snapshot responses that arrive later, however many and whatever they carry, do not bring it back.
\<close>

lemma stop_withdraws_for_good:
  assumes "wired syms reg" "list_all (\<lambda>(clock, v, ev). good_event v (T v) ev) evs"
    "list_all (\<lambda>ev. \<exists>symbol response. ev = SFetched symbol response) late"
  shows "let mk = run_market syms reg evs; ses = (mk_sessions mk v)\<lparr>books := mk_books mk\<rparr>;
        final = foldl (session_step (symbol_book_ops clock)) ses ([SStop, SDropped] @ late)
    in venue_view (sb_book (books final k)) v = None"
proof -
  let ?mk = "run_market syms reg evs"
  let ?ses = "((mk_sessions ?mk v)\<lparr>books := mk_books ?mk\<rparr>)\<lparr>stopping := True\<rparr>"
  let ?down = "invalidate_all (symbol_book_ops clock) ?ses"
  have "market_inv T ?mk" by (rule run_market_inv [OF assms(1,2)])
  then have "symbol_book_target.session_inv (T v) ((mk_sessions ?mk v)\<lparr>books := mk_books ?mk\<rparr>)"
    and v: "ses_venue ?ses = v"
    by (simp_all add: market_inv_def)
  from symbol_book_target.session_stop_ok [OF this(1)]
  have si: "symbol_book_target.session_inv (T v) ?ses" by simp
  have "stopping ?down"
    using symbol_book_target.invalidate_all_ok [OF si, of clock] by (simp add: symbol_book_target.same_shape_def)
  from symbol_book_target.late_fetches_change_nothing [OF this assms(3)]
    symbol_book_target.invalidate_all_withdraws [OF si, of clock k] v
  show ?thesis by (simp add: Let_def)
qed

lemma foldl_apply_delta: "foldl apply_action (Some b) (map delta_of es) \<noteq> None"
  by (induction es arbitrary: b) (auto simp: delta_of_def)

text \<open>The actions of a snapshot the book rejects, carried out one by one.\<close>

lemma execute_rejected_snapshot:
  assumes inv: "\<forall>k. agg_inv (books ses k)" and k: "registry ses symbol = Some k"
    and sync: "map_of (symbol_syncs ses) symbol = Some sync"
    and rng: "list_all update_in_range es" and bad: "\<not> (all_valid bs \<and> all_valid as)"
  obtains b' fs where
    "execute_actions aggregate_ops symbol (ApplySnapshot bs as # map delta_of es) ses
      = (True, (set_sync symbol (reset sync) ses)\<lparr>books := (books ses)(k := b'), snapshot_fetches := fs\<rparr>)"
    "agg_inv b'" "venue_view b' = (venue_view (books ses k))(ses_venue ses := foldl apply_action None (map delta_of es))"
proof -
  let ?s1 = "set_sync symbol (reset sync) ses"
  have visit: "visit_action aggregate_ops symbol (ApplySnapshot bs as) ses = (True, ses)"
    using k apply_snapshot_error [OF bad] by (simp add: visit_action_def aggregate_ops_def)
  have "\<forall>k. agg_inv (books ?s1 k)" "registry ?s1 symbol = Some k" "list_all action_in_range [InvalidateVenue]"
    using inv k by simp_all
  from aggregate_target.execute_actions_ok [OF this]
  obtain b1 f1 where 1: "execute_actions aggregate_ops symbol [InvalidateVenue] ?s1
      = (True, ?s1\<lparr>books := (books ses)(k := b1), snapshot_fetches := f1\<rparr>)"
    "agg_inv b1" "venue_view b1 = (venue_view (books ses k))(ses_venue ses := None)" by auto
  let ?s2 = "?s1\<lparr>books := (books ses)(k := b1), snapshot_fetches := f1\<rparr>"
  have "\<forall>k. agg_inv (books ?s2 k)" "registry ?s2 symbol = Some k" "list_all action_in_range (map delta_of es)"
    using inv k rng 1(2) by (simp_all add: list_all_iff delta_in_range)
  from aggregate_target.execute_actions_ok [OF this] 1(3)
  obtain b2 f2 where 2: "snd (execute_actions aggregate_ops symbol (map delta_of es) ?s2)
      = ?s1\<lparr>books := (books ses)(k := b2), snapshot_fetches := f2\<rparr>"
    "agg_inv b2" "venue_view b2 = (venue_view (books ses k))(ses_venue ses := foldl apply_action None (map delta_of es))"
    by auto
  have first: "execute_action aggregate_ops symbol (ApplySnapshot bs as) ses = (True, ?s2)"
    using 1(1) sync visit by (simp add: on_disconnected_def del: execute_actions.simps)
  have "execute_actions aggregate_ops symbol (ApplySnapshot bs as # map delta_of es) ses
      = (True, ?s1\<lparr>books := (books ses)(k := b2), snapshot_fetches := f2\<rparr>)"
    using first 2(1) by (simp add: split_beta del: execute_action.simps)
  from that [OF this 2(2,3)] show thesis .
qed


definition bad_snapshot :: snapshot_message where
  "bad_snapshot = sample_snapshot\<lparr>sm_bids := [(100, 6), (- 1, 2)]\<rparr>"

definition waiting_session :: "aggregate_order_book session" where
  "waiting_session = (new_session (VenueId Binance Spot) BinanceSpotSequencePolicy True [''BTCUSDT'']
     [''BTCUSDT'' \<mapsto> 0] (\<lambda>k. empty_aggregate))
     \<lparr>symbol_syncs := [(''BTCUSDT'', sample_buffered)], snapshot_fetches := [''BTCUSDT'']\<rparr>"


text \<open>
  C38. A snapshot that reaches a live REST venue is asked for again without end. When a second fetch
  is still in flight as the symbol goes live (a drop and reconnect during a fetch is enough), its
  response changes nothing but spawns another fetch of the same symbol at once, and so on with
  every further response.
\<close>

theorem live_rest_snapshot_is_refetched:
  assumes "\<not> kTrustsConnectionOrder (ses_policy ses)" "ses_via_rest ses" "\<not> stopping ses"
    "distinct (map fst (symbol_syncs ses))" "map_of (symbol_syncs ses) symbol = Some sync"
    "sync_state sync = Live" "sync_buffer sync = []"
  shows "session_step ops ses (SFetched symbol (Some m))
    = ses\<lparr>snapshot_fetches := remove1 symbol (snapshot_fetches ses) @ [symbol]\<rparr>"
proof -
  have os: "on_snapshot (ses_policy ses) m sync = (sync, [RequestSnapshot])"
    using assms(1,7) by (simp add: on_snapshot_def Let_def)
  have "(a, if a = symbol then sync else s) = (a, s)" if "(a, s) \<in> set (symbol_syncs ses)" for a s
    using map_of_is_SomeI [OF assms(4) that] assms(5) by auto
  then have syncs: "map (\<lambda>(a, s). (a, if a = symbol then sync else s)) (symbol_syncs ses) = symbol_syncs ses"
    by (intro map_idI) auto
  show ?thesis
    using assms os by (simp add: snapshot_fetched_def after_def Let_def set_sync_def syncs)
qed

definition twice_fetching :: "aggregate_order_book session" where
  "twice_fetching = (new_session (VenueId Binance Spot) BinanceSpotSequencePolicy True [''BTCUSDT'']
     [''BTCUSDT'' \<mapsto> 0] (\<lambda>k. empty_aggregate))
     \<lparr>symbol_syncs := [(''BTCUSDT'', sample_live)], snapshot_fetches := [''BTCUSDT'']\<rparr>"

theorem live_rest_snapshot_is_refetched_witness:
  "session_step aggregate_ops twice_fetching (SFetched ''BTCUSDT'' (Some sample_snapshot)) = twice_fetching"
proof -
  have "session_step aggregate_ops twice_fetching (SFetched ''BTCUSDT'' (Some sample_snapshot))
      = twice_fetching\<lparr>snapshot_fetches := remove1 ''BTCUSDT'' (snapshot_fetches twice_fetching) @ [''BTCUSDT'']\<rparr>"
    by (rule live_rest_snapshot_is_refetched [where sync = sample_live])
      (simp_all add: twice_fetching_def new_session_def policy_defs sample_live_def)
  then show ?thesis by (simp add: twice_fetching_def)
qed

end
