(* ===== verification/Session_Run.thy ===== *)
theory Session_Run
  imports Market
begin

text \<open>
  \<^verbatim>\<open>VenueSession::start\<close>, \<^verbatim>\<open>stop\<close> and \<^verbatim>\<open>run\<close>: the life of one session as a step relation
  over the points where its coroutine is suspended. What completes an operation (the network, a
  timer, a cancellation) is not modelled: every pending operation may end at any time, with success
  or not, so the theorems do not rest on how fast or whether a cancellation is delivered. Between the
  steps of a session anything may happen to the shared books except to the entry of its venue.
\<close>

section \<open>The code: backoff\<close>

definition kMinHealthyUptime :: int where
  "kMinHealthyUptime = 10000"

definition backoff_base_ms :: "int \<Rightarrow> int" where
  "backoff_base_ms attempt = min 30000 (500 * push_bit (nat (min attempt 6)) 1)"

text \<open>The delays the jitter can choose, in milliseconds.\<close>

definition backoff_delay :: "int \<Rightarrow> int \<Rightarrow> bool" where
  "backoff_delay attempt delay \<longleftrightarrow>
     (let base_ms = backoff_base_ms attempt
      in base_ms + 0 \<le> delay \<and> delay \<le> base_ms + base_ms sdiv 5)"

text \<open>The attempt counter after a connection ended; times in milliseconds.\<close>

definition next_attempt :: "int option \<Rightarrow> int \<Rightarrow> int \<Rightarrow> int" where
  "next_attempt connected_at now attempt =
     (case connected_at of
        Some t \<Rightarrow> (if now - t \<ge> kMinHealthyUptime then 0 else attempt)
      | None \<Rightarrow> attempt) + 1"

section \<open>The code: the life of a session\<close>

datatype run_phase = Idle | Spawned | Connecting | Reading | BackingOff | Draining | Finished

record run_state =
  rs_session :: "symbol_book session"
  rs_phase :: run_phase
  rs_attempt :: int
  rs_connected_at :: "int option"

text \<open>From the \<^verbatim>\<open>catch\<close> of the read loop to the next suspension point.\<close>

definition leave :: "u64 \<times> u64 \<Rightarrow> int \<Rightarrow> symbol_book session \<Rightarrow> run_state \<Rightarrow> run_state" where
  "leave clock now ses rs =
     (let ses' = invalidate_all (symbol_book_ops clock) ses
      in if stopping ses' then rs\<lparr>rs_session := ses', rs_phase := Draining\<rparr>
         else rs\<lparr>rs_session := ses', rs_phase := BackingOff,
                 rs_attempt := next_attempt (rs_connected_at rs) now (rs_attempt rs)\<rparr>)"

text \<open>A dispatched message: on with the loop, or out of it.\<close>

definition dispatched :: "u64 \<times> u64 \<Rightarrow> int \<Rightarrow> outcome \<times> symbol_book session \<Rightarrow> run_state \<Rightarrow> run_state" where
  "dispatched clock now r rs =
     (case fst r of Continue \<Rightarrow> rs\<lparr>rs_session := snd r\<rparr> | ForceReconnect \<Rightarrow> leave clock now (snd r) rs)"

text \<open>Another session, or a subscriber, used the shared books.\<close>

definition books_used :: "(nat \<Rightarrow> symbol_book) \<Rightarrow> symbol_book session \<Rightarrow> bool" where
  "books_used B ses \<longleftrightarrow>
     (\<forall>k. venues (sb_book (B k)) (ses_venue ses) = venues (sb_book (books ses k)) (ses_venue ses))"

inductive run_step :: "run_state \<Rightarrow> run_state \<Rightarrow> bool" where
  start: "rs_phase rs = Idle \<Longrightarrow>
    run_step rs (rs\<lparr>rs_phase := if stopping (rs_session rs) then Finished else Spawned\<rparr>)"
| spawned: "rs_phase rs = Spawned \<Longrightarrow>
    run_step rs (rs\<lparr>rs_phase := if stopping (rs_session rs) then Finished else Connecting,
                    rs_attempt := 0, rs_connected_at := None\<rparr>)"
| connect_failed: "rs_phase rs = Connecting \<Longrightarrow> run_step rs (leave clock now (rs_session rs) rs)"
| connected: "rs_phase rs = Connecting \<Longrightarrow>
    run_step rs (rs\<lparr>rs_session := connected (symbol_book_ops clock) (rs_session rs),
                    rs_phase := Reading, rs_connected_at := Some now\<rparr>)"
| depth_update: "rs_phase rs = Reading \<Longrightarrow>
    run_step rs (dispatched clock now (dispatch_depth_update (symbol_book_ops clock) m (rs_session rs)) rs)"
| snapshot: "rs_phase rs = Reading \<Longrightarrow>
    run_step rs (dispatched clock now (dispatch_snapshot (symbol_book_ops clock) s (rs_session rs)) rs)"
| read_failed: "rs_phase rs = Reading \<Longrightarrow> run_step rs (leave clock now (rs_session rs) rs)"
| backed_off: "rs_phase rs = BackingOff \<Longrightarrow>
    run_step rs (if stopping (rs_session rs) then rs\<lparr>rs_phase := Draining\<rparr>
                 else rs\<lparr>rs_phase := Connecting, rs_connected_at := None\<rparr>)"
| drained: "rs_phase rs = Draining \<Longrightarrow> snapshot_fetches (rs_session rs) = [] \<Longrightarrow>
    run_step rs (rs\<lparr>rs_phase := Finished\<rparr>)"
| fetched: "symbol \<in> set (snapshot_fetches (rs_session rs)) \<Longrightarrow>
    run_step rs (rs\<lparr>rs_session :=
      snd (snapshot_fetched (symbol_book_ops clock) symbol response (rs_session rs))\<rparr>)"
| stop: "run_step rs (rs\<lparr>rs_session := (rs_session rs)\<lparr>stopping := True\<rparr>\<rparr>)"
| shared: "books_used B (rs_session rs) \<Longrightarrow>
    run_step rs (rs\<lparr>rs_session := (rs_session rs)\<lparr>books := B\<rparr>\<rparr>)"

definition run_start :: "venue_id \<Rightarrow> native_symbol list \<Rightarrow> symbol_registry \<Rightarrow> run_state" where
  "run_start v syms reg =
     \<lparr>rs_session = new_session v (venue_policy v) (venue_via_rest v) syms reg (\<lambda>k. new_symbol_book),
      rs_phase = Idle, rs_attempt = 0, rs_connected_at = None\<rparr>"

inductive run_reaches :: "run_state \<Rightarrow> run_state \<Rightarrow> bool" for rs0 where
  init: "run_reaches rs0 rs0"
| step: "run_reaches rs0 rs \<Longrightarrow> run_step rs rs' \<Longrightarrow> run_reaches rs0 rs'"

section \<open>What the actions of one symbol leave alone\<close>

definition frame :: "native_symbol set \<Rightarrow> 'b session \<Rightarrow> 'b session \<Rightarrow> bool" where
  "frame S ses ses' \<longleftrightarrow>
     ses_venue ses' = ses_venue ses \<and> ses_policy ses' = ses_policy ses \<and> stopping ses' = stopping ses
     \<and> ses_via_rest ses' = ses_via_rest ses \<and> registry ses' = registry ses
     \<and> map fst (symbol_syncs ses') = map fst (symbol_syncs ses)
     \<and> (\<forall>k. Some k \<notin> registry ses ` S \<longrightarrow> books ses' k = books ses k)
     \<and> (stopping ses \<longrightarrow> set (snapshot_fetches ses') \<subseteq> set (snapshot_fetches ses)
          \<and> length (snapshot_fetches ses') \<le> length (snapshot_fetches ses))"

lemma frame_refl [simp]: "frame S ses ses"
  by (simp add: frame_def)

lemma frame_trans: "frame S a b \<Longrightarrow> frame S b c \<Longrightarrow> frame S a c"
  by (auto simp: frame_def)

lemma frame_mono:
  assumes "frame S a b" "S \<subseteq> S'"
  shows "frame S' a b"
proof -
  have "Some k \<notin> registry a ` S' \<Longrightarrow> Some k \<notin> registry a ` S" for k using assms(2) by blast
  with assms(1) show ?thesis by (simp add: frame_def)
qed

lemma frame_set_sync [simp]: "frame S ses (set_sync symbol sync ses)"
  by (simp add: frame_def) (simp add: set_sync_def comp_def case_prod_unfold)

lemma visit_action_frame: "frame {symbol} ses (snd (visit_action ops symbol a ses))"
  by (auto simp: visit_action_def frame_def split: option.split sync_action.split prod.split)

lemma execute_frame:
  "frame {symbol} ses (snd (execute_action ops symbol a ses))"
  "frame {symbol} ses (snd (execute_actions ops symbol acts ses))"
proof (induction ops symbol a ses and ops symbol acts ses rule: execute_action_execute_actions.induct, goal_cases)
  case (1 ops symbol ses)
  then show ?case by (simp add: frame_def)
next
  case (2 ops symbol ses)
  then show ?case using visit_action_frame by simp
next
  case (3 ops symbol bs as ses)
  obtain f ses1 where v: "visit_action ops symbol (ApplySnapshot bs as) ses = (f, ses1)" by force
  then have fr: "frame {symbol} ses ses1" using visit_action_frame [of symbol ses ops] by (metis snd_conv)
  from 3 [OF v [symmetric] refl] fr v show ?case
    by (auto split: option.split intro: frame_trans [OF frame_trans [OF _ frame_set_sync]])
next
  case (4 ops symbol bs as ses)
  obtain f ses1 where v: "visit_action ops symbol (ApplyDelta bs as) ses = (f, ses1)" by force
  then have fr: "frame {symbol} ses ses1" using visit_action_frame [of symbol ses ops] by (metis snd_conv)
  from 4 [OF v [symmetric] refl] fr v show ?case
    by (auto split: option.split intro: frame_trans [OF frame_trans [OF _ frame_set_sync]])
next
  case (5 ops symbol ses)
  then show ?case by simp
next
  case (6 ops symbol a acts ses)
  then show ?case by (auto split: prod.split intro: frame_trans)
qed

definition covered :: "'b session \<Rightarrow> native_symbol set" where
  "covered ses = fst ` set (symbol_syncs ses)"

lemma covered_frame: "frame S ses ses' \<Longrightarrow> covered ses' = covered ses"
  by (metis covered_def frame_def set_map)

lemma covered_map_of: "map_of (symbol_syncs ses) a = Some s \<Longrightarrow> a \<in> covered ses"
  by (metis covered_def domI dom_map_of_conv_image_fst)

lemma actions_frame:
  assumes "map_of (symbol_syncs ses) symbol = Some sync"
  shows "frame (covered ses) ses (snd (execute_actions ops symbol acts (set_sync symbol sync' ses)))"
proof -
  have "frame {symbol} ses (snd (execute_actions ops symbol acts (set_sync symbol sync' ses)))"
    by (rule frame_trans [OF frame_set_sync execute_frame(2)])
  then show ?thesis using covered_map_of [OF assms] by (auto intro: frame_mono)
qed

lemma resync_frame: "frame (covered ses) ses (resync_rest_venue_after_gap ops symbol ses)"
  by (auto simp: resync_rest_venue_after_gap_def intro: actions_frame split: option.split)

lemma force_frame:
  assumes "map_of (symbol_syncs ses) symbol = Some sync"
  shows "frame (covered ses) ses
    (snd (execute_actions_and_maybe_force_reconnect ops symbol acts (set_sync symbol sync' ses)))"
proof -
  obtain g ses1 where ex: "execute_actions ops symbol acts (set_sync symbol sync' ses) = (g, ses1)" by force
  with actions_frame [OF assms, of ops acts sync'] have "frame (covered ses) ses ses1" by simp
  with ex show ?thesis
    using frame_trans [of "covered ses" ses ses1] resync_frame [of ses1 ops symbol]
      covered_frame [of "covered ses" ses ses1]
    by (simp add: execute_actions_and_maybe_force_reconnect_def)
qed

lemma dispatch_frame:
  "frame (covered ses) ses (snd (dispatch_depth_update ops m ses))"
  "frame (covered ses) ses (snd (dispatch_snapshot ops s ses))"
  by (auto simp: dispatch_depth_update_def dispatch_snapshot_def force_frame
      split: option.split prod.split)

lemma fetched_stopping:
  "stopping ses \<Longrightarrow> snd (snapshot_fetched ops symbol response ses) =
    ses\<lparr>snapshot_fetches := remove1 symbol (snapshot_fetches ses)\<rparr>"
  by (simp add: snapshot_fetched_def Let_def)

lemma fetched_frame: "frame (covered ses) ses (snd (snapshot_fetched ops symbol response ses))"
proof (cases "stopping ses")
  case True
  then show ?thesis
    by (auto simp: fetched_stopping frame_def length_remove1 dest: notin_set_remove1 set_remove1_subset [THEN subsetD])
next
  case False
  define ses1 where "ses1 = ses\<lparr>snapshot_fetches := remove1 symbol (snapshot_fetches ses)\<rparr>"
  have f1: "frame (covered ses) ses ses1" "covered ses1 = covered ses"
    using False by (simp_all add: ses1_def frame_def covered_def)
  show ?thesis
  proof (cases "ses_via_rest ses1 \<and> response \<noteq> None \<and> map_of (symbol_syncs ses1) symbol \<noteq> None")
    case False
    then have "snd (snapshot_fetched ops symbol response ses) = ses1"
      by (auto simp: snapshot_fetched_def ses1_def [symmetric] Let_def split: option.splits)
    with f1 show ?thesis by simp
  next
    case True
    then obtain m sync where r: "response = Some m" and sync: "map_of (symbol_syncs ses1) symbol = Some sync"
      by blast
    obtain sync' acts where os: "on_snapshot (ses_policy ses1) m sync = (sync', acts)" by force
    have "\<not> stopping ses1" using False by (simp add: ses1_def)
    then have "snd (snapshot_fetched ops symbol response ses)
        = snd (execute_actions_and_maybe_force_reconnect ops symbol acts (set_sync symbol sync' ses1))"
      using True r sync os
      by (simp add: snapshot_fetched_def ses1_def [symmetric] Let_def
          execute_actions_and_maybe_force_reconnect_def split: prod.split)
    with frame_trans [OF f1(1)] force_frame [OF sync, of ops acts sync'] f1(2) show ?thesis by simp
  qed
qed

lemma each_symbol_frame: "frame (covered ses) ses (each_symbol ops f symbols ses)"
proof (induction symbols arbitrary: ses)
  case (Cons symbol symbols)
  show ?case
  proof (cases "map_of (symbol_syncs ses) symbol")
    case None
    with Cons show ?thesis by simp
  next
    case (Some sync)
    let ?ses1 = "snd (execute_actions ops symbol (snd (f sync)) (set_sync symbol (fst (f sync)) ses))"
    have "frame (covered ses) ses ?ses1" by (rule actions_frame [OF Some])
    with Cons.IH [of ?ses1] Some show ?thesis using frame_trans covered_frame by fastforce
  qed
qed simp

lemma connected_frame: "frame (covered ses) ses (connected ops ses)"
  unfolding connected_def by (rule each_symbol_frame)

lemma invalidate_all_frame: "frame (covered ses) ses (invalidate_all ops ses)"
  unfolding invalidate_all_def by (rule each_symbol_frame)

section \<open>Leaving withdraws the venue\<close>

definition absent :: "symbol_book session \<Rightarrow> nat \<Rightarrow> bool" where
  "absent ses k \<longleftrightarrow> venues (sb_book (books ses k)) (ses_venue ses) = None"

lemma publish_book [simp]: "sb_book (publish clock changed sb) = sb_book sb"
  by (simp add: publish_def Let_def)

lemma invalidated_absent [simp]:
  "venues (sb_book (op_invalidate_venue (symbol_book_ops clock) v sb)) v = None"
  by (auto simp: symbol_book_ops_def sb_invalidate_venue_def invalidate_venue_def Let_def
      split: option.splits prod.splits)

lemma each_disconnected_absent:
  assumes "absent ses k \<or> (\<exists>a \<in> set symbols \<inter> covered ses. registry ses a = Some k)"
  shows "absent (each_symbol (symbol_book_ops clock) on_disconnected symbols ses) k"
  using assms
proof (induction symbols arbitrary: ses)
  case (Cons symbol symbols)
  show ?case
  proof (cases "map_of (symbol_syncs ses) symbol")
    case None
    then have "symbol \<notin> covered ses" by (simp add: covered_def map_of_eq_None_iff)
    with Cons None show ?thesis by auto
  next
    case (Some sync)
    let ?ses1 = "snd (execute_actions (symbol_book_ops clock) symbol [InvalidateVenue] (set_sync symbol (reset sync) ses))"
    have fr: "frame (covered ses) ses ?ses1" by (rule actions_frame [OF Some])
    then have same: "registry ?ses1 = registry ses" "covered ?ses1 = covered ses"
      using covered_frame by (auto simp: frame_def)
    have hit: "absent ?ses1 k" if "absent ses k \<or> registry ses symbol = Some k"
      using that by (auto simp: absent_def visit_action_def split: option.split)
    have "absent ?ses1 k \<or> (\<exists>a \<in> set symbols \<inter> covered ?ses1. registry ?ses1 a = Some k)"
      using Cons.prems hit same by auto
    with Cons.IH [of ?ses1] Some show ?thesis by (simp add: on_disconnected_def)
  qed
qed simp

lemma invalidate_all_absent:
  assumes "\<forall>k. Some k \<notin> registry ses ` covered ses \<longrightarrow> absent ses k"
  shows "absent (invalidate_all (symbol_book_ops clock) ses) k"
proof -
  have "absent ses k \<or> (\<exists>a \<in> covered ses. registry ses a = Some k)"
    using assms by (metis image_eqI image_iff)
  then show ?thesis
    unfolding invalidate_all_def by (intro each_disconnected_absent) (auto simp: covered_def)
qed

text \<open>
  A machine without buffered events cannot take a REST snapshot: a fetch that ends between two
  connections only asks again.
\<close>

definition unbuffered :: "'b session \<Rightarrow> bool" where
  "unbuffered ses \<longleftrightarrow> (\<forall>(a, sync) \<in> set (symbol_syncs ses). sync_buffer sync = [])"

lemma each_disconnected_unbuffered:
  assumes "\<forall>(a, sync) \<in> set (symbol_syncs ses). a \<in> set symbols \<or> sync_buffer sync = []"
  shows "unbuffered (each_symbol ops on_disconnected symbols ses)"
  using assms
proof (induction symbols arbitrary: ses)
  case Nil
  then show ?case by (auto simp: unbuffered_def)
next
  case (Cons symbol symbols)
  show ?case
  proof (cases "map_of (symbol_syncs ses) symbol")
    case None
    then have "symbol \<notin> fst ` set (symbol_syncs ses)" by (simp add: map_of_eq_None_iff)
    then have "\<forall>(a, sync) \<in> set (symbol_syncs ses). a \<in> set symbols \<or> sync_buffer sync = []"
      using Cons.prems by (force simp: image_iff)
    with Cons.IH None show ?thesis by simp
  next
    case (Some sync)
    let ?ses1 = "snd (execute_actions ops symbol [InvalidateVenue] (set_sync symbol (reset sync) ses))"
    have syncs: "symbol_syncs ?ses1 = symbol_syncs (set_sync symbol (reset sync) ses)"
      by (simp add: visit_action_def split: option.split)
    have "\<forall>(a, sync) \<in> set (symbol_syncs ?ses1). a \<in> set symbols \<or> sync_buffer sync = []"
      unfolding syncs using Cons.prems by (auto simp: set_sync_def reset_def split: if_splits)
    with Cons.IH [of ?ses1] Some show ?thesis by (simp add: on_disconnected_def)
  qed
qed

lemma invalidate_all_unbuffered: "unbuffered (invalidate_all ops ses)"
  unfolding invalidate_all_def
  by (intro each_disconnected_unbuffered ballI) (force simp: image_iff case_prod_unfold)

lemma rest_venues_untrusted: "venue_via_rest v \<Longrightarrow> \<not> kTrustsConnectionOrder (venue_policy v)"
  by (cases v rule: venue_policy.cases)
    (simp_all add: BinanceSpotSequencePolicy_def BinanceFuturesSequencePolicy_def)

lemma fetched_unbuffered:
  assumes "unbuffered ses" "ses_policy ses = venue_policy (ses_venue ses)"
    "ses_via_rest ses = venue_via_rest (ses_venue ses)"
  shows "unbuffered (snd (snapshot_fetched ops symbol response ses))
    \<and> books (snd (snapshot_fetched ops symbol response ses)) = books ses"
proof (cases "ses_via_rest ses \<and> \<not> stopping ses")
  case False
  with assms show ?thesis by (auto simp: snapshot_fetched_def Let_def unbuffered_def)
next
  case True
  have empty: "sync_buffer sync = []" if "map_of (symbol_syncs ses) symbol = Some sync" for sync
    using assms(1) map_of_SomeD [OF that] by (auto simp: unbuffered_def)
  have "\<not> kTrustsConnectionOrder (ses_policy ses)"
    using assms True rest_venues_untrusted by simp
  then have "on_snapshot (ses_policy ses) m sync = (sync, [RequestSnapshot])" if "sync_buffer sync = []" for m sync
    using that by (cases sync) (simp add: on_snapshot_def)
  with True empty assms(1) show ?thesis
    by (auto simp: snapshot_fetched_def Let_def unbuffered_def set_sync_def split: option.split)
qed

section \<open>The invariant of a run\<close>

definition run_inv :: "run_state \<Rightarrow> bool" where
  "run_inv rs \<longleftrightarrow>
     ses_policy (rs_session rs) = venue_policy (ses_venue (rs_session rs))
     \<and> ses_via_rest (rs_session rs) = venue_via_rest (ses_venue (rs_session rs))
     \<and> (rs_phase rs = BackingOff \<longrightarrow> unbuffered (rs_session rs) \<and> (\<forall>k. absent (rs_session rs) k))
     \<and> (\<forall>k. Some k \<notin> registry (rs_session rs) ` covered (rs_session rs) \<longrightarrow> absent (rs_session rs) k)
     \<and> (rs_phase rs \<in> {Idle, Spawned} \<longrightarrow>
          snapshot_fetches (rs_session rs) = [] \<and> (\<forall>k. absent (rs_session rs) k))
     \<and> (rs_phase rs \<in> {Draining, Finished} \<longrightarrow>
          stopping (rs_session rs) \<and> (\<forall>k. absent (rs_session rs) k))
     \<and> (rs_phase rs = Finished \<longrightarrow> snapshot_fetches (rs_session rs) = [])
     \<and> 0 \<le> rs_attempt rs \<and> (rs_phase rs = BackingOff \<longrightarrow> 1 \<le> rs_attempt rs)"

text \<open>A session that only its own symbols' books distinguish from another.\<close>

lemma frame_absent:
  assumes "frame (covered ses) ses ses'"
    "\<forall>k. Some k \<notin> registry ses ` covered ses \<longrightarrow> absent ses k"
  shows "\<forall>k. Some k \<notin> registry ses' ` covered ses' \<longrightarrow> absent ses' k"
  using assms covered_frame [OF assms(1)] by (auto simp: frame_def absent_def)

lemma next_attempt_pos: "0 \<le> attempt \<Longrightarrow> 1 \<le> next_attempt c now attempt"
  by (simp add: next_attempt_def split: option.split)

lemma leave_inv:
  assumes "run_inv rs" "frame (covered (rs_session rs)) (rs_session rs) ses"
  shows "run_inv (leave clock now ses rs)"
proof -
  let ?ses' = "invalidate_all (symbol_book_ops clock) ses"
  have "\<forall>k. Some k \<notin> registry ses ` covered ses \<longrightarrow> absent ses k"
    using assms frame_absent by (simp add: run_inv_def)
  then have "\<forall>k. absent ?ses' k" by (simp add: invalidate_all_absent)
  moreover have "0 \<le> rs_attempt rs" using assms(1) by (simp add: run_inv_def)
  moreover have "frame (covered ses) ses ?ses'" by (rule invalidate_all_frame)
  ultimately show ?thesis
    using assms invalidate_all_unbuffered [of "symbol_book_ops clock" ses]
      next_attempt_pos [of "rs_attempt rs" "rs_connected_at rs" now]
    by (auto simp: leave_def run_inv_def Let_def frame_def)
qed

lemma session_replaced_inv:
  assumes "run_inv rs" "frame (covered (rs_session rs)) (rs_session rs) ses" "phase \<in> {Connecting, Reading}"
  shows "run_inv (rs\<lparr>rs_session := ses, rs_phase := phase, rs_connected_at := c\<rparr>)"
proof -
  have "ses_venue ses = ses_venue (rs_session rs)" "ses_policy ses = ses_policy (rs_session rs)"
    "ses_via_rest ses = ses_via_rest (rs_session rs)"
    using assms(2) by (simp_all add: frame_def)
  with assms(1,3) frame_absent [OF assms(2)] show ?thesis by (simp add: run_inv_def) blast
qed

lemma dispatched_inv:
  assumes "run_inv rs" "rs_phase rs = Reading" "frame (covered (rs_session rs)) (rs_session rs) (snd r)"
  shows "run_inv (dispatched clock now r rs)"
proof (cases "fst r")
  case Continue
  with assms frame_absent [OF assms(3)] show ?thesis
    by (simp add: dispatched_def run_inv_def) (simp add: frame_def)
next
  case ForceReconnect
  with leave_inv [OF assms(1,3)] show ?thesis by (simp add: dispatched_def)
qed

lemma fetched_inv:
  assumes "run_inv rs" "symbol \<in> set (snapshot_fetches (rs_session rs))"
  shows "run_inv (rs\<lparr>rs_session := snd (snapshot_fetched ops symbol response (rs_session rs))\<rparr>)"
proof (cases "stopping (rs_session rs)")
  case True
  with assms show ?thesis
    by (auto simp: run_inv_def fetched_stopping absent_def covered_def unbuffered_def)
next
  case False
  define ses where "ses = snd (snapshot_fetched ops symbol response (rs_session rs))"
  have fr: "frame (covered (rs_session rs)) (rs_session rs) ses" unfolding ses_def by (rule fetched_frame)
  then have parts: "ses_venue ses = ses_venue (rs_session rs)" "ses_policy ses = ses_policy (rs_session rs)"
    "ses_via_rest ses = ses_via_rest (rs_session rs)"
    by (simp_all add: frame_def)
  have "unbuffered ses \<and> (\<forall>k. absent ses k)" if "rs_phase rs = BackingOff"
    using fetched_unbuffered [of "rs_session rs" ops symbol response, folded ses_def] assms(1) that parts(1)
    by (simp add: run_inv_def absent_def)
  with False assms parts frame_absent [OF fr] show ?thesis
    unfolding ses_def [symmetric] by (auto simp: run_inv_def)
qed

lemma run_step_inv: "run_step rs rs' \<Longrightarrow> run_inv rs \<Longrightarrow> run_inv rs'"
proof (induction rule: run_step.induct)
  case (connected rs now clock)
  then show ?case
    using session_replaced_inv [OF connected(2) connected_frame] by simp
next
  case (fetched symbol rs clock response)
  then show ?case by (simp add: fetched_inv)
next
  case (shared B rs)
  then show ?case by (auto simp: run_inv_def books_used_def absent_def covered_def unbuffered_def)
next
  case (connect_failed rs clock now)
  then show ?case by (simp add: leave_inv)
next
  case (read_failed rs clock now)
  then show ?case by (simp add: leave_inv)
next
  case (depth_update rs clock now m)
  then show ?case by (simp add: dispatched_inv dispatch_frame)
next
  case (snapshot rs clock now s)
  then show ?case by (simp add: dispatched_inv dispatch_frame)
qed (auto simp: run_inv_def absent_def covered_def unbuffered_def)

lemma run_start_inv: "run_inv (run_start v syms reg)"
  by (simp add: run_inv_def run_start_def new_session_def absent_def new_symbol_book_def
      empty_aggregate_def)

lemma run_reaches_inv: "run_reaches rs0 rs \<Longrightarrow> run_inv rs0 \<Longrightarrow> run_inv rs"
  by (induction rule: run_reaches.induct) (auto intro: run_step_inv)

text \<open>The venue and what it covers never change.\<close>

lemma leave_venue: "ses_venue (rs_session (leave clock now ses rs)) = ses_venue ses"
  using invalidate_all_frame [of ses "symbol_book_ops clock"] by (simp add: leave_def Let_def frame_def)

lemma run_step_venue: "run_step rs rs' \<Longrightarrow> ses_venue (rs_session rs') = ses_venue (rs_session rs)"
proof (induction rule: run_step.induct)
  case (connected rs now clock)
  then show ?case
    using connected_frame [of "rs_session rs" "symbol_book_ops clock"] by (simp add: frame_def)
next
  case (depth_update rs clock now m)
  then show ?case
    using dispatch_frame(1) [of "rs_session rs" "symbol_book_ops clock" m]
    by (auto simp: dispatched_def leave_venue frame_def split: outcome.split)
next
  case (snapshot rs clock now s)
  then show ?case
    using dispatch_frame(2) [of "rs_session rs" "symbol_book_ops clock" s]
    by (auto simp: dispatched_def leave_venue frame_def split: outcome.split)
next
  case (fetched symbol rs clock response)
  then show ?case
    using fetched_frame [of "rs_session rs" "symbol_book_ops clock" symbol response] by (simp add: frame_def)
qed (auto simp: leave_venue)

lemma run_reaches_venue: "run_reaches rs0 rs \<Longrightarrow> ses_venue (rs_session rs) = ses_venue (rs_session rs0)"
  by (induction rule: run_reaches.induct) (auto dest: run_step_venue)

section \<open>Stopping ends a run\<close>

fun phase_rank :: "run_phase \<Rightarrow> nat" where
  "phase_rank Finished = 0"
| "phase_rank Connecting = 3"
| "phase_rank Reading = 2"
| "phase_rank BackingOff = 2"
| "phase_rank _ = 1"

text \<open>What has to complete before a stopping run has finished.\<close>

definition pending :: "run_state \<Rightarrow> nat" where
  "pending rs = phase_rank (rs_phase rs) + length (snapshot_fetches (rs_session rs))"

lemma leave_stopping:
  assumes "stopping ses"
  shows "rs_phase (leave clock now ses rs) = Draining \<and> stopping (rs_session (leave clock now ses rs))
    \<and> length (snapshot_fetches (rs_session (leave clock now ses rs))) \<le> length (snapshot_fetches ses)"
  using invalidate_all_frame [of ses "symbol_book_ops clock"] assms
  by (simp add: leave_def Let_def frame_def)

lemma dispatched_stopping:
  assumes "frame (covered (rs_session rs)) (rs_session rs) (snd r)" "stopping (rs_session rs)" "rs_phase rs = Reading"
  shows "stopping (rs_session (dispatched clock now r rs)) \<and> pending (dispatched clock now r rs) \<le> pending rs"
proof -
  have "stopping (snd r)" "length (snapshot_fetches (snd r)) \<le> length (snapshot_fetches (rs_session rs))"
    using assms(1,2) by (simp_all add: frame_def)
  with leave_stopping [of "snd r" clock now rs] assms(2,3) show ?thesis
    by (cases "fst r") (auto simp: dispatched_def pending_def)
qed

lemma stopping_step:
  "run_step rs rs' \<Longrightarrow> stopping (rs_session rs) \<Longrightarrow> stopping (rs_session rs') \<and> pending rs' \<le> pending rs"
proof (induction rule: run_step.induct)
  case (connect_failed rs clock now)
  with leave_stopping [of "rs_session rs" clock now rs] show ?case by (simp add: pending_def)
next
  case (connected rs now clock)
  with connected_frame [of "rs_session rs" "symbol_book_ops clock"] show ?case
    by (simp add: pending_def frame_def le_SucI)
next
  case (read_failed rs clock now)
  with leave_stopping [of "rs_session rs" clock now rs] show ?case by (simp add: pending_def)
next
  case (depth_update rs clock now m)
  then show ?case by (simp add: dispatched_stopping dispatch_frame)
next
  case (snapshot rs clock now s)
  then show ?case by (simp add: dispatched_stopping dispatch_frame)
next
  case (fetched symbol rs clock response)
  then show ?case by (simp add: fetched_stopping pending_def length_remove1)
qed (auto simp: pending_def)

lemma stopping_progress:
  assumes "stopping (rs_session rs)" "rs_phase rs \<noteq> Finished"
  shows "\<exists>rs'. run_step rs rs' \<and> pending rs' < pending rs"
proof (cases "rs_phase rs")
  case Idle
  with assms run_step.start [OF Idle] show ?thesis by (fastforce simp: pending_def)
next
  case Spawned
  with assms run_step.spawned [OF Spawned] show ?thesis by (fastforce simp: pending_def)
next
  case Connecting
  let ?rs' = "leave (0, 0) 0 (rs_session rs) rs"
  have "run_step rs ?rs'" by (rule run_step.connect_failed [OF Connecting])
  moreover have "pending ?rs' < pending rs"
    using leave_stopping [OF assms(1), of "(0, 0)" 0 rs] Connecting by (simp add: pending_def)
  ultimately show ?thesis by blast
next
  case Reading
  let ?rs' = "leave (0, 0) 0 (rs_session rs) rs"
  have "run_step rs ?rs'" by (rule run_step.read_failed [OF Reading])
  moreover have "pending ?rs' < pending rs"
    using leave_stopping [OF assms(1), of "(0, 0)" 0 rs] Reading by (simp add: pending_def)
  ultimately show ?thesis by blast
next
  case BackingOff
  with assms run_step.backed_off [OF BackingOff] show ?thesis by (fastforce simp: pending_def)
next
  case Draining
  show ?thesis
  proof (cases "snapshot_fetches (rs_session rs)")
    case Nil
    with run_step.drained [OF Draining] Draining show ?thesis by (fastforce simp: pending_def)
  next
    case (Cons symbol rest)
    then have "run_step rs (rs\<lparr>rs_session :=
        snd (snapshot_fetched (symbol_book_ops (0, 0)) symbol None (rs_session rs))\<rparr>)"
      by (intro run_step.fetched) simp
    with Cons assms(1) show ?thesis by (fastforce simp: fetched_stopping pending_def)
  qed
qed (use assms in simp)

interpretation stopping_run: finishing run_step "\<lambda>rs. stopping (rs_session rs)" "\<lambda>rs. rs_phase rs = Finished" pending
  by unfold_locales (use stopping_progress stopping_step in blast)

text \<open>The end of \<^verbatim>\<open>run()\<close> is never left.\<close>

lemma run_step_past_loop:
  "run_step rs rs' \<Longrightarrow> rs_phase rs \<in> {Draining, Finished} \<Longrightarrow>
   rs_phase rs' \<in> {Draining, Finished} \<and> (rs_phase rs = Finished \<longrightarrow> rs_phase rs' = Finished)"
  by (induction rule: run_step.induct) auto

lemma run_reaches_past_loop:
  "run_reaches rs rs' \<Longrightarrow> rs_phase rs \<in> {Draining, Finished} \<Longrightarrow>
   rs_phase rs' \<in> {Draining, Finished} \<and> (rs_phase rs = Finished \<longrightarrow> rs_phase rs' = Finished)"
  by (induction rule: run_reaches.induct) (auto dest: run_step_past_loop)

lemma run_reaches_trans: "run_reaches rs rs' \<Longrightarrow> run_reaches rs0 rs \<Longrightarrow> run_reaches rs0 rs'"
  by (induction rule: run_reaches.induct) (auto intro: run_reaches.step)

lemma past_loop_withdrawn:
  assumes "run_reaches (run_start v syms reg) rs" "rs_phase rs \<in> {Draining, Finished}"
  shows "stopping (rs_session rs) \<and> (\<forall>k. venues (sb_book (books (rs_session rs) k)) v = None)
    \<and> (rs_phase rs = Finished \<longrightarrow> snapshot_fetches (rs_session rs) = [])"
proof -
  have "run_inv rs" by (rule run_reaches_inv [OF assms(1) run_start_inv])
  moreover have "ses_venue (rs_session rs) = v"
    using run_reaches_venue [OF assms(1)] by (simp add: run_start_def new_session_def)
  ultimately show ?thesis using assms(2) by (auto simp: run_inv_def absent_def)
qed

text \<open>
  C28. A session that is draining or has finished has left nothing behind, for good. Whatever it
  received and whenever its operations completed, when \<^verbatim>\<open>run()\<close> is past its loop the session was
  told to stop, and from there on, whatever steps follow (late snapshot responses and the work of the
  other sessions on the shared books included), it stays past its loop and no book ever shows anything
  of its venue again. When \<^verbatim>\<open>on_done\<close> has been called no snapshot fetch is in flight that could
  still touch the session, then or later.
\<close>

theorem finished_session_is_withdrawn:
  assumes "run_reaches (run_start v syms reg) rs" "rs_phase rs \<in> {Draining, Finished}"
  shows "stopping (rs_session rs)
    \<and> (\<forall>rs'. run_reaches rs rs' \<longrightarrow>
         rs_phase rs' \<in> {Draining, Finished} \<and> (rs_phase rs = Finished \<longrightarrow> rs_phase rs' = Finished)
         \<and> (\<forall>k. venues (sb_book (books (rs_session rs') k)) v = None)
         \<and> (rs_phase rs' = Finished \<longrightarrow> snapshot_fetches (rs_session rs') = []))"
  using past_loop_withdrawn [OF assms] run_reaches_past_loop [OF _ assms(2)]
    past_loop_withdrawn [OF run_reaches_trans [OF _ assms(1)]]
  by blast

text \<open>A run that connects, is stopped with a fetch in flight, and drains.\<close>

definition sample_run :: "nat \<Rightarrow> run_state" where
  "sample_run n = (let
      r0 = run_start (VenueId Binance Spot) [''BTCUSDT''] [''BTCUSDT'' \<mapsto> 0];
      r1 = r0\<lparr>rs_phase := Spawned\<rparr>;
      r2 = r1\<lparr>rs_phase := Connecting, rs_attempt := 0, rs_connected_at := None\<rparr>;
      r3 = r2\<lparr>rs_session := connected (symbol_book_ops (1, 1)) (rs_session r2), rs_phase := Reading,
              rs_connected_at := Some 100\<rparr>;
      r4 = r3\<lparr>rs_session := (rs_session r3)\<lparr>stopping := True\<rparr>\<rparr>;
      r5 = leave (2, 2) 200 (rs_session r4) r4;
      r6 = r5\<lparr>rs_session := snd (snapshot_fetched (symbol_book_ops (3, 3)) ''BTCUSDT'' None (rs_session r5))\<rparr>
    in [r0, r1, r2, r3, r4, r5, r6, r6\<lparr>rs_phase := Finished\<rparr>] ! n)"

lemmas sample_run_defs = sample_run_def run_start_def new_session_def connected_def on_connected_def
  initial_sync_def set_sync_def leave_def invalidate_all_def on_disconnected_def reset_def
  visit_action_def snapshot_fetched_def Let_def

lemma sample_run_phase: "rs_phase (sample_run 7) = Finished"
  by (simp add: sample_run_def Let_def)

lemma sample_run_stopped: "stopping (rs_session (sample_run 4))"
  by (simp add: sample_run_def Let_def)

lemma sample_run_fetches: "snapshot_fetches (rs_session (sample_run 4)) = [''BTCUSDT'']"
  by (simp add: sample_run_defs)

lemma sample_run_steps:
  "run_step (sample_run 0) (sample_run 1)" "run_step (sample_run 1) (sample_run 2)"
  "run_step (sample_run 2) (sample_run 3)" "run_step (sample_run 3) (sample_run 4)"
  "run_step (sample_run 4) (sample_run 5)" "run_step (sample_run 5) (sample_run 6)"
  "run_step (sample_run 6) (sample_run 7)"
proof -
  show "run_step (sample_run 0) (sample_run 1)"
    using run_step.start [of "sample_run 0"] by (simp add: sample_run_def Let_def run_start_def new_session_def)
  show "run_step (sample_run 1) (sample_run 2)"
    using run_step.spawned [of "sample_run 1"] by (simp add: sample_run_def Let_def run_start_def new_session_def)
  show "run_step (sample_run 2) (sample_run 3)"
    using run_step.connected [of "sample_run 2" 100 "(1, 1)"] by (simp add: sample_run_def Let_def)
  show "run_step (sample_run 3) (sample_run 4)"
    using run_step.stop [of "sample_run 3"] by (simp add: sample_run_def Let_def)
  show "run_step (sample_run 4) (sample_run 5)"
    using run_step.read_failed [of "sample_run 4" "(2, 2)" 200] by (simp add: sample_run_def Let_def)
  have "''BTCUSDT'' \<in> set (snapshot_fetches (rs_session (sample_run 5)))"
    by (simp add: sample_run_defs)
  then show "run_step (sample_run 5) (sample_run 6)"
    using run_step.fetched [of "''BTCUSDT''" "sample_run 5" "(3, 3)" None] by (simp add: sample_run_def Let_def)
  have "rs_phase (sample_run 6) = Draining" "snapshot_fetches (rs_session (sample_run 6)) = []"
    by (simp_all add: sample_run_defs)
  then show "run_step (sample_run 6) (sample_run 7)"
    using run_step.drained [of "sample_run 6"] by (simp add: sample_run_def Let_def)
qed

lemma sample_run_reaches:
  "run_reaches (run_start (VenueId Binance Spot) [''BTCUSDT''] [''BTCUSDT'' \<mapsto> 0]) (sample_run 4)"
  "run_reaches (run_start (VenueId Binance Spot) [''BTCUSDT''] [''BTCUSDT'' \<mapsto> 0]) (sample_run 7)"
proof -
  have start: "run_start (VenueId Binance Spot) [''BTCUSDT''] [''BTCUSDT'' \<mapsto> 0] = sample_run 0"
    by (simp add: sample_run_def Let_def)
  show four: "run_reaches (run_start (VenueId Binance Spot) [''BTCUSDT''] [''BTCUSDT'' \<mapsto> 0]) (sample_run 4)"
    unfolding start by (intro run_reaches.step [OF _ sample_run_steps(4)] run_reaches.step [OF _ sample_run_steps(3)]
        run_reaches.step [OF _ sample_run_steps(2)] run_reaches.step [OF _ sample_run_steps(1)] run_reaches.init)
  show "run_reaches (run_start (VenueId Binance Spot) [''BTCUSDT''] [''BTCUSDT'' \<mapsto> 0]) (sample_run 7)"
    by (intro run_reaches.step [OF _ sample_run_steps(7)] run_reaches.step [OF _ sample_run_steps(6)]
        run_reaches.step [OF _ sample_run_steps(5)] four)
qed

theorem finished_session_is_withdrawn_witness:
  "rs_phase (sample_run 7) = Finished \<and> stopping (rs_session (sample_run 7))
   \<and> venues (sb_book (books (rs_session (sample_run 7)) 0)) (VenueId Binance Spot) = None
   \<and> snapshot_fetches (rs_session (sample_run 7)) = []"
  using finished_session_is_withdrawn [OF sample_run_reaches(2)] sample_run_phase run_reaches.init by auto

text \<open>
  C29. A session that was told to stop finishes. From every reachable state in which the flag is
  set, each operation that completes brings the end nearer and none postpones it, and the completion
  of the pending operations alone, at most as many as the phase and the fetches in flight, leads to
  \<^verbatim>\<open>on_done\<close>.
\<close>

theorem stopped_session_finishes:
  assumes "run_reaches (run_start v syms reg) rs" "stopping (rs_session rs)"
  shows "(\<exists>n \<le> pending rs. \<exists>rs'. (run_step ^^ n) rs rs' \<and> rs_phase rs' = Finished)
    \<and> (\<forall>rs'. run_step rs rs' \<longrightarrow> stopping (rs_session rs') \<and> pending rs' \<le> pending rs)
    \<and> (rs_phase rs \<noteq> Finished \<longrightarrow> (\<exists>rs'. run_step rs rs' \<and> pending rs' < pending rs))"
  using stopping_run.finishes [OF assms(2)] stopping_step [OF _ assms(2)] stopping_progress [OF assms(2)]
  by blast

theorem stopped_session_finishes_witness:
  "stopping (rs_session (sample_run 4)) \<and> snapshot_fetches (rs_session (sample_run 4)) = [''BTCUSDT'']
   \<and> (\<exists>n \<le> pending (sample_run 4). \<exists>rs'. (run_step ^^ n) (sample_run 4) rs' \<and> rs_phase rs' = Finished)"
  using stopped_session_finishes [OF sample_run_reaches(1) sample_run_stopped] sample_run_stopped
    sample_run_fetches by blast

text \<open>
  Reconnects back off. Whenever a session waits to reconnect, the delay is between one second
  and thirty-six seconds; another connection that did not stay up for ten seconds never shortens
  it and doubles the base up to its cap of thirty seconds, one that did resets it; and no
  intermediate of the computation leaves the range of \<^verbatim>\<open>int\<close>.
\<close>

lemma reconnects_back_off:
  assumes "run_reaches (run_start v syms reg) rs" "rs_phase rs = BackingOff"
    "backoff_delay (rs_attempt rs) delay"
  shows "1000 \<le> delay \<and> delay \<le> 36000
    \<and> (\<forall>t now. now - t < kMinHealthyUptime \<longrightarrow>
         backoff_base_ms (next_attempt (Some t) now (rs_attempt rs)) = min 30000 (2 * backoff_base_ms (rs_attempt rs)))
    \<and> (\<forall>t now. now - t \<ge> kMinHealthyUptime \<longrightarrow>
         backoff_base_ms (next_attempt (Some t) now (rs_attempt rs)) = 1000)
    \<and> 500 * push_bit (nat (min (rs_attempt rs) 6)) 1 \<le> (32000 :: int)"
proof -
  define a where "a = rs_attempt rs"
  have "run_inv rs" by (rule run_reaches_inv [OF assms(1) run_start_inv])
  then have a: "1 \<le> a" using assms(2) by (simp add: run_inv_def a_def)
  have base: "1000 \<le> backoff_base_ms a \<and> backoff_base_ms a \<le> 30000
      \<and> backoff_base_ms (a + 1) = min 30000 (2 * backoff_base_ms a)
      \<and> 500 * push_bit (nat (min a 6)) 1 \<le> (32000 :: int)"
  proof -
    consider "a = 1" | "a = 2" | "a = 3" | "a = 4" | "a = 5" | "6 \<le> a" using a by linarith
    then show ?thesis by cases (simp_all add: backoff_base_ms_def push_bit_eq_mult min_def)
  qed
  then have "1000 \<le> delay \<and> delay \<le> 36000"
    using assms(3) by (auto simp: backoff_delay_def Let_def a_def [symmetric])
  moreover have "backoff_base_ms 1 = 1000" by (simp add: backoff_base_ms_def push_bit_eq_mult)
  ultimately show ?thesis
    using base unfolding a_def [symmetric] by (simp add: next_attempt_def)
qed

end
