(* ===== verification/Ingestion_Runner.thy ===== *)
theory Ingestion_Runner
  imports Session_Run
begin

text \<open>
  \<^verbatim>\<open>ingestion/ingestion_runner.hpp\<close>: the group of all sessions, started and stopped together,
  and the one-shot barrier that reports when the last of them has finished. A session's own steps
  are those of \<open>run_step\<close>; it can be told to stop only by \<^verbatim>\<open>stop_all\<close>, which sets the
  runner's own flag first.
\<close>

section \<open>The code\<close>

record runner =
  rn_sessions :: "run_state list"
  stop_requested :: bool
  rn_started :: bool
  rn_arrived :: nat
  rn_drained :: nat

text \<open>\<^verbatim>\<open>barrier->arrive()\<close>, with the barrier's completion function on the last arrival;
  \<open>rn_drained\<close> counts the calls of \<^verbatim>\<open>on_all_drained\<close>.\<close>

definition barrier_arrive :: "runner \<Rightarrow> runner" where
  "barrier_arrive r =
     (let arrived = rn_arrived r + 1
      in r\<lparr>rn_arrived := arrived,
           rn_drained := (if arrived = length (rn_sessions r) \<and> stop_requested r
                          then rn_drained r + 1 else rn_drained r)\<rparr>)"

definition start_all :: "runner \<Rightarrow> runner" where
  "start_all r =
     (if rn_sessions r = [] then r\<lparr>rn_started := True, rn_drained := rn_drained r + 1\<rparr>
      else r\<lparr>rn_started := True\<rparr>)"

definition stop_all :: "runner \<Rightarrow> runner" where
  "stop_all r = r\<lparr>stop_requested := True\<rparr>"

text \<open>Session \<open>i\<close> moved; when its \<^verbatim>\<open>run()\<close> has ended it arrives at the barrier.\<close>

definition session_moved :: "nat \<Rightarrow> run_state \<Rightarrow> runner \<Rightarrow> runner" where
  "session_moved i rs' r =
     (let r' = r\<lparr>rn_sessions := (rn_sessions r)[i := rs']\<rparr>
      in if rs_phase (rn_sessions r ! i) \<noteq> Finished \<and> rs_phase rs' = Finished
         then barrier_arrive r' else r')"

inductive runner_step :: "runner \<Rightarrow> runner \<Rightarrow> bool" where
  start: "\<not> rn_started r \<Longrightarrow> runner_step r (start_all r)"
| stop: "runner_step r (stop_all r)"
| session: "rn_started r \<Longrightarrow> i < length (rn_sessions r) \<Longrightarrow> run_step (rn_sessions r ! i) rs' \<Longrightarrow>
    stopping (rs_session rs') \<longrightarrow> stopping (rs_session (rn_sessions r ! i)) \<or> stop_requested r \<Longrightarrow>
    runner_step r (session_moved i rs' r)"

definition new_runner :: "(venue_id \<times> native_symbol list \<times> symbol_registry) list \<Rightarrow> runner" where
  "new_runner groups =
     \<lparr>rn_sessions = map (\<lambda>(v, syms, reg). run_start v syms reg) groups, stop_requested = False,
      rn_started = False, rn_arrived = 0, rn_drained = 0\<rparr>"

inductive runner_reaches :: "runner \<Rightarrow> runner \<Rightarrow> bool" for r0 where
  init: "runner_reaches r0 r0"
| step: "runner_reaches r0 r \<Longrightarrow> runner_step r r' \<Longrightarrow> runner_reaches r0 r'"

section \<open>The invariant\<close>

inductive_cases run_stepE: "run_step rs rs'"

lemma finished_stays: "run_step rs rs' \<Longrightarrow> rs_phase rs = Finished \<Longrightarrow> rs_phase rs' = Finished"
  by (erule run_stepE) auto

abbreviation finished :: "run_state list \<Rightarrow> nat" where
  "finished ss \<equiv> length (filter (\<lambda>rs. rs_phase rs = Finished) ss)"

definition runner_inv :: "(venue_id \<times> native_symbol list \<times> symbol_registry) list \<Rightarrow> runner \<Rightarrow> bool" where
  "runner_inv groups r \<longleftrightarrow>
     list_all2 (\<lambda>(v, syms, reg) rs. run_reaches (run_start v syms reg) rs) groups (rn_sessions r)
     \<and> (\<forall>rs \<in> set (rn_sessions r). stopping (rs_session rs) \<longrightarrow> stop_requested r)
     \<and> rn_arrived r = finished (rn_sessions r)
     \<and> (\<not> rn_started r \<longrightarrow> rn_arrived r = 0)
     \<and> rn_drained r = (if rn_started r \<and> rn_arrived r = length (rn_sessions r) then 1 else 0)"

lemma finished_update:
  assumes "i < length ss"
  shows "finished (ss[i := rs]) + (if rs_phase (ss ! i) = Finished then 1 else 0)
    = finished ss + (if rs_phase rs = Finished then 1 else 0)"
  using assms
proof (induction ss arbitrary: i)
  case (Cons s ss)
  show ?case
  proof (cases i)
    case 0
    then show ?thesis by simp
  next
    case (Suc j)
    with Cons.prems Cons.IH [of j] show ?thesis by simp
  qed
qed simp

lemma new_runner_inv: "runner_inv groups (new_runner groups)"
proof -
  have "finished (map (\<lambda>(v, syms, reg). run_start v syms reg) groups) = 0"
    by (auto simp: filter_empty_conv run_start_def)
  then show ?thesis
    by (auto simp: runner_inv_def new_runner_def list_all2_map2 run_start_def new_session_def
        intro!: list.rel_refl_strong run_reaches.init)
qed

lemma finished_is_stopping:
  assumes "run_reaches (run_start v syms reg) rs" "rs_phase rs = Finished"
  shows "stopping (rs_session rs)"
  using run_reaches_inv [OF assms(1) run_start_inv] assms(2) by (simp add: run_inv_def)

lemma session_moved_inv:
  assumes inv: "runner_inv groups r" and r: "rn_started r" "i < length (rn_sessions r)"
    and step: "run_step (rn_sessions r ! i) rs'"
    and stop: "stopping (rs_session rs') \<longrightarrow> stopping (rs_session (rn_sessions r ! i)) \<or> stop_requested r"
  shows "runner_inv groups (session_moved i rs' r)"
proof -
  obtain v syms reg where g: "groups ! i = (v, syms, reg)" by (cases "groups ! i")
  have all2: "list_all2 (\<lambda>(v, syms, reg) rs. run_reaches (run_start v syms reg) rs) groups (rn_sessions r)"
    and len: "length groups = length (rn_sessions r)"
    using inv by (auto simp: runner_inv_def dest: list_all2_lengthD)
  have "run_reaches (run_start v syms reg) (rn_sessions r ! i)"
    using list_all2_nthD2 [OF all2 r(2)] g by simp
  then have reach: "run_reaches (run_start v syms reg) rs'" using step by (rule run_reaches.step)
  have all2': "list_all2 (\<lambda>(v, syms, reg) rs. run_reaches (run_start v syms reg) rs) groups
      ((rn_sessions r)[i := rs'])"
  proof -
    have "(\<lambda>(v, syms, reg) rs. run_reaches (run_start v syms reg) rs) (groups ! i) rs'" using reach g by simp
    from list_all2_update_cong [OF all2 this, of i] show ?thesis by (simp only: list_update_id)
  qed
  have stop': "stopping (rs_session rs') \<Longrightarrow> stop_requested r"
    using stop inv r(2) by (auto simp: runner_inv_def)
  then have flag: "\<forall>rs \<in> set ((rn_sessions r)[i := rs']). stopping (rs_session rs) \<longrightarrow> stop_requested r"
    using inv set_update_subset_insert [of "rn_sessions r" i rs'] by (auto simp: runner_inv_def)
  note count = finished_update [OF r(2), of rs']
  have le: "finished ((rn_sessions r)[i := rs']) \<le> length (rn_sessions r)"
    using length_filter_le [of _ "(rn_sessions r)[i := rs']"] by simp
  show ?thesis
  proof (cases "rs_phase (rn_sessions r ! i) \<noteq> Finished \<and> rs_phase rs' = Finished")
    case True
    then have "stop_requested r" using stop' finished_is_stopping [OF reach] by simp
    moreover have "finished ((rn_sessions r)[i := rs']) = rn_arrived r + 1"
      using True count inv by (simp add: runner_inv_def)
    ultimately show ?thesis
      using True all2' flag inv r le
      by (auto simp: runner_inv_def session_moved_def barrier_arrive_def Let_def)
  next
    case False
    then have "finished ((rn_sessions r)[i := rs']) = rn_arrived r"
      using count inv finished_stays [OF step] by (auto simp: runner_inv_def split: if_splits)
    with False all2' flag inv r show ?thesis
      by (auto simp: runner_inv_def session_moved_def Let_def)
  qed
qed

lemma runner_step_inv: "runner_step r r' \<Longrightarrow> runner_inv groups r \<Longrightarrow> runner_inv groups r'"
proof (induction rule: runner_step.induct)
  case (start r)
  then show ?case by (auto simp: runner_inv_def start_all_def)
next
  case (stop r)
  then show ?case by (auto simp: runner_inv_def stop_all_def)
next
  case (session r i rs')
  then show ?case by (intro session_moved_inv) auto
qed

lemma runner_reaches_inv: "runner_reaches (new_runner groups) r \<Longrightarrow> runner_inv groups r"
  by (induction rule: runner_reaches.induct) (auto intro: new_runner_inv runner_step_inv)

lemma all_finished_count: "finished ss = length ss \<longleftrightarrow> (\<forall>rs \<in> set ss. rs_phase rs = Finished)"
  by (metis (mono_tags, lifting) filter_True filter_id_conv length_filter_less less_irrefl)

text \<open>
  C30. \<^verbatim>\<open>on_all_drained\<close> reports the end of everything, once. In every reachable state of a
  started group the callback has been called exactly once if every session has finished and not
  at all otherwise, so also not twice; when it has been called and there were sessions, stop was
  requested, and no venue is left in any of its session's books and no fetch in flight.
\<close>

theorem drained_is_reported_exactly_once:
  assumes "runner_reaches (new_runner groups) r" "rn_started r"
  shows "rn_drained r = (if \<forall>rs \<in> set (rn_sessions r). rs_phase rs = Finished then 1 else 0)
    \<and> (rn_drained r \<noteq> 0 \<and> rn_sessions r \<noteq> [] \<longrightarrow> stop_requested r)
    \<and> (rn_drained r \<noteq> 0 \<longrightarrow> (\<forall>rs \<in> set (rn_sessions r). snapshot_fetches (rs_session rs) = []
         \<and> (\<forall>k. venues (sb_book (books (rs_session rs) k)) (ses_venue (rs_session rs)) = None)))"
proof -
  have inv: "runner_inv groups r" by (rule runner_reaches_inv [OF assms(1)])
  then have drained: "rn_drained r = (if \<forall>rs \<in> set (rn_sessions r). rs_phase rs = Finished then 1 else 0)"
    using assms(2) all_finished_count [of "rn_sessions r"] by (simp add: runner_inv_def)
  have each: "run_inv rs" if "rs \<in> set (rn_sessions r)" for rs
  proof -
    obtain i where "i < length (rn_sessions r)" "rs = rn_sessions r ! i" using \<open>rs \<in> _\<close> in_set_conv_nth by metis
    then have "\<exists>v syms reg. run_reaches (run_start v syms reg) rs"
      using inv list_all2_nthD2 [of _ groups "rn_sessions r" i]
      by (fastforce simp: runner_inv_def split: prod.splits)
    then show ?thesis using run_reaches_inv run_start_inv by blast
  qed
  have "stop_requested r" if "rn_drained r \<noteq> 0" "rn_sessions r \<noteq> []"
  proof -
    obtain rs where rs: "rs \<in> set (rn_sessions r)" using \<open>rn_sessions r \<noteq> []\<close> by (cases "rn_sessions r") auto
    then have "rs_phase rs = Finished" using that drained by (auto split: if_splits)
    then show ?thesis using each [OF rs] inv rs by (auto simp: run_inv_def runner_inv_def)
  qed
  moreover have "snapshot_fetches (rs_session rs) = []
      \<and> (\<forall>k. venues (sb_book (books (rs_session rs) k)) (ses_venue (rs_session rs)) = None)"
    if "rn_drained r \<noteq> 0" "rs \<in> set (rn_sessions r)" for rs
    using each [OF that(2)] that drained by (auto simp: run_inv_def absent_def split: if_splits)
  ultimately show ?thesis using drained by blast
qed

text \<open>One venue, stopped before its connection opens.\<close>

definition sample_group :: "(venue_id \<times> native_symbol list \<times> symbol_registry) list" where
  "sample_group = [(VenueId Okx Spot, [], Map.empty)]"

definition sample_runner :: "nat \<Rightarrow> runner" where
  "sample_runner n = (let
      r0 = start_all (new_runner sample_group);
      r1 = stop_all r0;
      rs = rn_sessions r1 ! 0;
      rs1 = rs\<lparr>rs_session := (rs_session rs)\<lparr>stopping := True\<rparr>\<rparr>;
      r2 = session_moved 0 rs1 r1;
      r3 = session_moved 0 ((rn_sessions r2 ! 0)\<lparr>rs_phase := Finished\<rparr>) r2
    in [r0, r1, r2, r3] ! n)"

lemmas sample_runner_defs = sample_runner_def sample_group_def new_runner_def start_all_def stop_all_def
  session_moved_def barrier_arrive_def run_start_def new_session_def Let_def

lemma sample_runner_reached: "runner_reaches (new_runner sample_group) (sample_runner 3)"
proof -
  have "runner_step (new_runner sample_group) (sample_runner 0)"
    using runner_step.start [of "new_runner sample_group"] by (simp add: sample_runner_def Let_def new_runner_def)
  moreover have "runner_step (sample_runner 0) (sample_runner 1)"
    using runner_step.stop [of "sample_runner 0"] by (simp add: sample_runner_def Let_def)
  moreover have "runner_step (sample_runner 1) (sample_runner 2)"
  proof -
    let ?rs = "rn_sessions (sample_runner 1) ! 0"
    let ?rs' = "?rs\<lparr>rs_session := (rs_session ?rs)\<lparr>stopping := True\<rparr>\<rparr>"
    have "sample_runner 2 = session_moved 0 ?rs' (sample_runner 1)" by (simp add: sample_runner_def Let_def)
    moreover have "rn_started (sample_runner 1)" "0 < length (rn_sessions (sample_runner 1))"
      "stop_requested (sample_runner 1)" by (simp_all add: sample_runner_defs)
    ultimately show ?thesis
      using runner_step.session [of "sample_runner 1" 0 ?rs', OF _ _ run_step.stop] by simp
  qed
  moreover have "runner_step (sample_runner 2) (sample_runner 3)"
  proof -
    let ?rs = "rn_sessions (sample_runner 2) ! 0"
    have ph: "rs_phase ?rs = Idle" "stopping (rs_session ?rs)" by (simp_all add: sample_runner_defs)
    have st: "rn_started (sample_runner 2)" "0 < length (rn_sessions (sample_runner 2))"
      by (simp_all add: sample_runner_defs)
    have step: "run_step ?rs (?rs\<lparr>rs_phase := Finished\<rparr>)" using run_step.start [OF ph(1)] ph(2) by simp
    have "sample_runner 3 = session_moved 0 (?rs\<lparr>rs_phase := Finished\<rparr>) (sample_runner 2)"
      by (simp add: sample_runner_def Let_def)
    moreover have "runner_step (sample_runner 2) (session_moved 0 (?rs\<lparr>rs_phase := Finished\<rparr>) (sample_runner 2))"
      by (rule runner_step.session [OF st step]) (use ph(2) in blast)
    ultimately show ?thesis by (rule ssubst)
  qed
  ultimately show ?thesis
    by (rule runner_reaches.step [OF runner_reaches.step [OF runner_reaches.step [OF runner_reaches.step
            [OF runner_reaches.init]]]])
qed

theorem drained_is_reported_exactly_once_witness:
  "rn_started (sample_runner 3) \<and> rn_sessions (sample_runner 3) \<noteq> [] \<and> stop_requested (sample_runner 3)
   \<and> rn_drained (sample_runner 3) = 1"
proof -
  have st: "rn_started (sample_runner 3)" "rn_sessions (sample_runner 3) \<noteq> []" "stop_requested (sample_runner 3)"
    "\<forall>rs \<in> set (rn_sessions (sample_runner 3)). rs_phase rs = Finished"
    by (simp_all add: sample_runner_defs)
  with drained_is_reported_exactly_once [OF sample_runner_reached] show ?thesis by simp
qed

end
