(* ===== verification/Server_Wiring.thy ===== *)
theory Server_Wiring
  imports Feeds Book_Subscription Aggregator_Service Ingestion_Runner
begin

text \<open>
  The startup of \<^verbatim>\<open>apps/aggregator/server_main.cpp\<close>: from the text of the configuration to the
  service, the groups of symbols and the wired sessions, with every error exit before the server
  runs. A pointer to a \<^verbatim>\<open>SymbolBook\<close> is the position of its book in \<^verbatim>\<open>book_symbols\<close>. What the
  libraries are asked to start (the gRPC server, threads, signals) is not modelled.
\<close>

section \<open>The code\<close>

text \<open>The books of the subscriptions, deduplicated in first-seen order.\<close>

fun book_symbols_of :: "book_id list \<Rightarrow> venue_subscription list \<Rightarrow> book_id list" where
  "book_symbols_of seen [] = []"
| "book_symbols_of seen (sub # rest) =
     (if sub_book_id sub \<in> set seen then book_symbols_of seen rest
      else sub_book_id sub # book_symbols_of (sub_book_id sub # seen) rest)"

record venue_group =
  native_symbols :: "native_symbol list"
  group_registry :: symbol_registry

type_synonym venue_groups = "venue_id \<rightharpoonup> venue_group"

definition book_index :: "book_id list \<Rightarrow> book_id \<Rightarrow> nat" where
  "book_index ids i = length (takeWhile (\<lambda>j. j \<noteq> i) ids)"

definition find_group :: "venue_groups \<Rightarrow> venue_id \<Rightarrow> venue_group option" where
  "find_group groups v = groups v"

text \<open>\<^verbatim>\<open>groups[venue]\<close>, which creates an empty group.\<close>

definition group_at :: "venue_groups \<Rightarrow> venue_id \<Rightarrow> venue_group" where
  "group_at groups v =
     (case groups v of Some g \<Rightarrow> g | None \<Rightarrow> \<lparr>native_symbols = [], group_registry = Map.empty\<rparr>)"

definition add_subscription :: "book_id list \<Rightarrow> venue_groups \<Rightarrow> venue_subscription \<Rightarrow> venue_groups" where
  "add_subscription ids groups sub =
     (let g = group_at groups (sub_venue_id sub)
      in groups(sub_venue_id sub \<mapsto>
           \<lparr>native_symbols = native_symbols g @ [sub_native_symbol sub],
            group_registry = registry_add (sub_native_symbol sub) (book_index ids (sub_book_id sub)) (group_registry g)\<rparr>))"

definition group_subscriptions :: "book_id list \<Rightarrow> venue_subscription list \<Rightarrow> venue_groups" where
  "group_subscriptions ids subs = foldl (add_subscription ids) Map.empty subs"

text \<open>The sessions added so far, with their timeouts, and the venues wired.\<close>

type_synonym wiring = "(venue_id \<times> native_symbol list \<times> symbol_registry \<times> int) list"

definition wire_venue :: "venue_groups \<Rightarrow> idle_timeout_config \<Rightarrow> wiring \<Rightarrow> venue_id \<Rightarrow> wiring" where
  "wire_venue groups config wiring v =
     (case find_group groups v of
        None \<Rightarrow> wiring
      | Some g \<Rightarrow> wiring @ [(v, native_symbols g, group_registry g, for_venue config v)])"

definition wire_venues :: "venue_groups \<Rightarrow> idle_timeout_config \<Rightarrow> wiring" where
  "wire_venues groups config =
     foldl (wire_venue groups config) []
       [VenueId Binance Spot, VenueId Binance Perp, VenueId Bybit Spot, VenueId Bybit Perp,
        VenueId Okx Spot, VenueId Okx Perp]"

datatype startup_error =
    InvalidConfig string
  | UnwiredVenues "string list"
  | UnusedOverrides "string list"

record server =
  srv_book_symbols :: "book_id list"
  srv_service :: service
  srv_wiring :: wiring
  srv_runner :: runner
  srv_io_threads :: int

text \<open>The keys of a hash map of venues, in some order.\<close>

definition venue_keys :: "(venue_id \<rightharpoonup> 'a) \<Rightarrow> venue_id list" where
  "venue_keys m = filter (\<lambda>v. m v \<noteq> None) all_venues"

definition build_server :: "venue_subscription list \<Rightarrow> idle_timeout_config \<Rightarrow> int \<Rightarrow> startup_error + server" where
  "build_server subs config io_threads =
     (let ids = book_symbols_of [] subs;
          groups = group_subscriptions ids subs;
          wiring = wire_venues groups config;
          unwired_venues = venues_missing_from (venue_keys groups) (set (map fst wiring));
          unused_overrides = venues_missing_from (venue_keys (overrides config)) (set (map fst wiring))
      in if unwired_venues \<noteq> [] then Inl (UnwiredVenues unwired_venues)
         else if unused_overrides \<noteq> [] then Inl (UnusedOverrides unused_overrides)
         else Inr \<lparr>srv_book_symbols = ids, srv_service = new_service ids, srv_wiring = wiring,
                   srv_runner = start_all (new_runner (map (\<lambda>(v, syms, reg, t). (v, syms, reg)) wiring)),
                   srv_io_threads = io_threads\<rparr>)"

definition start_server :: "'v json_api \<Rightarrow> string \<Rightarrow> startup_error + server" where
  "start_server api config_json =
     (case parse_book_subscriptions api config_json of
        Inl e \<Rightarrow> Inl (InvalidConfig e)
      | Inr subs \<Rightarrow>
          (case parse_idle_timeout_config api config_json of
             Inl e \<Rightarrow> Inl (InvalidConfig e)
           | Inr config \<Rightarrow>
               (case parse_io_threads api config_json of
                  Inl e \<Rightarrow> Inl (InvalidConfig e)
                | Inr n \<Rightarrow> build_server subs config n)))"

text \<open>The symbols and the registry of a venue, as the market model takes them.\<close>

definition wired_symbols :: "wiring \<Rightarrow> venue_id \<Rightarrow> native_symbol list" where
  "wired_symbols wiring v = (case map_of wiring v of None \<Rightarrow> [] | Some (syms, reg, t) \<Rightarrow> syms)"

definition wired_registry :: "wiring \<Rightarrow> venue_id \<Rightarrow> symbol_registry" where
  "wired_registry wiring v = (case map_of wiring v of None \<Rightarrow> Map.empty | Some (syms, reg, t) \<Rightarrow> reg)"

text \<open>The feed of a venue has the REST methods exactly where its session fetches snapshots.\<close>

lemma venue_feed_via_rest:
  fixes f :: "'v feed"
  assumes "f = venue_feed v"
  shows "kSnapshotViaRest f = venue_via_rest v"
    "snapshot_request f \<noteq> None \<longleftrightarrow> venue_via_rest v" "parse_response f \<noteq> None \<longleftrightarrow> venue_via_rest v"
  using assms by (cases v; cases "venue_exchange v"; cases "venue_type v"; simp add: venue_feed_def feed_classes)+

section \<open>The books\<close>

lemma book_symbols_of:
  "distinct (book_symbols_of seen subs)
   \<and> set (book_symbols_of seen subs) = sub_book_id ` set subs - set seen"
  by (induction subs arbitrary: seen) auto

lemma book_index: "i \<in> set ids \<Longrightarrow> book_index ids i < length ids \<and> ids ! book_index ids i = i"
proof (induction ids)
  case (Cons j ids)
  then show ?case by (cases "j = i") (auto simp: book_index_def)
qed simp

section \<open>The groups\<close>

lemma group_at_add:
  "group_at (add_subscription ids groups sub) v =
     (if v = sub_venue_id sub
      then \<lparr>native_symbols = native_symbols (group_at groups v) @ [sub_native_symbol sub],
            group_registry = registry_add (sub_native_symbol sub) (book_index ids (sub_book_id sub))
              (group_registry (group_at groups v))\<rparr>
      else group_at groups v)"
  by (simp add: group_at_def add_subscription_def Let_def)

text \<open>The symbols of a venue are those of its subscriptions, and each is registered to the first book
  that was configured under it.\<close>

definition subs_at :: "venue_id \<Rightarrow> venue_subscription list \<Rightarrow> venue_subscription list" where
  "subs_at v subs = filter (\<lambda>s. sub_venue_id s = v) subs"

definition first_book :: "venue_subscription list \<Rightarrow> native_symbol \<Rightarrow> book_id option" where
  "first_book subs symbol = map_of (map (\<lambda>s. (sub_native_symbol s, sub_book_id s)) subs) symbol"

lemma first_book_snoc:
  "first_book (subs @ [s]) symbol =
     (case first_book subs symbol of
        Some i \<Rightarrow> Some i
      | None \<Rightarrow> if sub_native_symbol s = symbol then Some (sub_book_id s) else None)"
  by (simp add: first_book_def map_add_def split: option.split)

lemma group_subscriptions_eq:
  "group_at (group_subscriptions ids subs) v =
     \<lparr>native_symbols = map sub_native_symbol (subs_at v subs),
      group_registry = (\<lambda>symbol. map_option (book_index ids) (first_book (subs_at v subs) symbol))\<rparr>
   \<and> (group_subscriptions ids subs v \<noteq> None \<longleftrightarrow> subs_at v subs \<noteq> [])"
proof (induction subs rule: rev_induct)
  case Nil
  then show ?case by (simp add: group_subscriptions_def group_at_def subs_at_def first_book_def)
next
  case (snoc s subs)
  have step: "group_subscriptions ids (subs @ [s]) = add_subscription ids (group_subscriptions ids subs) s"
    by (simp add: group_subscriptions_def)
  show ?case
  proof (cases "sub_venue_id s = v")
    case True
    then have "subs_at v (subs @ [s]) = subs_at v subs @ [s]" by (simp add: subs_at_def)
    moreover have "add_subscription ids (group_subscriptions ids subs) s v \<noteq> None"
      using True by (simp add: add_subscription_def Let_def)
    ultimately show ?thesis
      using snoc True unfolding step group_at_add
      by (auto simp: registry_add_def first_book_snoc fun_eq_iff split: option.split)
  next
    case False
    then have "subs_at v (subs @ [s]) = subs_at v subs" by (simp add: subs_at_def)
    moreover have "add_subscription ids (group_subscriptions ids subs) s v = group_subscriptions ids subs v"
      using False by (auto simp: add_subscription_def Let_def)
    ultimately show ?thesis using snoc False unfolding step group_at_add by simp
  qed
qed

section \<open>The wiring\<close>

lemma foldl_wire_venue:
  "foldl (wire_venue groups config) w vs =
     w @ map (\<lambda>v. (v, native_symbols (the (groups v)), group_registry (the (groups v)), for_venue config v))
       (filter (\<lambda>v. groups v \<noteq> None) vs)"
  by (induction vs arbitrary: w) (auto simp: wire_venue_def find_group_def)

abbreviation every_venue :: "venue_id list" where
  "every_venue \<equiv> [VenueId Binance Spot, VenueId Binance Perp, VenueId Bybit Spot, VenueId Bybit Perp,
     VenueId Okx Spot, VenueId Okx Perp]"

lemma every_venue: "v \<in> set every_venue" "distinct every_venue"
proof -
  obtain x t where "v = VenueId x t" by (cases v)
  then show "v \<in> set every_venue" by (cases x; cases t) simp_all
qed simp

lemma wire_venues_eq:
  "map_of (wire_venues groups config) v =
     (case groups v of None \<Rightarrow> None | Some g \<Rightarrow> Some (native_symbols g, group_registry g, for_venue config v))"
  "v \<in> set (map fst (wire_venues groups config)) \<longleftrightarrow> groups v \<noteq> None"
  "distinct (map fst (wire_venues groups config))"
proof -
  define vs where "vs = filter (\<lambda>v. groups v \<noteq> None) every_venue"
  have w: "wire_venues groups config =
      map (\<lambda>v. (v, native_symbols (the (groups v)), group_registry (the (groups v)), for_venue config v)) vs"
    by (simp only: wire_venues_def foldl_wire_venue vs_def append_Nil)
  have vs: "v \<in> set vs \<longleftrightarrow> groups v \<noteq> None" "distinct vs"
    using every_venue(1) [of v] every_venue(2) by (auto simp only: vs_def set_filter mem_Collect_eq intro: distinct_filter)
  have "map_of (wire_venues groups config) v =
      (if v \<in> set vs then Some (native_symbols (the (groups v)), group_registry (the (groups v)), for_venue config v) else None)"
    unfolding w by (simp add: map_of_map_restrict restrict_map_def)
  with vs show "map_of (wire_venues groups config) v =
      (case groups v of None \<Rightarrow> None | Some g \<Rightarrow> Some (native_symbols g, group_registry g, for_venue config v))"
    by (auto split: option.split)
  show "v \<in> set (map fst (wire_venues groups config)) \<longleftrightarrow> groups v \<noteq> None"
    "distinct (map fst (wire_venues groups config))"
    using vs by (simp_all add: w comp_def)
qed

lemma wire_venues_timeout:
  assumes "(v, syms, reg, t) \<in> set (wire_venues groups config)"
  shows "t = for_venue config v"
  using wire_venues_eq(1) [of groups config v] map_of_is_SomeI [OF wire_venues_eq(3) assms]
  by (simp split: option.splits)

lemma venues_missing_from_Nil: "venues_missing_from vs w = [] \<longleftrightarrow> set vs \<subseteq> w"
  by (induction vs) (auto simp: venues_missing_from_def)

lemma set_venue_keys: "set (venue_keys m) = dom m"
  by (auto simp: venue_keys_def set_all_venues)

text \<open>No venue is left unwired: there is a \<^verbatim>\<open>wire_venue\<close> call for each.\<close>

lemma nothing_unwired:
  "venues_missing_from (venue_keys groups) (set (map fst (wire_venues groups config))) = []"
  unfolding venues_missing_from_Nil set_venue_keys
proof
  fix v assume "v \<in> dom groups"
  then show "v \<in> set (map fst (wire_venues groups config))" unfolding wire_venues_eq(2) by blast
qed

lemma wired_parts:
  "wired_symbols (wire_venues (group_subscriptions ids subs) config) v = map sub_native_symbol (subs_at v subs)"
  "wired_registry (wire_venues (group_subscriptions ids subs) config) v =
     (\<lambda>symbol. map_option (book_index ids) (first_book (subs_at v subs) symbol))"
  using group_subscriptions_eq [of ids subs v]
  by (auto simp: wired_symbols_def wired_registry_def wire_venues_eq(1) group_at_def subs_at_def split: option.splits)

lemma first_book_Some:
  assumes "s \<in> set subs"
  shows "\<exists>s' \<in> set subs. sub_native_symbol s' = sub_native_symbol s
    \<and> first_book subs (sub_native_symbol s) = Some (sub_book_id s')"
proof -
  have "first_book subs (sub_native_symbol s) \<noteq> None"
    using assms by (auto simp: first_book_def map_of_eq_None_iff image_iff)
  then obtain i where "first_book subs (sub_native_symbol s) = Some i" by blast
  moreover from map_of_SomeD [OF this [unfolded first_book_def]]
  obtain s' where "s' \<in> set subs" "sub_native_symbol s' = sub_native_symbol s" "sub_book_id s' = i" by auto
  ultimately show ?thesis by blast
qed

lemma wired_entry:
  assumes "(v, syms, reg, t) \<in> set (wire_venues (group_subscriptions ids subs) config)"
  shows "t = for_venue config v" and "syms = map sub_native_symbol (filter (\<lambda>s. sub_venue_id s = v) subs)"
proof -
  show "t = for_venue config v" by (rule wire_venues_timeout [OF assms])
  have "map_of (wire_venues (group_subscriptions ids subs) config) v = Some (syms, reg, t)"
    by (rule map_of_is_SomeI [OF wire_venues_eq(3) assms])
  then have "wired_symbols (wire_venues (group_subscriptions ids subs) config) v = syms" by (simp add: wired_symbols_def)
  then show "syms = map sub_native_symbol (filter (\<lambda>s. sub_venue_id s = v) subs)" by (simp add: wired_parts subs_at_def)
qed

lemma subscriptions_wired:
  fixes config :: idle_timeout_config
  assumes ok: "\<forall>s \<in> set subs. subscription_ok s" and ids: "sub_book_id ` set subs \<subseteq> set ids"
  defines "w \<equiv> wire_venues (group_subscriptions ids subs) config"
  shows "wired (wired_symbols w) (wired_registry w)"
  unfolding wired_def
proof (intro allI conjI)
  fix v
  have first: "\<exists>s \<in> set (subs_at v subs). sub_native_symbol s = a \<and> first_book (subs_at v subs) a = Some (sub_book_id s)"
    if a: "a \<in> set (wired_symbols w v)" for a
  proof -
    obtain s where "s \<in> set (subs_at v subs)" "sub_native_symbol s = a" using a by (auto simp: w_def wired_parts)
    then show ?thesis using first_book_Some [of s "subs_at v subs"] by auto
  qed
  show "set (wired_symbols w v) \<subseteq> dom (wired_registry w v)"
    using first by (fastforce simp: w_def wired_parts(2))
  show "inj_on (wired_registry w v) (set (wired_symbols w v))"
  proof (rule inj_onI)
    fix a b
    assume ab: "a \<in> set (wired_symbols w v)" "b \<in> set (wired_symbols w v)"
      and eq: "wired_registry w v a = wired_registry w v b"
    obtain sa sb where "sa \<in> set (subs_at v subs)" "sub_native_symbol sa = a"
      "first_book (subs_at v subs) a = Some (sub_book_id sa)"
      "sb \<in> set (subs_at v subs)" "sub_native_symbol sb = b"
      "first_book (subs_at v subs) b = Some (sub_book_id sb)"
      using first [OF ab(1)] first [OF ab(2)] by blast
    moreover from this eq have "book_index ids (sub_book_id sa) = book_index ids (sub_book_id sb)"
      by (simp add: w_def wired_parts)
    moreover have "sub_book_id sa \<in> set ids" "sub_book_id sb \<in> set ids"
      using ids calculation by (auto simp: subs_at_def)
    ultimately have "sub_book_id sa = sub_book_id sb" using book_index by metis
    moreover have "subscription_ok sa" "subscription_ok sb" "sub_venue_id sa = v" "sub_venue_id sb = v"
      using \<open>sa \<in> _\<close> \<open>sb \<in> _\<close> ok by (auto simp: subs_at_def)
    ultimately show "a = b" using \<open>sub_native_symbol sa = a\<close> \<open>sub_native_symbol sb = b\<close>
      by (auto simp: subscription_ok_def)
  qed
qed

text \<open>The first subscription with its native symbol at its venue has the registry entry.\<close>

lemma subscription_fed:
  fixes config :: idle_timeout_config
  assumes subs: "subs = before @ s # later" and ids: "sub_book_id ` set subs \<subseteq> set ids"
    and first: "\<forall>s' \<in> set before. \<not> (sub_venue_id s' = sub_venue_id s \<and> sub_native_symbol s' = sub_native_symbol s)"
  shows "\<exists>k < length ids. ids ! k = sub_book_id s
    \<and> wired_registry (wire_venues (group_subscriptions ids subs) config) (sub_venue_id s) (sub_native_symbol s) = Some k"
proof -
  have "first_book (subs_at (sub_venue_id s) before) (sub_native_symbol s) = None"
    using first by (auto simp: first_book_def subs_at_def map_of_eq_None_iff)
  then have "first_book (subs_at (sub_venue_id s) subs) (sub_native_symbol s) = Some (sub_book_id s)"
    by (simp add: first_book_def subs_at_def subs map_add_def)
  moreover have "book_index ids (sub_book_id s) < length ids \<and> ids ! book_index ids (sub_book_id s) = sub_book_id s"
    using subs ids by (intro book_index) auto
  ultimately show ?thesis by (auto simp: wired_parts)
qed

section \<open>Startup\<close>

lemma never_unwired: "start_server api config_json \<noteq> Inl (UnwiredVenues vs)"
  using nothing_unwired by (auto simp: start_server_def build_server_def Let_def split: sum.splits if_splits)

text \<open>
  C31. A server that starts is wired as configured. The configuration was accepted by all three
  parsers; the service has exactly the configured books, once each and well-formed, so the routing of
  requests applies; exactly the configured venues have a session, each with exactly the symbols
  subscribed there, in their order, and with the timeout its override gives, or the default one where
  there is none, of at most a day; every override is for a venue with a session. The wiring is one for
  which the market theorems hold; and every subscription is fed to its own book unless an
  earlier one at that venue has the same native symbol. No configuration fails for a venue without a
  feed.
\<close>

theorem started_server_is_wired:
  assumes "start_server api config_json = Inr srv"
  shows "(\<exists>subs config. parse_book_subscriptions api config_json = Inr subs
      \<and> parse_idle_timeout_config api config_json = Inr config
      \<and> parse_io_threads api config_json = Inr (srv_io_threads srv)
      \<and> srv_service srv = new_service (srv_book_symbols srv) \<and> distinct (srv_book_symbols srv)
      \<and> set (srv_book_symbols srv) = sub_book_id ` set subs \<and> (\<forall>i \<in> set (srv_book_symbols srv). wellformed_id i)
      \<and> distinct (map fst (srv_wiring srv)) \<and> set (map fst (srv_wiring srv)) = sub_venue_id ` set subs
      \<and> dom (overrides config) \<subseteq> set (map fst (srv_wiring srv))
      \<and> (\<forall>(v, syms, reg, t) \<in> set (srv_wiring srv).
           t = (case overrides config v of Some seconds \<Rightarrow> seconds | None \<Rightarrow> default_timeout config)
           \<and> 1 \<le> t \<and> t \<le> 86400
           \<and> syms = map sub_native_symbol (filter (\<lambda>s. sub_venue_id s = v) subs))
      \<and> wired (wired_symbols (srv_wiring srv)) (wired_registry (srv_wiring srv))
      \<and> (\<forall>before s later. subs = before @ s # later
           \<and> (\<forall>s' \<in> set before. \<not> (sub_venue_id s' = sub_venue_id s \<and> sub_native_symbol s' = sub_native_symbol s)) \<longrightarrow>
           (\<exists>k < length (srv_book_symbols srv). srv_book_symbols srv ! k = sub_book_id s
              \<and> wired_registry (srv_wiring srv) (sub_venue_id s) (sub_native_symbol s) = Some k)))
    \<and> (\<forall>vs. start_server api other_json \<noteq> Inl (UnwiredVenues vs))"
proof -
  obtain subs config n where parsed: "parse_book_subscriptions api config_json = Inr subs"
    "parse_idle_timeout_config api config_json = Inr config" "parse_io_threads api config_json = Inr n"
    and built: "build_server subs config n = Inr srv"
    using assms by (auto simp: start_server_def split: sum.splits)
  define ids where "ids = book_symbols_of [] subs"
  define w where "w = wire_venues (group_subscriptions ids subs) config"
  have srv: "srv_book_symbols srv = ids" "srv_service srv = new_service ids" "srv_wiring srv = w" "srv_io_threads srv = n"
    and unused: "dom (overrides config) \<subseteq> set (map fst w)"
    using built unfolding build_server_def Let_def ids_def [symmetric] w_def [symmetric] venues_missing_from_Nil
      set_venue_keys by (auto split: if_splits)
  note subs = parse_book_subscriptions_ok [OF parsed(1)]
  have ids: "distinct ids" "set ids = sub_book_id ` set subs" using book_symbols_of [of "[]" subs] by (simp_all add: ids_def)
  have wf: "\<forall>i \<in> set ids. wellformed_id i"
    using subs(3) ids(2) by (auto simp: subscription_ok_def spellable_def wellformed_id_def)
  have "v \<in> set (map fst w) \<longleftrightarrow> v \<in> sub_venue_id ` set subs" for v
    using group_subscriptions_eq [of ids subs v]
    unfolding w_def wire_venues_eq(2) by (auto simp: subs_at_def filter_empty_conv image_iff)
  then have venues: "set (map fst w) = sub_venue_id ` set subs" by blast
  have once: "distinct (map fst w)" unfolding w_def by (rule wire_venues_eq(3))
  have each: "\<forall>(v, syms, reg, t) \<in> set w.
      t = (case overrides config v of Some seconds \<Rightarrow> seconds | None \<Rightarrow> default_timeout config)
      \<and> 1 \<le> t \<and> t \<le> 86400 \<and> syms = map sub_native_symbol (filter (\<lambda>s. sub_venue_id s = v) subs)"
  proof (rule ballI, clarify)
    fix v syms reg t assume "(v, syms, reg, t) \<in> set w"
    from wired_entry [OF this [unfolded w_def]] parse_idle_timeout_ok [OF parsed(2)]
    show "t = (case overrides config v of Some seconds \<Rightarrow> seconds | None \<Rightarrow> default_timeout config)
        \<and> 1 \<le> t \<and> t \<le> 86400 \<and> syms = map sub_native_symbol (filter (\<lambda>s. sub_venue_id s = v) subs)"
      by (simp add: timeouts_ok_def kMaxIdleTimeout_def flip: for_venue_def)
  qed
  have wired: "wired (wired_symbols w) (wired_registry w)"
    unfolding w_def by (rule subscriptions_wired [OF subs(3)]) (simp add: ids(2))
  have fed: "\<forall>before s later. subs = before @ s # later
      \<and> (\<forall>s' \<in> set before. \<not> (sub_venue_id s' = sub_venue_id s \<and> sub_native_symbol s' = sub_native_symbol s)) \<longrightarrow>
      (\<exists>k < length ids. ids ! k = sub_book_id s
         \<and> wired_registry w (sub_venue_id s) (sub_native_symbol s) = Some k)"
    unfolding w_def using subscription_fed [of subs _ _ _ ids config] ids(2) by blast
  have never: "\<forall>vs. start_server api other_json \<noteq> Inl (UnwiredVenues vs)"
    using never_unwired by blast
  show ?thesis unfolding srv
    by (intro conjI exI [of _ subs] exI [of _ config]; fact parsed refl ids wf once venues unused each wired fed never)
qed

lemma wired_groups:
  assumes "start_server api config_json = Inr srv"
  obtains groups where "groups = map (\<lambda>(v, syms, reg, t). (v, syms, reg)) (srv_wiring srv)"
    "srv_runner srv = start_all (new_runner groups)" "groups \<noteq> []" "1 \<le> srv_io_threads srv"
proof -
  obtain subs config where parsed: "parse_book_subscriptions api config_json = Inr subs"
    "parse_io_threads api config_json = Inr (srv_io_threads srv)"
    and srv: "srv_wiring srv = wire_venues (group_subscriptions (srv_book_symbols srv) subs) config"
    "srv_runner srv = start_all (new_runner (map (\<lambda>(v, syms, reg, t). (v, syms, reg)) (srv_wiring srv)))"
    using assms by (auto simp: start_server_def build_server_def Let_def split: sum.splits if_splits)
  obtain s where "s \<in> set subs" using parse_book_subscriptions_ok(1) [OF parsed(1)] by (cases subs) auto
  then have "subs_at (sub_venue_id s) subs \<noteq> []" by (auto simp: subs_at_def filter_empty_conv)
  then have "srv_wiring srv \<noteq> []"
    using group_subscriptions_eq [of "srv_book_symbols srv" subs "sub_venue_id s"]
      wire_venues_eq(2) [of "sub_venue_id s" "group_subscriptions (srv_book_symbols srv) subs" config]
    by (auto simp: srv(1))
  with that srv(2) parse_io_threads_ok [OF parsed(2)] show thesis by blast
qed

text \<open>The sample configuration: one book at two venues.\<close>

lemma build_server_ok:
  assumes "dom (overrides config) \<subseteq> sub_venue_id ` set subs"
  shows "is_ok (build_server subs config n)"
proof -
  define ids where "ids = book_symbols_of [] subs"
  define w where "w = wire_venues (group_subscriptions ids subs) config"
  have "v \<in> set (map fst w)" if "v \<in> dom (overrides config)" for v
    using that assms group_subscriptions_eq [of ids subs v]
    unfolding w_def wire_venues_eq(2) by (auto simp: subs_at_def filter_empty_conv)
  then have "venues_missing_from (venue_keys (overrides config)) (set (map fst w)) = []"
    unfolding venues_missing_from_Nil set_venue_keys by blast
  moreover have "venues_missing_from (venue_keys (group_subscriptions ids subs)) (set (map fst w)) = []"
    unfolding w_def by (rule nothing_unwired)
  ultimately show ?thesis
    unfolding build_server_def Let_def ids_def [symmetric] w_def [symmetric] by simp
qed

lemma sample_server: "is_ok (start_server sample_api ''config'')"
  using build_server_ok [of "\<lparr>default_timeout = 30, overrides = [VenueId Okx Spot \<mapsto> 120]\<rparr>" sample_subscriptions 4]
  unfolding start_server_def sample_config_parses sample_timeouts sample_threads
  by (simp add: sample_subscriptions_def Let_def)

theorem started_server_is_wired_witness:
  "\<exists>srv. start_server sample_api ''config'' = Inr srv
     \<and> set (srv_book_symbols srv) = {BookId (BaseQuote (Asset ''BTC'') (Asset ''USDT'')) Spot}
     \<and> set (map fst (srv_wiring srv)) = {VenueId Okx Spot, VenueId Bybit Spot}
     \<and> wired (wired_symbols (srv_wiring srv)) (wired_registry (srv_wiring srv))"
proof -
  obtain srv where srv: "start_server sample_api ''config'' = Inr srv" using sample_server by blast
  obtain subs where "parse_book_subscriptions sample_api ''config'' = Inr subs"
    "set (srv_book_symbols srv) = sub_book_id ` set subs" "set (map fst (srv_wiring srv)) = sub_venue_id ` set subs"
    "wired (wired_symbols (srv_wiring srv)) (wired_registry (srv_wiring srv))"
    using started_server_is_wired [OF srv, of "''other''"] by blast
  then show ?thesis using srv by (auto simp: sample_config_parses sample_subscriptions_def Let_def)
qed

end
