(* ===== verification/Server_Shutdown.thy ===== *)
theory Server_Shutdown
  imports Server_Wiring
begin

text \<open>
  The second half of \<^verbatim>\<open>apps/aggregator/server_main.cpp\<close>: from the running server to the end of
  \<^verbatim>\<open>main\<close>. Its threads (main, the threads of the event loop, the thread that shuts gRPC down,
  the watchdog, the heartbeat) are one step relation over the points where they block. The sessions
  take the steps of \<open>runner_step\<close>; what is outside the program (signals, when gRPC has drained its
  calls, when the watchdog's time is up) may happen at any moment.
\<close>

section \<open>The code\<close>

text \<open>Where \<^verbatim>\<open>main\<close> stands, and where the thread that calls \<^verbatim>\<open>Shutdown\<close> stands.\<close>

datatype main_phase =
    Serving | JoiningGrpc | StoppingIngestion | JoiningIo | JoiningWatchdog | JoiningHeartbeat
  | Returned0 | ForcedExit

datatype grpc_phase = Accepting | ShuttingDown | Down

datatype watchdog_phase = NotStarted | Watching | WatchdogEnded

text \<open>
  \<open>wait_armed\<close>: an \<^verbatim>\<open>async_wait\<close> on the signals is outstanding (its handler runs only while some
  thread is in the event loop, so a signal that comes after the watchdog has stopped the loop is not
  acted on: see \<open>loop_alive\<close> in the rule for signals); \<open>cancel_run\<close>: the cancellation
  that \<^verbatim>\<open>on_all_drained\<close> posted has run; \<open>io_running\<close>: the threads still in \<^verbatim>\<open>io.run()\<close>;
  \<open>signals_heard\<close> counts the calls of \<^verbatim>\<open>on_signal\<close>.
\<close>

record server_state =
  main_at :: main_phase
  shutdown_requested :: bool
  wait_armed :: bool
  cancel_run :: bool
  grpc_at :: grpc_phase
  sv_runner :: runner
  io_running :: nat
  io_stopped :: bool
  watchdog_at :: watchdog_phase
  shutdown_complete :: bool
  heartbeat_stop :: bool
  heartbeat_running :: bool
  signals_heard :: nat

definition serving :: "server \<Rightarrow> server_state" where
  "serving srv =
     \<lparr>main_at = Serving, shutdown_requested = False, wait_armed = True, cancel_run = False, grpc_at = Accepting,
      sv_runner = srv_runner srv, io_running = nat (srv_io_threads srv), io_stopped = False,
      watchdog_at = NotStarted, shutdown_complete = False, heartbeat_stop = False, heartbeat_running = True,
      signals_heard = 0\<rparr>"

definition on_signal :: "server_state \<Rightarrow> server_state" where
  "on_signal s =
     (if shutdown_requested s then s\<lparr>main_at := ForcedExit, signals_heard := signals_heard s + 1\<rparr>
      else s\<lparr>shutdown_requested := True, grpc_at := ShuttingDown, wait_armed := True,
             signals_heard := signals_heard s + 1\<rparr>)"

text \<open>\<^verbatim>\<open>io.run()\<close> returns when the loop was stopped, or has nothing left to wait for.\<close>

definition all_finished :: "runner \<Rightarrow> bool" where
  "all_finished r \<longleftrightarrow> list_all (\<lambda>rs. rs_phase rs = Finished) (rn_sessions r)"

definition io_idle :: "server_state \<Rightarrow> bool" where
  "io_idle s \<longleftrightarrow> all_finished (sv_runner s) \<and> \<not> wait_armed s \<and> (rn_drained (sv_runner s) > 0 \<longrightarrow> cancel_run s)"

definition loop_alive :: "server_state \<Rightarrow> bool" where
  "loop_alive s \<longleftrightarrow> io_running s > 0 \<and> \<not> io_stopped s"

inductive main_step :: "server_state \<Rightarrow> server_state \<Rightarrow> bool" where
  wait_returns: "main_at s = Serving \<Longrightarrow> grpc_at s = Down \<Longrightarrow> main_step s (s\<lparr>main_at := JoiningGrpc\<rparr>)"
| grpc_joined: "main_at s = JoiningGrpc \<Longrightarrow> grpc_at s = Down \<Longrightarrow> main_step s (s\<lparr>main_at := StoppingIngestion\<rparr>)"
| stop_ingestion: "main_at s = StoppingIngestion \<Longrightarrow>
    main_step s (s\<lparr>main_at := JoiningIo, watchdog_at := Watching, sv_runner := stop_all (sv_runner s)\<rparr>)"
| io_joined: "main_at s = JoiningIo \<Longrightarrow> io_running s = 0 \<Longrightarrow>
    main_step s (s\<lparr>main_at := JoiningWatchdog, shutdown_complete := True\<rparr>)"
| watchdog_joined: "main_at s = JoiningWatchdog \<Longrightarrow> watchdog_at s = WatchdogEnded \<Longrightarrow>
    main_step s (s\<lparr>main_at := JoiningHeartbeat, heartbeat_stop := True\<rparr>)"
| heartbeat_joined: "main_at s = JoiningHeartbeat \<Longrightarrow> \<not> heartbeat_running s \<Longrightarrow>
    main_step s (s\<lparr>main_at := Returned0\<rparr>)"
| ingestion: "main_at s \<notin> {Returned0, ForcedExit} \<Longrightarrow> loop_alive s \<Longrightarrow> runner_step (sv_runner s) r \<Longrightarrow>
    rn_started (sv_runner s) \<Longrightarrow> stop_requested r = stop_requested (sv_runner s) \<Longrightarrow>
    main_step s (s\<lparr>sv_runner := r\<rparr>)"
| cancel_signals: "main_at s \<notin> {Returned0, ForcedExit} \<Longrightarrow> loop_alive s \<Longrightarrow> rn_drained (sv_runner s) > 0 \<Longrightarrow>
    \<not> cancel_run s \<Longrightarrow> main_step s (s\<lparr>wait_armed := False, cancel_run := True\<rparr>)"
| io_returns: "main_at s \<notin> {Returned0, ForcedExit} \<Longrightarrow> io_running s = Suc n \<Longrightarrow> io_stopped s \<or> io_idle s \<Longrightarrow>
    main_step s (s\<lparr>io_running := n\<rparr>)"
| watchdog_ends: "main_at s \<notin> {Returned0, ForcedExit} \<Longrightarrow> watchdog_at s = Watching \<Longrightarrow> shutdown_complete s \<Longrightarrow>
    main_step s (s\<lparr>watchdog_at := WatchdogEnded\<rparr>)"
| heartbeat_ends: "main_at s \<notin> {Returned0, ForcedExit} \<Longrightarrow> heartbeat_stop s \<Longrightarrow>
    main_step s (s\<lparr>heartbeat_running := False\<rparr>)"

inductive main_event :: "server_state \<Rightarrow> server_state \<Rightarrow> bool" where
  signal: "main_at s \<notin> {Returned0, ForcedExit} \<Longrightarrow> loop_alive s \<Longrightarrow> wait_armed s \<Longrightarrow> main_event s (on_signal s)"
| grpc_drained: "main_at s \<notin> {Returned0, ForcedExit} \<Longrightarrow> grpc_at s = ShuttingDown \<Longrightarrow>
    main_event s (s\<lparr>grpc_at := Down\<rparr>)"
| watchdog_fires: "main_at s \<notin> {Returned0, ForcedExit} \<Longrightarrow> watchdog_at s = Watching \<Longrightarrow> \<not> shutdown_complete s \<Longrightarrow>
    main_event s (s\<lparr>watchdog_at := WatchdogEnded, io_stopped := True\<rparr>)"

inductive main_reaches :: "server_state \<Rightarrow> server_state \<Rightarrow> bool" for s0 where
  init: "main_reaches s0 s0"
| step: "main_reaches s0 s \<Longrightarrow> main_step s s' \<Longrightarrow> main_reaches s0 s'"
| event: "main_reaches s0 s \<Longrightarrow> main_event s s' \<Longrightarrow> main_reaches s0 s'"

section \<open>The invariant\<close>

abbreviation past_stop :: "server_state \<Rightarrow> bool" where
  "past_stop s \<equiv> main_at s \<in> {JoiningIo, JoiningWatchdog, JoiningHeartbeat, Returned0}"

abbreviation past_io :: "server_state \<Rightarrow> bool" where
  "past_io s \<equiv> main_at s \<in> {JoiningWatchdog, JoiningHeartbeat, Returned0}"

text \<open>The control state: who has done what by the time \<^verbatim>\<open>main\<close> is where it is.\<close>

definition control_inv :: "server_state \<Rightarrow> bool" where
  "control_inv s \<longleftrightarrow>
     (grpc_at s = Accepting \<longleftrightarrow> \<not> shutdown_requested s)
     \<and> (main_at s \<notin> {Serving, ForcedExit} \<longrightarrow> grpc_at s = Down)
     \<and> (main_at s = ForcedExit \<longrightarrow> shutdown_requested s)
     \<and> signals_heard s = (if main_at s = ForcedExit then 2 else if shutdown_requested s then 1 else 0)
     \<and> (past_stop s \<longrightarrow> stop_requested (sv_runner s) \<and> watchdog_at s \<noteq> NotStarted)
     \<and> (main_at s \<in> {Serving, JoiningGrpc, StoppingIngestion} \<longrightarrow>
          \<not> stop_requested (sv_runner s) \<and> watchdog_at s = NotStarted
          \<and> \<not> io_stopped s \<and> \<not> shutdown_complete s)
     \<and> (past_io s \<longrightarrow> io_running s = 0 \<and> shutdown_complete s)
     \<and> (main_at s \<in> {JoiningHeartbeat, Returned0} \<longrightarrow> watchdog_at s = WatchdogEnded \<and> heartbeat_stop s)
     \<and> (main_at s = Returned0 \<longrightarrow> \<not> heartbeat_running s)
     \<and> (main_at s = JoiningIo \<longrightarrow> \<not> shutdown_complete s)"

text \<open>
  The signals are listened to until the cancellation has run, and this happens only after the last
  session has finished.
\<close>

definition hatch_inv :: "server_state \<Rightarrow> bool" where
  "hatch_inv s \<longleftrightarrow>
     (wait_armed s \<longleftrightarrow> \<not> cancel_run s) \<and> (cancel_run s \<longrightarrow> rn_drained (sv_runner s) > 0)
     \<and> (io_running s = 0 \<and> \<not> io_stopped s \<longrightarrow> cancel_run s)"

definition main_inv :: "(venue_id \<times> native_symbol list \<times> symbol_registry) list \<Rightarrow> server_state \<Rightarrow> bool" where
  "main_inv groups s \<longleftrightarrow>
     control_inv s \<and> hatch_inv s
     \<and> runner_reaches (new_runner groups) (sv_runner s) \<and> rn_started (sv_runner s)"

lemma runner_step_monotone:
  assumes "runner_step r r'" "rn_started r"
  shows "rn_started r'" "rn_drained r \<le> rn_drained r'"
  using assms
  by (induction rule: runner_step.induct)
    (auto simp: start_all_def stop_all_def session_moved_def barrier_arrive_def Let_def)

lemma main_step_control: "main_step s s' \<Longrightarrow> control_inv s \<Longrightarrow> control_inv s'"
proof (induction rule: main_step.induct)
  case (io_returns s n)
  then show ?case by (auto simp: control_inv_def)
qed (auto simp: control_inv_def stop_all_def loop_alive_def)

lemma main_event_control: "main_event s s' \<Longrightarrow> control_inv s \<Longrightarrow> control_inv s'"
proof (induction rule: main_event.induct)
  case (signal s)
  then show ?case by (cases "main_at s") (auto simp: control_inv_def on_signal_def loop_alive_def)
next
  case (grpc_drained s)
  then show ?case by (cases "main_at s") (auto simp: control_inv_def)
next
  case (watchdog_fires s)
  then show ?case by (cases "main_at s") (auto simp: control_inv_def)
qed

lemma main_step_hatch: "main_step s s' \<Longrightarrow> hatch_inv s \<Longrightarrow> rn_started (sv_runner s) \<Longrightarrow> hatch_inv s'"
proof (induction rule: main_step.induct)
  case (ingestion s r)
  then show ?case using runner_step_monotone(2) [of "sv_runner s" r] by (auto simp: hatch_inv_def)
qed (auto simp: hatch_inv_def io_idle_def loop_alive_def stop_all_def)

lemma main_event_hatch: "main_event s s' \<Longrightarrow> hatch_inv s \<Longrightarrow> hatch_inv s'"
  by (induction rule: main_event.induct) (auto simp: hatch_inv_def on_signal_def)

lemma main_step_inv: "main_step s s' \<Longrightarrow> main_inv groups s \<Longrightarrow> main_inv groups s'"
proof -
  assume step: "main_step s s'" and inv: "main_inv groups s"
  have "runner_reaches (new_runner groups) (sv_runner s') \<and> rn_started (sv_runner s')"
    using step inv runner_step_monotone(1) runner_reaches.step [OF _ runner_step.stop]
    by (induction rule: main_step.induct)
      (auto simp: main_inv_def intro: runner_reaches.step, simp add: stop_all_def)
  with step inv show ?thesis by (auto simp: main_inv_def intro: main_step_control main_step_hatch)
qed

lemma main_event_inv: "main_event s s' \<Longrightarrow> main_inv groups s \<Longrightarrow> main_inv groups s'"
proof -
  assume event: "main_event s s'" and inv: "main_inv groups s"
  have "sv_runner s' = sv_runner s" using event by (induction rule: main_event.induct) (auto simp: on_signal_def)
  with event inv show ?thesis by (auto simp: main_inv_def intro: main_event_control main_event_hatch)
qed

lemma main_reaches_inv: "main_reaches s0 s \<Longrightarrow> main_inv groups s0 \<Longrightarrow> main_inv groups s"
  by (induction rule: main_reaches.induct) (auto intro: main_step_inv main_event_inv)

section \<open>The started server\<close>

lemma serving_inv:
  assumes "srv_runner srv = start_all (new_runner groups)" "groups \<noteq> []" "1 \<le> srv_io_threads srv"
  shows "main_inv groups (serving srv)" "loop_alive (serving srv)"
proof -
  have "runner_step (new_runner groups) (start_all (new_runner groups))"
    by (rule runner_step.start) (simp add: new_runner_def)
  then have "runner_reaches (new_runner groups) (srv_runner srv)"
    using assms(1) runner_reaches.step [OF runner_reaches.init] by simp
  with assms show "main_inv groups (serving srv)"
    by (simp add: main_inv_def control_inv_def hatch_inv_def serving_def start_all_def new_runner_def)
  show "loop_alive (serving srv)" using assms(3) by (simp add: loop_alive_def serving_def)
qed

lemma drained_iff_finished:
  assumes "main_inv groups s"
  shows "rn_drained (sv_runner s) = (if all_finished (sv_runner s) then 1 else 0)"
  using runner_reaches_inv [of groups "sv_runner s"] assms all_finished_count [of "rn_sessions (sv_runner s)"]
  by (auto simp: main_inv_def runner_inv_def all_finished_def list_all_iff)

lemma returned_finished:
  assumes inv: "main_inv groups s" and "main_at s = Returned0" "\<not> io_stopped s"
  shows "all_finished (sv_runner s)"
proof -
  have "rn_drained (sv_runner s) > 0"
    using assms by (simp add: main_inv_def hatch_inv_def control_inv_def)
  then show ?thesis using drained_iff_finished [OF inv] by (simp split: if_splits)
qed

section \<open>Shutdown makes progress\<close>

definition session_weight :: "run_state \<Rightarrow> nat" where
  "session_weight rs = pending rs + (if stopping (rs_session rs) then 0 else 1)"

definition runner_weight :: "runner \<Rightarrow> nat" where
  "runner_weight r = sum_list (map session_weight (rn_sessions r))"

lemma session_progress:
  assumes "rs_phase rs \<noteq> Finished"
  shows "\<exists>rs'. run_step rs rs' \<and> session_weight rs' < session_weight rs"
proof (cases "stopping (rs_session rs)")
  case True
  with stopping_progress [OF True assms] stopping_step [OF _ True] show ?thesis
    by (fastforce simp: session_weight_def)
next
  case False
  with run_step.stop [of rs] show ?thesis by (fastforce simp: session_weight_def pending_def)
qed

lemma runner_progress:
  assumes "rn_started r" "stop_requested r" "\<not> all_finished r"
  shows "\<exists>r'. runner_step r r' \<and> stop_requested r' \<and> runner_weight r' < runner_weight r"
proof -
  obtain i where i: "i < length (rn_sessions r)" "rs_phase (rn_sessions r ! i) \<noteq> Finished"
    using assms(3) by (auto simp: all_finished_def list_all_length)
  then obtain rs' where rs': "run_step (rn_sessions r ! i) rs'"
    "session_weight rs' < session_weight (rn_sessions r ! i)" using session_progress by blast
  have "runner_step r (session_moved i rs' r)"
    by (rule runner_step.session [OF assms(1) i(1) rs'(1)]) (simp add: assms(2))
  moreover have "stop_requested (session_moved i rs' r)"
    using assms(2) by (simp add: session_moved_def barrier_arrive_def Let_def)
  moreover have "sum_list (map session_weight ((rn_sessions r)[i := rs'])) < sum_list (map session_weight (rn_sessions r))"
  proof -
    have "session_weight (rn_sessions r ! i) \<le> sum_list (map session_weight (rn_sessions r))"
      using i(1) by (intro member_le_sum_list) auto
    then show ?thesis using i(1) rs'(2) by (simp add: map_update sum_list_update)
  qed
  then have "runner_weight (session_moved i rs' r) < runner_weight r"
    by (simp add: runner_weight_def session_moved_def barrier_arrive_def Let_def)
  ultimately show ?thesis by blast
qed

fun main_rank :: "main_phase \<Rightarrow> nat" where
  "main_rank Serving = 6"
| "main_rank JoiningGrpc = 5"
| "main_rank StoppingIngestion = 4"
| "main_rank JoiningIo = 3"
| "main_rank JoiningWatchdog = 2"
| "main_rank JoiningHeartbeat = 1"
| "main_rank _ = 0"

text \<open>What is left to do until \<^verbatim>\<open>main\<close> returns.\<close>

definition remaining :: "server_state \<Rightarrow> nat" where
  "remaining s =
     main_rank (main_at s) + (if grpc_at s = Down then 0 else 1) + runner_weight (sv_runner s)
     + (if cancel_run s then 0 else 1) + io_running s + (if heartbeat_running s then 1 else 0)
     + (case watchdog_at s of NotStarted \<Rightarrow> 2 | Watching \<Rightarrow> 1 | WatchdogEnded \<Rightarrow> 0)"

abbreviation shutting_down :: "server_state \<Rightarrow> bool" where
  "shutting_down s \<equiv> shutdown_requested s \<and> main_at s \<noteq> ForcedExit"

lemma io_progress:
  assumes inv: "main_inv groups s" and at: "main_at s = JoiningIo"
  shows "\<exists>s'. main_step s s' \<and> remaining s' < remaining s \<and> shutdown_requested s' = shutdown_requested s
    \<and> main_at s' \<noteq> ForcedExit \<and> io_stopped s' = io_stopped s"
proof (cases "io_running s")
  case 0
  with main_step.io_joined [OF at 0] show ?thesis
    by (intro exI [of _ "s\<lparr>main_at := JoiningWatchdog, shutdown_complete := True\<rparr>"]) (simp add: remaining_def at)
next
  case (Suc n)
  have stop: "stop_requested (sv_runner s)" "rn_started (sv_runner s)"
    using inv at by (simp_all add: main_inv_def control_inv_def)
  show ?thesis
  proof (cases "io_stopped s \<or> io_idle s")
    case True
    with main_step.io_returns [OF _ Suc] at show ?thesis
      by (intro exI [of _ "s\<lparr>io_running := n\<rparr>"]) (simp add: remaining_def Suc)
  next
    case False
    then have live: "loop_alive s" using Suc by (simp add: loop_alive_def)
    show ?thesis
    proof (cases "all_finished (sv_runner s)")
      case True
      then have "\<not> cancel_run s" "rn_drained (sv_runner s) > 0"
        using False inv drained_iff_finished [OF inv] by (auto simp: io_idle_def main_inv_def hatch_inv_def)
      with main_step.cancel_signals [OF _ live] at show ?thesis
        by (intro exI [of _ "s\<lparr>wait_armed := False, cancel_run := True\<rparr>"]) (simp add: remaining_def)
    next
      case False
      then obtain r where "runner_step (sv_runner s) r" "stop_requested r" "runner_weight r < runner_weight (sv_runner s)"
        using runner_progress stop by blast
      with main_step.ingestion [OF _ live _ stop(2), of r] stop(1) at show ?thesis
        by (intro exI [of _ "s\<lparr>sv_runner := r\<rparr>"]) (simp add: remaining_def)
    qed
  qed
qed

definition progress_to :: "server_state \<Rightarrow> server_state \<Rightarrow> bool" where
  "progress_to s s' \<longleftrightarrow> (main_step s s' \<or> main_event s s') \<and> remaining s' < remaining s \<and> shutting_down s'
     \<and> io_stopped s' = io_stopped s"

lemma serving_progress:
  assumes "control_inv s" "shutting_down s" "main_at s = Serving"
  shows "\<exists>s'. progress_to s s'"
proof (cases "grpc_at s")
  case Accepting
  then show ?thesis using assms by (simp add: control_inv_def)
next
  case ShuttingDown
  with assms have "progress_to s (s\<lparr>grpc_at := Down\<rparr>)"
    by (simp add: progress_to_def remaining_def main_event.grpc_drained)
  then show ?thesis ..
next
  case Down
  with assms have "progress_to s (s\<lparr>main_at := JoiningGrpc\<rparr>)"
    by (simp add: progress_to_def remaining_def main_step.wait_returns)
  then show ?thesis ..
qed

lemma watchdog_progress:
  assumes "control_inv s" "shutting_down s" "main_at s = JoiningWatchdog"
  shows "\<exists>s'. progress_to s s'"
proof (cases "watchdog_at s")
  case NotStarted
  then show ?thesis using assms by (simp add: control_inv_def)
next
  case Watching
  with assms have "progress_to s (s\<lparr>watchdog_at := WatchdogEnded\<rparr>)"
    by (simp add: progress_to_def control_inv_def remaining_def main_step.watchdog_ends)
  then show ?thesis ..
next
  case WatchdogEnded
  with assms have "progress_to s (s\<lparr>main_at := JoiningHeartbeat, heartbeat_stop := True\<rparr>)"
    by (simp add: progress_to_def remaining_def main_step.watchdog_joined)
  then show ?thesis ..
qed

lemma heartbeat_progress:
  assumes "control_inv s" "shutting_down s" "main_at s = JoiningHeartbeat"
  shows "\<exists>s'. progress_to s s'"
proof (cases "heartbeat_running s")
  case True
  with assms have "progress_to s (s\<lparr>heartbeat_running := False\<rparr>)"
    by (simp add: progress_to_def control_inv_def remaining_def main_step.heartbeat_ends)
  then show ?thesis ..
next
  case False
  with assms have "progress_to s (s\<lparr>main_at := Returned0\<rparr>)"
    by (simp add: progress_to_def remaining_def main_step.heartbeat_joined)
  then show ?thesis ..
qed

lemma main_progress:
  assumes inv: "main_inv groups s" and sd: "shutting_down s" and at: "main_at s \<noteq> Returned0"
  shows "\<exists>s'. (main_step s s' \<or> main_event s s') \<and> remaining s' < remaining s \<and> shutting_down s'
    \<and> io_stopped s' = io_stopped s"
proof -
  have ctl: "control_inv s" using inv by (simp add: main_inv_def)
  have "\<exists>s'. progress_to s s'"
  proof (cases "main_at s")
    case JoiningGrpc
    then have "progress_to s (s\<lparr>main_at := StoppingIngestion\<rparr>)"
      using ctl sd by (simp add: progress_to_def control_inv_def remaining_def main_step.grpc_joined)
    then show ?thesis ..
  next
    case StoppingIngestion
    then have "watchdog_at s = NotStarted" using ctl by (simp add: control_inv_def)
    then have "progress_to s (s\<lparr>main_at := JoiningIo, watchdog_at := Watching, sv_runner := stop_all (sv_runner s)\<rparr>)"
      using StoppingIngestion sd main_step.stop_ingestion [of s]
      by (simp add: progress_to_def remaining_def runner_weight_def stop_all_def)
    then show ?thesis ..
  next
    case JoiningIo
    with io_progress [OF inv] sd show ?thesis by (auto simp: progress_to_def)
  qed (use at sd ctl serving_progress watchdog_progress heartbeat_progress in simp_all)
  then show ?thesis unfolding progress_to_def .
qed

lemma main_reaches_trans: "main_reaches b c \<Longrightarrow> main_reaches a b \<Longrightarrow> main_reaches a c"
  by (induction rule: main_reaches.induct) (auto intro: main_reaches.step main_reaches.event)

interpretation ending_main: finishing "\<lambda>s s'. main_step s s' \<or> main_event s s'"
    "\<lambda>s. main_inv groups s \<and> shutting_down s \<and> io_stopped s = b" "\<lambda>s. main_at s = Returned0" remaining
  for groups b
proof unfold_locales
  fix s
  assume s: "main_inv groups s \<and> shutting_down s \<and> io_stopped s = b" "main_at s \<noteq> Returned0"
  then obtain s' where "main_step s s' \<or> main_event s s'" "remaining s' < remaining s" "shutting_down s'"
    "io_stopped s' = b" using main_progress [of groups s] by metis
  moreover from this s have "main_inv groups s'" using main_step_inv main_event_inv by blast
  ultimately show "\<exists>s'. (main_step s s' \<or> main_event s s')
      \<and> (main_inv groups s' \<and> shutting_down s' \<and> io_stopped s' = b) \<and> remaining s' < remaining s"
    by blast
qed

lemma main_steps_reach: "(\<lambda>s s'. main_step s s' \<or> main_event s s')\<^sup>*\<^sup>* s s' \<Longrightarrow> main_reaches s s'"
  by (induction rule: rtranclp_induct) (auto intro: main_reaches.init main_reaches.step main_reaches.event)

lemma shutdown_completes:
  assumes "main_inv groups s" "shutting_down s"
  shows "\<exists>s'. main_reaches s s' \<and> main_at s' = Returned0 \<and> io_stopped s' = io_stopped s"
  using ending_main.reaches [of groups s "io_stopped s"] assms main_steps_reach by blast

section \<open>How the server ends\<close>

lemma withdrawn_when_finished:
  assumes "main_inv groups s" "all_finished (sv_runner s)" "rs \<in> set (rn_sessions (sv_runner s))"
  shows "snapshot_fetches (rs_session rs) = [] \<and> (\<forall>k. absent (rs_session rs) k)"
proof -
  obtain i where i: "i < length (rn_sessions (sv_runner s))" "rs = rn_sessions (sv_runner s) ! i"
    using assms(3) in_set_conv_nth by metis
  have "runner_inv groups (sv_runner s)" using assms(1) runner_reaches_inv by (simp add: main_inv_def)
  then have "\<exists>v syms reg. run_reaches (run_start v syms reg) rs"
    using i list_all2_nthD2 [of _ groups "rn_sessions (sv_runner s)" i]
    by (fastforce simp: runner_inv_def split: prod.splits)
  then have "run_inv rs" using run_reaches_inv run_start_inv by blast
  moreover have "rs_phase rs = Finished" using assms(2,3) by (simp add: all_finished_def list_all_iff)
  ultimately show ?thesis by (simp add: run_inv_def)
qed

text \<open>
  C16. The server stops in order. In every state a started server can reach: until the first
  signal it serves, with no session told to stop; it is ended by force only by a second signal; the
  wait for the second signal stays outstanding as long as some session has not finished (and is acted
  on while the event loop runs); and when \<^verbatim>\<open>main\<close> returns,
  gRPC is down, every thread (of the event loop, the watchdog, the heartbeat that uses the service)
  has ended and, unless the watchdog stopped the event loop, \<^verbatim>\<open>on_all_drained\<close> was called exactly
  once, every session has finished, none has a snapshot fetch left and no book shows its venue.
\<close>

theorem server_stops_in_order:
  assumes "start_server api config_json = Inr srv" "main_reaches (serving srv) s"
  shows "(\<not> shutdown_requested s \<longrightarrow> main_at s = Serving \<and> \<not> stop_requested (sv_runner s) \<and> grpc_at s = Accepting)
    \<and> (main_at s = ForcedExit \<longrightarrow> signals_heard s = 2)
    \<and> (\<not> all_finished (sv_runner s) \<longrightarrow> wait_armed s)
    \<and> (main_at s = Returned0 \<longrightarrow>
         grpc_at s = Down \<and> io_running s = 0 \<and> watchdog_at s = WatchdogEnded \<and> \<not> heartbeat_running s
         \<and> stop_requested (sv_runner s)
         \<and> (\<not> io_stopped s \<longrightarrow> rn_drained (sv_runner s) = 1 \<and> all_finished (sv_runner s)
              \<and> (\<forall>rs \<in> set (rn_sessions (sv_runner s)).
                   snapshot_fetches (rs_session rs) = [] \<and> (\<forall>k. absent (rs_session rs) k))))"
proof -
  obtain groups where g: "srv_runner srv = start_all (new_runner groups)" "groups \<noteq> []" "1 \<le> srv_io_threads srv"
    using wired_groups [OF assms(1)] by blast
  have inv: "main_inv groups s" by (rule main_reaches_inv [OF assms(2) serving_inv(1) [OF g]])
  then have ctl: "control_inv s" and hatch: "hatch_inv s" by (simp_all add: main_inv_def)
  note drained = drained_iff_finished [OF inv]
  have "main_at s = Serving \<and> \<not> stop_requested (sv_runner s) \<and> grpc_at s = Accepting" if "\<not> shutdown_requested s"
    using ctl that by (cases "main_at s") (auto simp: control_inv_def)
  moreover have "signals_heard s = 2" if "main_at s = ForcedExit" using ctl that by (simp add: control_inv_def)
  moreover have "wait_armed s" if "\<not> all_finished (sv_runner s)"
    using hatch drained that by (simp add: hatch_inv_def)
  moreover have "grpc_at s = Down \<and> io_running s = 0 \<and> watchdog_at s = WatchdogEnded \<and> \<not> heartbeat_running s
      \<and> stop_requested (sv_runner s)" if "main_at s = Returned0"
    using ctl that by (simp add: control_inv_def)
  moreover have "rn_drained (sv_runner s) = 1 \<and> all_finished (sv_runner s)"
    if "main_at s = Returned0" "\<not> io_stopped s"
    using returned_finished [OF inv that] drained by simp
  ultimately show ?thesis using withdrawn_when_finished [OF inv] by blast
qed

text \<open>A first signal, and the way to the end from there.\<close>

lemma signalled:
  assumes "start_server api config_json = Inr srv"
  shows "main_reaches (serving srv) (on_signal (serving srv))"
    and "\<exists>s. main_reaches (on_signal (serving srv)) s \<and> main_at s = Returned0 \<and> \<not> io_stopped s"
proof -
  obtain groups where g: "srv_runner srv = start_all (new_runner groups)" "groups \<noteq> []" "1 \<le> srv_io_threads srv"
    using wired_groups [OF assms] by blast
  have ev: "main_event (serving srv) (on_signal (serving srv))"
    using serving_inv(2) [OF g] by (intro main_event.signal) (simp_all add: serving_def)
  then show "main_reaches (serving srv) (on_signal (serving srv))" by (rule main_reaches.event [OF main_reaches.init])
  have "main_inv groups (on_signal (serving srv))" by (rule main_event_inv [OF ev serving_inv(1) [OF g]])
  then show "\<exists>s. main_reaches (on_signal (serving srv)) s \<and> main_at s = Returned0 \<and> \<not> io_stopped s"
    using shutdown_completes [of groups "on_signal (serving srv)"] by (simp add: on_signal_def serving_def)
qed

theorem server_stops_in_order_witness:
  "\<exists>srv s. start_server sample_api ''config'' = Inr srv \<and> main_reaches (serving srv) s \<and> main_at s = Returned0
     \<and> rn_drained (sv_runner s) = 1 \<and> all_finished (sv_runner s)"
proof -
  obtain srv where srv: "start_server sample_api ''config'' = Inr srv" using sample_server by blast
  obtain s where s: "main_reaches (serving srv) s" "main_at s = Returned0" "\<not> io_stopped s"
    using signalled [OF srv] main_reaches_trans by blast
  with server_stops_in_order [OF srv s(1)] srv show ?thesis by blast
qed

text \<open>
  C17. Shutdown comes to its end. From every state after the first signal that a started server
  can reach, short of a forced exit, \<^verbatim>\<open>main\<close> can still return, and it does not need the watchdog:
  there is a run to \<^verbatim>\<open>return 0\<close> in which the event loop is not stopped unless it had been, so that a
  regular shutdown ends with every session finished.
\<close>

theorem server_shutdown_completes:
  assumes "start_server api config_json = Inr srv" "main_reaches (serving srv) s"
    and "shutdown_requested s" "main_at s \<noteq> ForcedExit"
  shows "\<exists>s'. main_reaches s s' \<and> main_at s' = Returned0 \<and> io_stopped s' = io_stopped s
    \<and> (\<not> io_stopped s \<longrightarrow> all_finished (sv_runner s'))"
proof -
  obtain groups where g: "srv_runner srv = start_all (new_runner groups)" "groups \<noteq> []" "1 \<le> srv_io_threads srv"
    using wired_groups [OF assms(1)] by blast
  have inv: "main_inv groups s" by (rule main_reaches_inv [OF assms(2) serving_inv(1) [OF g]])
  then obtain s' where s': "main_reaches s s'" "main_at s' = Returned0" "io_stopped s' = io_stopped s"
    using shutdown_completes assms(3,4) by blast
  have "main_inv groups s'" by (rule main_reaches_inv [OF s'(1) inv])
  then have "all_finished (sv_runner s')" if "\<not> io_stopped s" using returned_finished s'(2,3) that by simp
  with s' show ?thesis by blast
qed

theorem server_shutdown_completes_witness:
  "\<exists>srv s. start_server sample_api ''config'' = Inr srv \<and> main_reaches (on_signal (serving srv)) s
     \<and> main_at s = Returned0 \<and> all_finished (sv_runner s)"
proof -
  obtain srv where srv: "start_server sample_api ''config'' = Inr srv" using sample_server by blast
  have "shutdown_requested (on_signal (serving srv))" "main_at (on_signal (serving srv)) \<noteq> ForcedExit"
    "\<not> io_stopped (on_signal (serving srv))" by (simp_all add: on_signal_def serving_def)
  with server_shutdown_completes [OF srv signalled(1) [OF srv]] srv show ?thesis by blast
qed

section \<open>What the watchdog leaves behind\<close>

lemma stopped_loop_freezes:
  "main_reaches s0 s \<Longrightarrow> io_stopped s0 \<Longrightarrow>
   io_stopped s \<and> rn_sessions (sv_runner s) = rn_sessions (sv_runner s0)
   \<and> rn_drained (sv_runner s) = rn_drained (sv_runner s0)"
proof (induction rule: main_reaches.induct)
  case (step s s')
  from step(2) step(3) [OF step(4)] show ?case
    by (induction rule: main_step.induct) (auto simp: stop_all_def loop_alive_def)
next
  case (event s s')
  from event(2) event(3) [OF event(4)] show ?case
    by (induction rule: main_event.induct) (auto simp: on_signal_def)
qed simp

text \<open>
  After the watchdog \<^verbatim>\<open>main\<close> returns with sessions alive. Every server that starts can reach
  its \<^verbatim>\<open>return 0\<close> without \<^verbatim>\<open>on_all_drained\<close> having been called and with a session that has not
  finished: when the watchdog stops the event loop, joining its threads no longer shows that
  every \<^verbatim>\<open>run()\<close> has ended.
\<close>

lemma forced_stop_leaves_sessions:
  assumes "start_server api config_json = Inr srv"
  shows "\<exists>s. main_reaches (serving srv) s \<and> main_at s = Returned0 \<and> rn_drained (sv_runner s) = 0
    \<and> (\<exists>rs \<in> set (rn_sessions (sv_runner s)). rs_phase rs \<noteq> Finished)"
proof -
  obtain groups where g: "srv_runner srv = start_all (new_runner groups)" "groups \<noteq> []" "1 \<le> srv_io_threads srv"
    using wired_groups [OF assms] by blast
  define s1 where "s1 = on_signal (serving srv)"
  define s2 where "s2 = s1\<lparr>grpc_at := Down\<rparr>"
  define s3 where "s3 = s2\<lparr>main_at := JoiningGrpc\<rparr>"
  define s4 where "s4 = s3\<lparr>main_at := StoppingIngestion\<rparr>"
  define s5 where "s5 = s4\<lparr>main_at := JoiningIo, watchdog_at := Watching, sv_runner := stop_all (sv_runner s4)\<rparr>"
  define s6 where "s6 = s5\<lparr>watchdog_at := WatchdogEnded, io_stopped := True\<rparr>"
  note defs = s6_def s5_def s4_def s3_def s2_def s1_def on_signal_def serving_def
  have "main_event s1 s2" unfolding s2_def by (rule main_event.grpc_drained) (simp_all add: defs)
  moreover have "main_step s2 s3" unfolding s3_def by (rule main_step.wait_returns) (simp_all add: defs)
  moreover have "main_step s3 s4" unfolding s4_def by (rule main_step.grpc_joined) (simp_all add: defs)
  moreover have "main_step s4 s5" unfolding s5_def by (rule main_step.stop_ingestion) (simp add: defs)
  moreover have "main_event s5 s6" unfolding s6_def by (rule main_event.watchdog_fires) (simp_all add: defs)
  moreover have "main_reaches (serving srv) s1" unfolding s1_def by (rule signalled(1) [OF assms])
  ultimately have s6: "main_reaches (serving srv) s6"
    by (metis main_reaches.step main_reaches.event)
  then have "main_inv groups s6" by (rule main_reaches_inv [OF _ serving_inv(1) [OF g]])
  moreover have "shutting_down s6" "io_stopped s6" by (simp_all add: defs)
  ultimately obtain s where s: "main_reaches s6 s" "main_at s = Returned0" using shutdown_completes by blast
  have "rn_drained (sv_runner s6) = 0" "rn_sessions (sv_runner s6) = map (\<lambda>(v, syms, reg). run_start v syms reg) groups"
    using g by (auto simp: defs stop_all_def start_all_def new_runner_def)
  with stopped_loop_freezes [OF s(1) \<open>io_stopped s6\<close>] have "rn_drained (sv_runner s) = 0"
    "rn_sessions (sv_runner s) = map (\<lambda>(v, syms, reg). run_start v syms reg) groups" by simp_all
  moreover from this g(2) have "\<exists>rs \<in> set (rn_sessions (sv_runner s)). rs_phase rs \<noteq> Finished"
    by (cases groups) (auto simp: run_start_def)
  ultimately show ?thesis using s main_reaches_trans [OF s(1) s6] by blast
qed

end
