(* ===== verification/Server_Main.thy ===== *)
theory Server_Main
  imports Server_Shutdown
begin

text \<open>
  The whole of \<^verbatim>\<open>main\<close> in \<^verbatim>\<open>apps/aggregator/server_main.cpp\<close>, from its arguments: what it prints,
  with which code it ends, and the server it runs otherwise. Reading a file and whether gRPC can
  listen on an address are parameters.
\<close>

section \<open>The code\<close>

datatype server_start = ServerExit int | ServerRuns string server

text \<open>\<^verbatim>\<open>fail_on_bad_venues\<close>, on venues that are not empty.\<close>

definition bad_venues_line :: "string list \<Rightarrow> string \<Rightarrow> string \<Rightarrow> string" where
  "bad_venues_line bad_venues what consequence =
     ''fatal: '' @ what @ '' names '' @ to_string (int (length bad_venues)) @ '' venue(s) '' @ consequence @ '':''
     @ concat (map (\<lambda>venue. '' '' @ venue) bad_venues)"

definition listening_line :: "string \<Rightarrow> server \<Rightarrow> string" where
  "listening_line address srv =
     ''hermeneutic_aggregator_service listening on '' @ address @ '' for ''
     @ to_string (int (length (srv_book_symbols srv))) @ '' book(s):''
     @ concat (map (\<lambda>i. '' '' @ book_id_to_string i) (srv_book_symbols srv))
     @ '', ingesting from'' @ concat (map (\<lambda>v. '' '' @ venue_id_to_string v) (map fst (srv_wiring srv)))"

definition server_usage :: string where
  "server_usage = ''usage: hermeneutic_aggregator_service [address] <subscription-config.json>''"

text \<open>The arguments are those after the program's name.\<close>

definition server_main ::
  "(string \<Rightarrow> string + string) \<Rightarrow> (string \<Rightarrow> bool) \<Rightarrow> 'v json_api \<Rightarrow> string list \<Rightarrow> string list \<times> server_start" where
  "server_main load_file listens api args =
     (let address = (if args \<noteq> [] then args ! 0 else ''0.0.0.0:50051'')
      in if length args \<le> 1 then ([server_usage], ServerExit 1)
         else case load_file (args ! 1) of
             Inl msg \<Rightarrow> ([''failed to read subscription config \"'' @ args ! 1 @ ''\": '' @ msg], ServerExit 1)
           | Inr config_json \<Rightarrow>
               (case start_server api config_json of
                  Inl (InvalidConfig e) \<Rightarrow> ([''invalid subscription config: '' @ e], ServerExit 1)
                | started \<Rightarrow>
                    if \<not> listens address then ([''failed to start aggregator service on '' @ address], ServerExit 1)
                    else (case started of
                        Inl (UnwiredVenues vs) \<Rightarrow>
                          ([bad_venues_line vs ''subscription config''
                              ''this binary has no wire_venue<>() call for (they would silently receive zero ingestion)''],
                           ServerExit 1)
                      | Inl (UnusedOverrides vs) \<Rightarrow>
                          ([bad_venues_line vs ''venue_idle_timeout_overrides''
                              ''not present in \"books\" (the override would silently do nothing)''],
                           ServerExit 1)
                      | Inr srv \<Rightarrow> ([listening_line address srv], ServerRuns address srv))))"

section \<open>When it runs\<close>

lemma orderly_end:
  assumes "start_server api config_json = Inr srv"
  shows "\<exists>s. main_reaches (serving srv) s \<and> main_at s = Returned0 \<and> all_finished (sv_runner s)"
proof -
  obtain groups where g: "srv_runner srv = start_all (new_runner groups)" "groups \<noteq> []" "1 \<le> srv_io_threads srv"
    using wired_groups [OF assms] by blast
  obtain s where s: "main_reaches (serving srv) s" "main_at s = Returned0" "\<not> io_stopped s"
    using signalled [OF assms] main_reaches_trans by blast
  have "main_inv groups s" by (rule main_reaches_inv [OF s(1) serving_inv(1) [OF g]])
  with s show ?thesis using returned_finished by blast
qed

lemma server_main_exit: "server_main load_file listens api args = (out, ServerExit n) \<Longrightarrow> n = 1 \<and> length out = 1"
  by (auto simp: server_main_def Let_def split: if_splits sum.splits startup_error.splits)

lemma server_main_runs:
  "server_main load_file listens api args = (out, ServerRuns address srv) \<longleftrightarrow>
     (\<exists>path rest config_json. args = address # path # rest \<and> load_file path = Inr config_json \<and> listens address
        \<and> start_server api config_json = Inr srv \<and> out = [listening_line address srv])"
proof (cases args)
  case Nil
  then show ?thesis by (simp add: server_main_def)
next
  case (Cons a as)
  then show ?thesis
    by (cases as) (auto simp: server_main_def Let_def split: sum.splits startup_error.splits)
qed

text \<open>What the line of a running server says, in terms of the configuration.\<close>

lemma wired_venue_order:
  "map fst (wire_venues (group_subscriptions ids subs) config)
     = filter (\<lambda>v. v \<in> sub_venue_id ` set subs) every_venue"
proof -
  have "group_subscriptions ids subs v \<noteq> None \<longleftrightarrow> v \<in> sub_venue_id ` set subs" for v
    using group_subscriptions_eq [of ids subs v] by (auto simp: subs_at_def filter_empty_conv image_iff)
  then have "filter (\<lambda>v. group_subscriptions ids subs v \<noteq> None) every_venue
      = filter (\<lambda>v. v \<in> sub_venue_id ` set subs) every_venue"
    by (intro filter_cong) simp_all
  then show ?thesis by (simp only: wire_venues_def foldl_wire_venue append_Nil map_map comp_def fst_conv map_ident)
qed

lemma started_names:
  assumes "start_server api config_json = Inr srv"
  obtains subs where "parse_book_subscriptions api config_json = Inr subs"
    "distinct (srv_book_symbols srv)" "set (srv_book_symbols srv) = sub_book_id ` set subs"
    "map fst (srv_wiring srv) = filter (\<lambda>v. v \<in> sub_venue_id ` set subs) every_venue"
proof -
  obtain subs config where "parse_book_subscriptions api config_json = Inr subs"
    "srv_book_symbols srv = book_symbols_of [] subs"
    "srv_wiring srv = wire_venues (group_subscriptions (book_symbols_of [] subs) subs) config"
    using assms by (auto simp: start_server_def build_server_def Let_def split: sum.splits if_splits)
  then show thesis using that book_symbols_of [of "[]" subs] wired_venue_order by simp
qed

text \<open>
  C18. The server runs exactly as it is configured to. It runs on an address exactly if that is the
  first argument, the second names a file that can be read, gRPC can listen on the address and the
  document in the file starts a server. Then it prints one line, with the address, the number of
  books, every book of a subscription of the document once, and every venue of one once, in the order of
  the \<^verbatim>\<open>wire_venue\<close> calls; and a signal can bring it to an orderly end. Otherwise it ends with code 1
  and one line: the usage text for too few arguments, also for a configuration alone, although that text marks
  the address as optional; the path and the reason for a file that cannot be read; the parser's
  message for a document that one of the three parsers refuses; the address gRPC cannot listen on; and
  never the complaint about a venue without a feed.
\<close>

theorem server_runs_exactly_as_configured:
  "((\<exists>out. server_main load_file listens api args = (out, ServerRuns address srv)) \<longleftrightarrow>
      (\<exists>path rest config_json. args = address # path # rest \<and> load_file path = Inr config_json \<and> listens address
         \<and> start_server api config_json = Inr srv))
   \<and> (server_main load_file listens api args = (out, ServerRuns address srv) \<longrightarrow>
        (\<exists>config_json subs. load_file (args ! 1) = Inr config_json \<and> parse_book_subscriptions api config_json = Inr subs
           \<and> distinct (srv_book_symbols srv) \<and> set (srv_book_symbols srv) = sub_book_id ` set subs
           \<and> out = [''hermeneutic_aggregator_service listening on '' @ address @ '' for ''
               @ to_string (int (card (sub_book_id ` set subs))) @ '' book(s):''
               @ concat (map (\<lambda>i. '' '' @ book_id_to_string i) (srv_book_symbols srv)) @ '', ingesting from''
               @ concat (map (\<lambda>v. '' '' @ venue_id_to_string v)
                   (filter (\<lambda>v. v \<in> sub_venue_id ` set subs) every_venue))])
        \<and> (\<exists>s. main_reaches (serving srv) s \<and> main_at s = Returned0 \<and> all_finished (sv_runner s)))
   \<and> (server_main load_file listens api args = (errs, ServerExit n) \<longrightarrow>
        n = 1 \<and> (\<exists>line. errs = [line] \<and> \<not> starts_with line ''fatal: subscription config''))
   \<and> (length args \<le> 1 \<longrightarrow> server_main load_file listens api args =
        ([''usage: hermeneutic_aggregator_service [address] <subscription-config.json>''], ServerExit 1))
   \<and> (\<forall>path rest. args = address # path # rest \<longrightarrow>
        (\<forall>msg. load_file path = Inl msg \<longrightarrow> server_main load_file listens api args =
           ([''failed to read subscription config \"'' @ path @ ''\": '' @ msg], ServerExit 1))
        \<and> (\<forall>config_json e. load_file path = Inr config_json
             \<and> (parse_book_subscriptions api config_json = Inl e
                \<or> is_ok (parse_book_subscriptions api config_json)
                  \<and> (parse_idle_timeout_config api config_json = Inl e
                     \<or> is_ok (parse_idle_timeout_config api config_json) \<and> parse_io_threads api config_json = Inl e)) \<longrightarrow>
           server_main load_file listens api args = ([''invalid subscription config: '' @ e], ServerExit 1))
        \<and> (\<forall>config_json srv. load_file path = Inr config_json \<and> start_server api config_json = Inr srv
             \<and> \<not> listens address \<longrightarrow>
           server_main load_file listens api args = ([''failed to start aggregator service on '' @ address], ServerExit 1)))"
proof (intro conjI impI)
  show "(\<exists>out. server_main load_file listens api args = (out, ServerRuns address srv)) \<longleftrightarrow>
      (\<exists>path rest config_json. args = address # path # rest \<and> load_file path = Inr config_json \<and> listens address
         \<and> start_server api config_json = Inr srv)"
    unfolding server_main_runs by blast
next
  assume "server_main load_file listens api args = (out, ServerRuns address srv)"
  then obtain path rest config_json where run: "args = address # path # rest" "load_file path = Inr config_json"
    "start_server api config_json = Inr srv" "out = [listening_line address srv]"
    unfolding server_main_runs by blast
  show "\<exists>s. main_reaches (serving srv) s \<and> main_at s = Returned0 \<and> all_finished (sv_runner s)"
    by (rule orderly_end [OF run(3)])
  obtain subs where subs: "parse_book_subscriptions api config_json = Inr subs"
    "distinct (srv_book_symbols srv)" "set (srv_book_symbols srv) = sub_book_id ` set subs"
    "map fst (srv_wiring srv) = filter (\<lambda>v. v \<in> sub_venue_id ` set subs) every_venue"
    by (rule started_names [OF run(3)])
  then have "length (srv_book_symbols srv) = card (sub_book_id ` set subs)" by (metis distinct_card)
  with run subs show "\<exists>config_json subs. load_file (args ! 1) = Inr config_json
      \<and> parse_book_subscriptions api config_json = Inr subs
      \<and> distinct (srv_book_symbols srv) \<and> set (srv_book_symbols srv) = sub_book_id ` set subs
      \<and> out = [''hermeneutic_aggregator_service listening on '' @ address @ '' for ''
          @ to_string (int (card (sub_book_id ` set subs))) @ '' book(s):''
          @ concat (map (\<lambda>i. '' '' @ book_id_to_string i) (srv_book_symbols srv)) @ '', ingesting from''
          @ concat (map (\<lambda>v. '' '' @ venue_id_to_string v)
              (filter (\<lambda>v. v \<in> sub_venue_id ` set subs) every_venue))]"
    by (intro exI [of _ config_json] exI [of _ subs])
      (simp add: listening_line_def del: filter.simps)
next
  assume e: "server_main load_file listens api args = (errs, ServerExit n)"
  show "n = 1" using server_main_exit [OF e] by simp
  show "\<exists>line. errs = [line] \<and> \<not> starts_with line ''fatal: subscription config''"
    using e never_unwired [of api]
    by (auto simp: server_main_def Let_def server_usage_def bad_venues_line_def starts_with_def
        split: if_splits sum.splits startup_error.splits)
qed (auto simp: server_main_def server_usage_def start_server_def)

theorem server_runs_exactly_as_configured_witness:
  "\<exists>out srv. server_main (\<lambda>path. Inr ''config'') (\<lambda>address. True) sample_api [''0.0.0.0:50051'', ''books.json'']
       = (out, ServerRuns ''0.0.0.0:50051'' srv)
     \<and> (\<exists>s. main_reaches (serving srv) s \<and> main_at s = Returned0 \<and> all_finished (sv_runner s))"
proof -
  obtain srv where srv: "start_server sample_api ''config'' = Inr srv" using sample_server by blast
  have runs: "server_main (\<lambda>path. Inr ''config'') (\<lambda>address. True) sample_api [''0.0.0.0:50051'', ''books.json'']
      = ([listening_line ''0.0.0.0:50051'' srv], ServerRuns ''0.0.0.0:50051'' srv)"
    by (simp add: server_main_def srv Let_def)
  from server_runs_exactly_as_configured [THEN conjunct2, THEN conjunct1, THEN mp, OF runs] runs
  show ?thesis by metis
qed

end
