(* ===== verification/Net_Client.thy ===== *)
theory Net_Client
  imports Book_Subscription
begin

text \<open>
  \<^verbatim>\<open>net/net_traits.hpp\<close>, \<^verbatim>\<open>net/http_client.hpp\<close> and \<^verbatim>\<open>net/websocket_connection.hpp\<close>: the HTTP GET
  and the WebSocket connection. The sockets, TLS, HTTP and WebSocket of Boost and OpenSSL are a
  parameter: what they are asked is recorded as a list of calls, and a \<open>network\<close> decides, from all
  calls so far, whether the last one completes and what it returns. Nothing is assumed of it.
\<close>

section \<open>The code: calls\<close>

text \<open>The stream types the templates are instantiated with, and the trait that tells them apart.\<close>

datatype next_layer = TcpStream | SslStream next_layer

fun is_ssl_stream :: "next_layer \<Rightarrow> bool" where
  "is_ssl_stream (SslStream t) \<longleftrightarrow> True"
| "is_ssl_stream TcpStream \<longleftrightarrow> False"

record http_request =
  http_target :: string
  http_version :: nat
  http_host :: string
  http_user_agent :: string

record http_response =
  http_result :: nat
  http_body :: string

datatype io_call =
    Resolve string string
  | ExpiresAfter nat
  | TcpConnect
  | SetTlsHostName string
  | TlsHandshake
  | HttpWrite http_request
  | HttpRead
  | TlsShutdown
  | SocketShutdown
  | ExpiresNever
  | SetTimeout int bool
  | WsHandshake string string
  | WsWrite string
  | WsRead
  | WsClose
  | TimerWait int

text \<open>
  The libraries, on the calls made so far with the last one pending; \<open>stop_seen\<close> is the flag
  \<^verbatim>\<open>stopping_\<close> of the session as its fetch reads it after those calls, \<open>jitter\<close> the random number
  drawn then, up to its first argument.
\<close>

record network =
  completes :: "io_call list \<Rightarrow> bool"
  response_read :: "io_call list \<Rightarrow> http_response"
  message_read :: "io_call list \<Rightarrow> string"
  stop_seen :: "io_call list \<Rightarrow> bool"
  jitter :: "int \<Rightarrow> io_call list \<Rightarrow> int"

datatype failure = Exception | AssertionFailed

type_synonym 'a io = "network \<Rightarrow> io_call list \<Rightarrow> (failure + 'a) \<times> io_call list"

definition co_return :: "'a \<Rightarrow> 'a io" where
  "co_return x net h = (Inr x, h)"

text \<open>Statements in sequence: a failure skips the rest.\<close>

definition await :: "'a io \<Rightarrow> ('a \<Rightarrow> 'b io) \<Rightarrow> 'b io" where
  "await m k net h = (case m net h of (Inl e, h') \<Rightarrow> (Inl e, h') | (Inr x, h') \<Rightarrow> k x net h')"

text \<open>A call that cannot fail, one whose failure is thrown, and one that returns whether it succeeded.\<close>

definition issue :: "io_call \<Rightarrow> unit io" where
  "issue c net h = (Inr (), h @ [c])"

definition async :: "io_call \<Rightarrow> unit io" where
  "async c net h = (if completes net (h @ [c]) then Inr () else Inl Exception, h @ [c])"

definition succeeds :: "io_call \<Rightarrow> bool io" where
  "succeeds c net h = (Inr (completes net (h @ [c])), h @ [c])"

definition assertion :: "bool \<Rightarrow> unit io" where
  "assertion b net h = (if b then Inr () else Inl AssertionFailed, h)"

definition throw :: "'a io" where
  "throw net h = (Inl Exception, h)"

text \<open>\<^verbatim>\<open>catch (const std::exception&)\<close> around a body with a result.\<close>

definition catch_exception :: "'a io \<Rightarrow> 'a io \<Rightarrow> 'a io" where
  "catch_exception m handler net h =
     (case m net h of (Inl Exception, h') \<Rightarrow> handler net h' | r \<Rightarrow> r)"

section \<open>The code: HTTP\<close>

definition get_request :: "string \<Rightarrow> string \<Rightarrow> http_request" where
  "get_request host target =
     \<lparr>http_target = target, http_version = 11, http_host = host, http_user_agent = ''hermeneutic-ingestion''\<rparr>"

definition http_async_read :: "http_response io" where
  "http_async_read = await (async HttpRead) (\<lambda>_ net h. (Inr (response_read net h), h))"

definition http_exchange :: "next_layer \<Rightarrow> string \<Rightarrow> string \<Rightarrow> string expected io" where
  "http_exchange layer host target =
     await (async (HttpWrite (get_request host target))) (\<lambda>_.
     await http_async_read (\<lambda>response.
     await (succeeds (if is_ssl_stream layer then TlsShutdown else SocketShutdown)) (\<lambda>shutdown_ec.
     if http_result response \<noteq> 200 then co_return (Inl io_error) else co_return (Inr (http_body response)))))"

definition http_get :: "next_layer \<Rightarrow> string \<Rightarrow> string \<Rightarrow> string \<Rightarrow> string expected io" where
  "http_get layer host port target = catch_exception
     (await (async (Resolve host port)) (\<lambda>_.
      await (issue (ExpiresAfter 10)) (\<lambda>_.
      await (async TcpConnect) (\<lambda>_.
      if is_ssl_stream layer
      then await (succeeds (SetTlsHostName host)) (\<lambda>sni.
           if \<not> sni then co_return (Inl io_error)
           else await (async TlsHandshake) (\<lambda>_. http_exchange layer host target))
      else http_exchange layer host target))))
     (co_return (Inl io_error))"

section \<open>The code: WebSocket\<close>

definition ws_upgrade :: "string \<Rightarrow> string \<Rightarrow> int \<Rightarrow> unit io" where
  "ws_upgrade host target idle_timeout =
     await (issue ExpiresNever) (\<lambda>_.
     await (issue (SetTimeout idle_timeout True)) (\<lambda>_.
     async (WsHandshake host target)))"

definition ws_connect :: "next_layer \<Rightarrow> string \<Rightarrow> string \<Rightarrow> string \<Rightarrow> int \<Rightarrow> unit io" where
  "ws_connect layer host port target idle_timeout =
     await (assertion (idle_timeout > 0 \<and> idle_timeout \<le> kMaxIdleTimeout)) (\<lambda>_.
     await (async (Resolve host port)) (\<lambda>_.
     await (issue (ExpiresAfter 30)) (\<lambda>_.
     await (async TcpConnect) (\<lambda>_.
     if is_ssl_stream layer
     then await (succeeds (SetTlsHostName host)) (\<lambda>sni.
          if \<not> sni then throw
          else await (async TlsHandshake) (\<lambda>_. ws_upgrade host target idle_timeout))
     else ws_upgrade host target idle_timeout))))"

definition ws_send :: "string \<Rightarrow> unit io" where
  "ws_send message = async (WsWrite message)"

definition ws_read :: "string io" where
  "ws_read = await (async WsRead) (\<lambda>_ net h. (Inr (message_read net h), h))"

definition ws_close :: "unit io" where
  "ws_close = async WsClose"

section \<open>The protocol\<close>

text \<open>
  The calls of an undisturbed exchange, in order, and how far a network lets a list of calls come:
  the first required call that fails is the last one made.
\<close>

fun must_complete :: "io_call \<Rightarrow> bool" where
  "must_complete (ExpiresAfter n) = False"
| "must_complete ExpiresNever = False"
| "must_complete (SetTimeout t k) = False"
| "must_complete TlsShutdown = False"
| "must_complete SocketShutdown = False"
| "must_complete _ = True"

fun run_calls :: "network \<Rightarrow> io_call list \<Rightarrow> io_call list \<Rightarrow> bool \<times> io_call list" where
  "run_calls net h [] = (True, h)"
| "run_calls net h (c # cs) =
     (if must_complete c \<and> \<not> completes net (h @ [c]) then (False, h @ [c]) else run_calls net (h @ [c]) cs)"

definition tls_calls :: "next_layer \<Rightarrow> string \<Rightarrow> io_call list" where
  "tls_calls layer host = (if is_ssl_stream layer then [SetTlsHostName host, TlsHandshake] else [])"

definition http_request_calls :: "next_layer \<Rightarrow> string \<Rightarrow> string \<Rightarrow> string \<Rightarrow> io_call list" where
  "http_request_calls layer host port target =
     [Resolve host port, ExpiresAfter 10, TcpConnect] @ tls_calls layer host
     @ [HttpWrite \<lparr>http_target = target, http_version = 11, http_host = host,
                   http_user_agent = ''hermeneutic-ingestion''\<rparr>, HttpRead]"

definition shutdown_call :: "next_layer \<Rightarrow> io_call" where
  "shutdown_call layer = (if is_ssl_stream layer then TlsShutdown else SocketShutdown)"

definition ws_connect_calls :: "next_layer \<Rightarrow> string \<Rightarrow> string \<Rightarrow> string \<Rightarrow> int \<Rightarrow> io_call list" where
  "ws_connect_calls layer host port target idle_timeout =
     [Resolve host port, ExpiresAfter 30, TcpConnect] @ tls_calls layer host
     @ [ExpiresNever, SetTimeout idle_timeout True, WsHandshake host target]"

lemma run_calls_ok: "fst (run_calls net h cs) \<Longrightarrow> snd (run_calls net h cs) = h @ cs"
  by (induction cs arbitrary: h) (auto split: if_splits)

lemma run_calls_prefix: "\<exists>ds es. snd (run_calls net h cs) = h @ ds \<and> cs = ds @ es"
proof (induction cs arbitrary: h)
  case (Cons c cs)
  show ?case
  proof (cases "must_complete c \<and> \<not> completes net (h @ [c])")
    case True
    then show ?thesis by (intro exI [of _ "[c]"] exI [of _ cs]) simp
  next
    case False
    obtain ds es where "snd (run_calls net (h @ [c]) cs) = (h @ [c]) @ ds" "cs = ds @ es" using Cons.IH by blast
    with False show ?thesis by (intro exI [of _ "c # ds"] exI [of _ es]) auto
  qed
qed simp

lemma run_calls_longer: "cs \<noteq> [] \<Longrightarrow> length h < length (snd (run_calls net h cs))"
proof -
  assume "cs \<noteq> []"
  then obtain c ds where "cs = c # ds" by (cases cs) auto
  moreover obtain es where "snd (run_calls net (h @ [c]) ds) = (h @ [c]) @ es" using run_calls_prefix by blast
  ultimately show ?thesis by simp
qed

lemmas io_defs = await_def co_return_def issue_def async_def succeeds_def assertion_def throw_def catch_exception_def
lemmas call_defs = tls_calls_def http_request_calls_def shutdown_call_def ws_connect_calls_def

lemma http_get_eq:
  "http_get layer host port target net h =
     (let (ok, h') = run_calls net h (http_request_calls layer host port target);
          response = response_read net h'
      in if \<not> ok then (Inr (Inl io_error), h')
         else (Inr (if http_result response = 200 then Inr (http_body response) else Inl io_error),
               h' @ [shutdown_call layer]))"
  by (simp add: http_get_def http_exchange_def http_async_read_def get_request_def io_defs call_defs Let_def)

lemma ws_connect_eq:
  assumes "0 < idle_timeout" "idle_timeout \<le> kMaxIdleTimeout"
  shows "ws_connect layer host port target idle_timeout net h =
     (let (ok, h') = run_calls net h (ws_connect_calls layer host port target idle_timeout)
      in (if ok then Inr () else Inl Exception, h'))"
  using assms by (simp add: ws_connect_def ws_upgrade_def io_defs call_defs)

section \<open>The GET\<close>

lemma http_get_cases:
  obtains (body) body g where "http_get layer host port target net h = (Inr (Inr body), g @ [shutdown_call layer])"
      "g = h @ http_request_calls layer host port target" "response_read net g = \<lparr>http_result = 200, http_body = body\<rparr>"
      "fst (run_calls net h (http_request_calls layer host port target))"
  | (failed) ds es where "http_get layer host port target net h = (Inr (Inl io_error), h @ ds)" "ds \<noteq> []"
      "ds @ es = http_request_calls layer host port target @ [shutdown_call layer]"
      "\<not> (fst (run_calls net h (http_request_calls layer host port target))
          \<and> http_result (response_read net (h @ http_request_calls layer host port target)) = 200)"
proof -
  define cs where "cs = http_request_calls layer host port target"
  have ne: "cs \<noteq> []" by (simp add: cs_def call_defs)
  show thesis
  proof (cases "fst (run_calls net h cs)")
    case True
    then have "run_calls net h cs = (True, h @ cs)" using run_calls_ok by (metis prod.collapse)
    then have eq: "http_get layer host port target net h =
        (Inr (if http_result (response_read net (h @ cs)) = 200 then Inr (http_body (response_read net (h @ cs)))
              else Inl io_error), h @ cs @ [shutdown_call layer])"
      by (simp add: http_get_eq cs_def)
    show thesis
    proof (cases "http_result (response_read net (h @ cs)) = 200")
      case True
      with body [of "http_body (response_read net (h @ cs))" "h @ cs"] eq \<open>fst _\<close> show thesis by (simp add: cs_def)
    next
      case False
      with failed [of "cs @ [shutdown_call layer]" "[]"] eq show thesis by (simp add: cs_def)
    qed
  next
    case False
    obtain ds es where d: "snd (run_calls net h cs) = h @ ds" "cs = ds @ es" using run_calls_prefix by blast
    moreover have "ds \<noteq> []" using run_calls_longer [OF ne, of h net] d(1) by auto
    moreover from d False have "http_get layer host port target net h = (Inr (Inl io_error), h @ ds)"
      by (simp add: http_get_eq cs_def [symmetric] split_beta)
    ultimately show thesis using failed [of ds "es @ [shutdown_call layer]"] False by (simp add: cs_def)
  qed
qed

text \<open>No call that has to complete fails; the calls before the first that does, and that one.\<close>

fun all_complete :: "network \<Rightarrow> io_call list \<Rightarrow> io_call list \<Rightarrow> bool" where
  "all_complete net h [] \<longleftrightarrow> True"
| "all_complete net h (c # cs) \<longleftrightarrow> (must_complete c \<longrightarrow> completes net (h @ [c])) \<and> all_complete net (h @ [c]) cs"

lemma run_calls_all: "fst (run_calls net h cs) \<longleftrightarrow> all_complete net h cs"
  by (induction cs arbitrary: h) simp_all

lemma run_calls_first_failure:
  "\<not> all_complete net h cs \<Longrightarrow>
   \<exists>made c rest. cs = made @ c # rest \<and> all_complete net h made \<and> must_complete c \<and> \<not> completes net (h @ made @ [c])
     \<and> run_calls net h cs = (False, h @ made @ [c])"
proof (induction cs arbitrary: h)
  case (Cons c cs)
  show ?case
  proof (cases "must_complete c \<and> \<not> completes net (h @ [c])")
    case True
    then show ?thesis by (intro exI [of _ "[]"] exI [of _ c] exI [of _ cs]) simp
  next
    case False
    with Cons.prems have "\<not> all_complete net (h @ [c]) cs" by auto
    from Cons.IH [OF this] obtain made d rest where
      "cs = made @ d # rest" "all_complete net (h @ [c]) made" "must_complete d"
      "\<not> completes net ((h @ [c]) @ made @ [d])" "run_calls net (h @ [c]) cs = (False, (h @ [c]) @ made @ [d])" by blast
    with False show ?thesis by (intro exI [of _ "c # made"] exI [of _ d] exI [of _ rest]) auto
  qed
qed simp

text \<open>
  C15. The HTTP GET reports every failure as a value and follows the protocol. Whatever the network
  does, it throws nothing. If every call up to the response that has to complete does, it makes exactly
  the calls of the protocol in their order (the name, the deadline, the connection, for TLS the host
  name and then the handshake, the request, the response) and then the shutdown, whatever becomes of
  that, and its result is the body of the response if the status is 200 and \<^verbatim>\<open>io_error\<close> otherwise. If
  not, the first call that fails is the last one it makes, and the result is \<^verbatim>\<open>io_error\<close>.
\<close>

theorem http_get_reports_every_failure:
  "let cs = http_request_calls layer host port target; response = response_read net (h @ cs)
   in if all_complete net h cs
      then http_get layer host port target net h =
        (Inr (if http_result response = 200 then Inr (http_body response) else Inl io_error), h @ cs @ [shutdown_call layer])
      else \<exists>made c rest. cs = made @ c # rest \<and> all_complete net h made \<and> must_complete c
        \<and> \<not> completes net (h @ made @ [c])
        \<and> http_get layer host port target net h = (Inr (Inl io_error), h @ made @ [c])"
proof -
  define cs where "cs = http_request_calls layer host port target"
  show ?thesis
  proof (cases "all_complete net h cs")
    case True
    then have "run_calls net h cs = (True, h @ cs)" using run_calls_ok run_calls_all by (metis prod.collapse)
    with True show ?thesis by (simp add: http_get_eq flip: cs_def)
  next
    case False
    from run_calls_first_failure [OF this] obtain made c rest where
      "cs = made @ c # rest" "all_complete net h made" "must_complete c" "\<not> completes net (h @ made @ [c])"
      "run_calls net h cs = (False, h @ made @ [c])" by blast
    with False show ?thesis unfolding cs_def [symmetric] Let_def by (auto simp: http_get_eq simp flip: cs_def)
  qed
qed

end
