(* ===== verification/Session_Wire.thy ===== *)
theory Session_Wire
  imports Net_Client Server_Wiring
begin

text \<open>
  How a \<^verbatim>\<open>VenueSession\<close> uses the network and its feed: one attempt to connect, one message read, and
  the fetch of a snapshot with its retries (\<^verbatim>\<open>run\<close>, \<^verbatim>\<open>fetch\<close>, \<^verbatim>\<open>backoff\<close> and
  \<^verbatim>\<open>handle_request_snapshot\<close> of \<^verbatim>\<open>ingestion/venue_session.hpp\<close>). Each is shown to be a step of
  \<open>run_step\<close>, so what is proved of the life of a session, of the runner and of the server holds of
  sessions on a real wire.
\<close>

section \<open>The code\<close>

text \<open>One turn of the outer loop: \<^verbatim>\<open>None\<close> is the failed assertion of \<^verbatim>\<open>connect\<close>.\<close>

definition connect_session ::
  "next_layer \<Rightarrow> 'v feed \<Rightarrow> native_symbol list \<Rightarrow> int \<Rightarrow> u64 \<times> u64 \<Rightarrow> int \<Rightarrow> network
     \<Rightarrow> run_state \<times> io_call list \<Rightarrow> (run_state \<times> io_call list) option" where
  "connect_session layer feed symbols idle_timeout clock now net st =
     (case st of (rs, h) \<Rightarrow>
        (case await (ws_connect layer (ws_host feed) (ws_port feed) (ws_target feed) idle_timeout)
                (\<lambda>_. ws_send (subscribe_message feed symbols)) net h of
           (Inl AssertionFailed, h') \<Rightarrow> None
         | (Inl Exception, h') \<Rightarrow> Some (leave clock now (rs_session rs) rs, h')
         | (Inr _, h') \<Rightarrow>
             Some (rs\<lparr>rs_session := connected (symbol_book_ops clock) (rs_session rs),
                      rs_phase := Reading, rs_connected_at := Some now\<rparr>, h')))"

text \<open>One turn of the inner loop.\<close>

definition read_message ::
  "'v json_api \<Rightarrow> 'v feed \<Rightarrow> u64 \<times> u64 \<Rightarrow> int \<Rightarrow> network \<Rightarrow> run_state \<times> io_call list \<Rightarrow> run_state \<times> io_call list" where
  "read_message api feed clock now net st =
     (case st of (rs, h) \<Rightarrow>
        (case ws_read net h of
           (Inl e, h') \<Rightarrow> (leave clock now (rs_session rs) rs, h')
         | (Inr text_read, h') \<Rightarrow>
             (case parse_message feed api text_read of
                Inl e \<Rightarrow> (rs, h')
              | Inr None \<Rightarrow> (rs, h')
              | Inr (Some (Inl snapshot)) \<Rightarrow>
                  (dispatched clock now (dispatch_snapshot (symbol_book_ops clock) snapshot (rs_session rs)) rs, h')
              | Inr (Some (Inr update)) \<Rightarrow>
                  (dispatched clock now (dispatch_depth_update (symbol_book_ops clock) update (rs_session rs)) rs, h'))))"

text \<open>The timer of \<^verbatim>\<open>backoff(attempt)\<close>.\<close>

definition backoff :: "int \<Rightarrow> unit io" where
  "backoff n net h =
     (let base_ms = backoff_base_ms n
     in async (TimerWait (base_ms + jitter net (base_ms sdiv 5) h)) net h)"

datatype fetch_end = FetchStopped | FetchThrew | FetchedBody string

text \<open>The retries, by the number of failures; \<^verbatim>\<open>None\<close>: they go on for ever.\<close>

partial_function (option) fetch_loop ::
  "next_layer \<Rightarrow> http_request_spec \<Rightarrow> network \<Rightarrow> int \<Rightarrow> io_call list \<Rightarrow> (fetch_end \<times> io_call list) option" where
  "fetch_loop layer spec net n h =
     (if stop_seen net h then Some (FetchStopped, h)
      else case http_get layer (req_host spec) (req_port spec) (req_target spec) net h of
          (Inl e, h') \<Rightarrow> Some (FetchThrew, h')
        | (Inr (Inr body), h') \<Rightarrow> Some (FetchedBody body, h')
        | (Inr (Inl e), h') \<Rightarrow>
            (case backoff n net h' of
               (Inl e, h'') \<Rightarrow> Some (FetchThrew, h'')
             | (Inr _, h'') \<Rightarrow> fetch_loop layer spec net (n + 1) h''))"

text \<open>
  \<^verbatim>\<open>handle_request_snapshot\<close> up to its use of the session: the snapshot, if there is one to
  give to \<open>snapshot_fetched\<close>.
\<close>

definition fetch_snapshot ::
  "'v json_api \<Rightarrow> next_layer \<Rightarrow> 'v feed \<Rightarrow> native_symbol \<Rightarrow> network \<Rightarrow> io_call list
     \<Rightarrow> (snapshot_message option \<times> io_call list) option" where
  "fetch_snapshot api layer feed symbol net h =
     (case (snapshot_request feed, parse_response feed) of
        (Some request, Some parse) \<Rightarrow>
          (case fetch_loop layer (request symbol) net 0 h of
             None \<Rightarrow> None
           | Some (FetchedBody body, h') \<Rightarrow>
               Some (case parse api symbol body of Inl e \<Rightarrow> None | Inr snapshot \<Rightarrow> Some snapshot, h')
           | Some (_, h') \<Rightarrow> Some (None, h'))
      | _ \<Rightarrow> Some (None, h))"

section \<open>The wire refines the life of a session\<close>

lemma connect_session_step:
  assumes "rs_phase rs = Connecting" "0 < idle_timeout" "idle_timeout \<le> kMaxIdleTimeout"
  shows "\<exists>rs' h'. connect_session layer feed symbols idle_timeout clock now net (rs, h) = Some (rs', h') \<and> run_step rs rs'"
  using run_step.connect_failed [OF assms(1)] run_step.connected [OF assms(1)]
  by (auto simp: connect_session_def await_def ws_send_def async_def ws_connect_eq [OF assms(2,3)] Let_def
      split: prod.split)

lemma read_message_step:
  assumes "rs_phase rs = Reading"
  shows "fst (read_message api feed clock now net (rs, h)) = rs
    \<or> run_step rs (fst (read_message api feed clock now net (rs, h)))"
  using run_step.read_failed [OF assms] run_step.snapshot [OF assms] run_step.depth_update [OF assms]
  by (auto simp: read_message_def split: prod.split sum.split option.split)

lemma leave_not_reading: "rs_phase (leave clock now ses rs) \<noteq> Reading"
  by (simp add: leave_def Let_def)

lemma connect_session_reads:
  fixes feed :: "'v feed" and layer host port target t symbols
  assumes "0 < t" "t \<le> kMaxIdleTimeout"
    and "connect_session layer feed symbols t clock now net (rs, h) = Some (rs', h')"
  defines "cs \<equiv> ws_connect_calls layer (ws_host feed) (ws_port feed) (ws_target feed) t
    @ [WsWrite (subscribe_message feed symbols)]"
  shows "h' = snd (run_calls net h cs) \<and> (rs_phase rs' = Reading \<longleftrightarrow> fst (run_calls net h cs))"
proof -
  have "run_calls net h (ds @ [WsWrite m]) =
      (case run_calls net h ds of (ok, g) \<Rightarrow> if ok then (completes net (g @ [WsWrite m]), g @ [WsWrite m]) else (ok, g))"
    for ds m by (induction ds arbitrary: h) auto
  then show ?thesis
    using assms(3)
    by (auto simp: cs_def leave_not_reading connect_session_def await_def ws_send_def async_def ws_connect_eq [OF assms(1,2)] Let_def
        split: prod.splits if_splits)
qed

lemma wired_timeouts:
  assumes "start_server api config_json = Inr srv" "(v, syms, reg, t) \<in> set (srv_wiring srv)"
  shows "0 < t" "t \<le> kMaxIdleTimeout"
proof -
  obtain subs config where parsed: "parse_idle_timeout_config api config_json = Inr config"
    and srv: "srv_wiring srv = wire_venues (group_subscriptions (srv_book_symbols srv) subs) config"
    using assms(1) by (auto simp: start_server_def build_server_def Let_def split: sum.splits if_splits)
  have "t = for_venue config v" using assms(2) wire_venues_timeout unfolding srv by blast
  moreover have "1 \<le> for_venue config v \<and> for_venue config v \<le> kMaxIdleTimeout"
    using parse_idle_timeout_ok [OF parsed] by (simp add: timeouts_ok_def)
  ultimately show "0 < t" "t \<le> kMaxIdleTimeout" by simp_all
qed

text \<open>
  C13. The sessions of a started server behave on the wire as their life is modelled. Take a session of
  a server that started, in any state it can reach, and any network. Connecting never fails the
  assertion on the timeout; it makes the calls of the protocol in order up to the first that fails
  (for TLS the host name before the handshake, the deadline of the TCP phase lifted and the
  configured idle timeout with pings set before the upgrade, then the subscription of exactly the
  venue's symbols) and the session reads on exactly if all of them completed. What it does then
  (connected or left, a message read and dispatched, a message skipped, a fetched snapshot
  taken) leads to a state that the life of the session can reach.
\<close>

theorem wire_refines_run:
  fixes json :: "'v json_api" and v :: venue_id
  assumes "start_server api config_json = Inr srv" "(v, syms, reg, t) \<in> set (srv_wiring srv)"
    and "run_reaches (run_start v syms reg) rs"
  defines "f \<equiv> venue_feed v :: 'v feed"
  defines "cs \<equiv> [Resolve (ws_host f) (ws_port f), ExpiresAfter 30, TcpConnect, SetTlsHostName (ws_host f), TlsHandshake,
      ExpiresNever, SetTimeout t True, WsHandshake (ws_host f) (ws_target f), WsWrite (subscribe_message f syms)]"
  shows "(rs_phase rs = Connecting \<longrightarrow>
       (\<exists>rs' h'. connect_session (SslStream TcpStream) f syms t clock now net (rs, h) = Some (rs', h')
          \<and> run_reaches (run_start v syms reg) rs' \<and> h' = snd (run_calls net h cs)
          \<and> (rs_phase rs' = Reading \<longleftrightarrow> fst (run_calls net h cs))))
    \<and> (rs_phase rs = Reading \<longrightarrow>
         run_reaches (run_start v syms reg) (fst (read_message json f clock now net (rs, h))))
    \<and> (\<forall>symbol \<in> set (snapshot_fetches (rs_session rs)). \<forall>response h'.
         fetch_snapshot json (SslStream TcpStream) f symbol net h = Some (response, h') \<longrightarrow>
         run_reaches (run_start v syms reg)
           (rs\<lparr>rs_session := snd (snapshot_fetched (symbol_book_ops clock) symbol response (rs_session rs))\<rparr>))"
proof -
  note t = wired_timeouts [OF assms(1,2)]
  have cs: "ws_connect_calls (SslStream TcpStream) (ws_host f) (ws_port f) (ws_target f) t @ [WsWrite (subscribe_message f syms)]
      = cs" by (simp add: cs_def call_defs)
  have "\<exists>rs' h'. connect_session (SslStream TcpStream) f syms t clock now net (rs, h) = Some (rs', h')
      \<and> run_reaches (run_start v syms reg) rs' \<and> h' = snd (run_calls net h cs)
      \<and> (rs_phase rs' = Reading \<longleftrightarrow> fst (run_calls net h cs))" if c: "rs_phase rs = Connecting"
  proof -
    obtain rs' h' where st: "connect_session (SslStream TcpStream) f syms t clock now net (rs, h) = Some (rs', h')"
      "run_step rs rs'" using connect_session_step [OF c t] by blast
    with connect_session_reads [OF t st(1)] run_reaches.step [OF assms(3) st(2)] show ?thesis unfolding cs by blast
  qed
  moreover have "run_reaches (run_start v syms reg) (fst (read_message json f clock now net (rs, h)))"
    if "rs_phase rs = Reading"
    using read_message_step [OF that, of json f clock now net h] assms(3) run_reaches.step by metis
  moreover have "run_reaches (run_start v syms reg)
      (rs\<lparr>rs_session := snd (snapshot_fetched (symbol_book_ops clock) symbol response (rs_session rs))\<rparr>)"
    if "symbol \<in> set (snapshot_fetches (rs_session rs))" for symbol response
    using run_reaches.step [OF assms(3) run_step.fetched [OF that]] .
  ultimately show ?thesis by blast
qed

text \<open>A network on which every call completes, and a session about to connect.\<close>

definition sample_network :: network where
  "sample_network = \<lparr>completes = (\<lambda>h. True), response_read = (\<lambda>h. \<lparr>http_result = 200, http_body = ''{}''\<rparr>),
     message_read = (\<lambda>h. ''pong''), stop_seen = (\<lambda>h. False), jitter = (\<lambda>b h. 0)\<rparr>"

lemma sample_connecting:
  "\<exists>rs. run_reaches (run_start v syms reg) rs \<and> rs_phase rs = Connecting"
proof -
  define rs1 where "rs1 = (run_start v syms reg)\<lparr>rs_phase := Spawned\<rparr>"
  define rs2 where "rs2 = rs1\<lparr>rs_phase := Connecting, rs_attempt := 0, rs_connected_at := None\<rparr>"
  have "run_step (run_start v syms reg) rs1"
    using run_step.start [of "run_start v syms reg"] by (simp add: rs1_def run_start_def new_session_def)
  moreover have "run_step rs1 rs2"
    using run_step.spawned [of rs1] by (simp add: rs2_def rs1_def run_start_def new_session_def)
  ultimately have "run_reaches (run_start v syms reg) rs2"
    by (rule run_reaches.step [OF run_reaches.step [OF run_reaches.init]])
  moreover have "rs_phase rs2 = Connecting" by (simp add: rs2_def)
  ultimately show ?thesis by blast
qed

theorem wire_refines_run_witness:
  "\<exists>srv v syms reg t rs rs' h'. start_server sample_api ''config'' = Inr srv \<and> (v, syms, reg, t) \<in> set (srv_wiring srv)
     \<and> rs_phase rs = Connecting
     \<and> connect_session (SslStream TcpStream) (venue_feed v :: json feed) syms t (0, 0) 0 sample_network (rs, []) = Some (rs', h')
     \<and> rs_phase rs' = Reading"
proof -
  obtain srv where srv: "start_server sample_api ''config'' = Inr srv" using sample_server by blast
  obtain groups where "srv_runner srv = start_all (new_runner groups)" "groups \<noteq> []"
    "groups = map (\<lambda>(v, syms, reg, t). (v, syms, reg)) (srv_wiring srv)"
    using wired_groups [OF srv] by blast
  then obtain v syms reg t where w: "(v, syms, reg, t) \<in> set (srv_wiring srv)"
    by (cases "srv_wiring srv") auto
  obtain rs where rs: "run_reaches (run_start v syms reg) rs" "rs_phase rs = Connecting"
    using sample_connecting by blast
  from wire_refines_run [OF srv w rs(1), where net = sample_network and h = "[]" and clock = "(0, 0)" and now = 0 and
      json = sample_api] rs(2)
  obtain rs' h' where "connect_session (SslStream TcpStream) (venue_feed v :: json feed) syms t (0, 0) 0 sample_network (rs, [])
      = Some (rs', h')" "rs_phase rs' = Reading"
    by (auto simp: sample_network_def)
  with srv w rs(2) show ?thesis by blast
qed

section \<open>The fetch of a snapshot\<close>

text \<open>The delays of the timers among some calls.\<close>

fun waits :: "io_call list \<Rightarrow> int list" where
  "waits [] = []"
| "waits (TimerWait d # cs) = d # waits cs"
| "waits (_ # cs) = waits cs"

lemma waits_append: "waits (cs @ ds) = waits cs @ waits ds"
  by (induction cs rule: waits.induct) simp_all

lemma waits_http: "ds @ es = http_request_calls layer host port target @ [shutdown_call layer] \<Longrightarrow> waits ds = []"
proof -
  assume "ds @ es = http_request_calls layer host port target @ [shutdown_call layer]"
  moreover have "waits (http_request_calls layer host port target @ [shutdown_call layer]) = []"
    by (simp add: call_defs waits_append)
  ultimately show ?thesis by (metis append_is_Nil_conv waits_append)
qed

lemma backoff_within:
  assumes "\<forall>b g. 0 \<le> b \<longrightarrow> 0 \<le> jitter net b g \<and> jitter net b g \<le> b"
  shows "\<exists>d. backoff n net h = async (TimerWait d) net h \<and> backoff_delay n d"
proof -
  have "0 \<le> backoff_base_ms n" by (simp add: backoff_base_ms_def push_bit_eq_mult)
  then have "0 \<le> backoff_base_ms n sdiv 5" by (cases "backoff_base_ms n = 0") (simp_all add: signed_divide_int_def sgn_if)
  with assms show ?thesis by (auto simp: backoff_def backoff_delay_def Let_def)
qed

text \<open>How a fetch that began after the calls \<open>h\<close>, with \<open>n\<close> failures behind it, may end.\<close>

definition fetch_result_ok ::
  "next_layer \<Rightarrow> http_request_spec \<Rightarrow> network \<Rightarrow> int \<Rightarrow> io_call list \<Rightarrow> fetch_end \<Rightarrow> io_call list \<Rightarrow> bool" where
  "fetch_result_ok layer spec net n h r h' \<longleftrightarrow>
     (\<exists>ds. h' = h @ ds \<and> (\<forall>i < length (waits ds). backoff_delay (n + int i) (waits ds ! i)))
     \<and> (case r of
          FetchStopped \<Rightarrow> stop_seen net h'
        | FetchThrew \<Rightarrow> \<exists>g d. h' = g @ [TimerWait d] \<and> \<not> completes net h'
        | FetchedBody body \<Rightarrow> \<exists>g. h' = g @ http_request_calls layer (req_host spec) (req_port spec) (req_target spec)
               @ [shutdown_call layer]
             \<and> fst (run_calls net g (http_request_calls layer (req_host spec) (req_port spec) (req_target spec)))
             \<and> response_read net (g @ http_request_calls layer (req_host spec) (req_port spec) (req_target spec))
               = \<lparr>http_result = 200, http_body = body\<rparr>)"

lemma fetch_result_retry:
  assumes "fetch_result_ok layer spec net (n + 1) (h @ ds @ [TimerWait d]) r h'" "waits ds = []" "backoff_delay n d"
  shows "fetch_result_ok layer spec net n h r h'"
proof -
  obtain es where es: "h' = (h @ ds @ [TimerWait d]) @ es" "\<forall>i < length (waits es). backoff_delay (n + 1 + int i) (waits es ! i)"
    using assms(1) by (auto simp: fetch_result_ok_def)
  have "backoff_delay (n + int i) ((d # waits es) ! i)" if "i < Suc (length (waits es))" for i
    using es(2) assms(3) that by (cases i) (auto simp: algebra_simps)
  then have "\<exists>ds. h' = h @ ds \<and> (\<forall>i < length (waits ds). backoff_delay (n + int i) (waits ds ! i))"
    using es(1) assms(2) by (intro exI [of _ "ds @ TimerWait d # es"]) (simp add: waits_append)
  with assms(1) show ?thesis by (simp add: fetch_result_ok_def)
qed

lemma fetch_loop_safe:
  assumes "fetch_loop layer spec net n h = Some r"
  shows "(\<forall>b g. 0 \<le> b \<longrightarrow> 0 \<le> jitter net b g \<and> jitter net b g \<le> b) \<longrightarrow> fetch_result_ok layer spec net n h (fst r) (snd r)"
  using assms
proof (induction rule: fetch_loop.raw_induct [rotated 1, consumes 1, case_names loop])
  case (loop self layer spec net n h r)
  show ?case
  proof (intro impI)
    assume jitter: "\<forall>b g. 0 \<le> b \<longrightarrow> 0 \<le> jitter net b g \<and> jitter net b g \<le> b"
    let ?cs = "http_request_calls layer (req_host spec) (req_port spec) (req_target spec)"
    show "fetch_result_ok layer spec net n h (fst r) (snd r)"
    proof (cases "stop_seen net h")
      case True
      with loop(2) show ?thesis by (auto simp: fetch_result_ok_def)
    next
      case False
      show ?thesis
      proof (cases rule: http_get_cases [of layer "req_host spec" "req_port spec" "req_target spec" net h])
        case (body body g)
        then have "r = (FetchedBody body, h @ ?cs @ [shutdown_call layer])" using loop(2) False by simp
        with body waits_http [of "?cs @ [shutdown_call layer]" "[]"] show ?thesis by (auto simp: fetch_result_ok_def)
      next
        case (failed ds es)
        have w: "waits ds = []" by (rule waits_http [OF failed(3)])
        obtain d where d: "backoff n net (h @ ds) = async (TimerWait d) net (h @ ds)" "backoff_delay n d"
          using backoff_within [OF jitter] by blast
        show ?thesis
        proof (cases "completes net (h @ ds @ [TimerWait d])")
          case True
          then have "self layer spec net (n + 1) (h @ ds @ [TimerWait d]) = Some r"
            using loop(2) False failed(1) d(1) by (simp add: async_def)
          from loop(1) [OF this] jitter have "fetch_result_ok layer spec net (n + 1) (h @ ds @ [TimerWait d]) (fst r) (snd r)"
            by blast
          then show ?thesis by (rule fetch_result_retry [OF _ w d(2)])
        next
          case cancelled: False
          then have "r = (FetchThrew, h @ ds @ [TimerWait d])"
            using loop(2) False failed(1) d(1) by (simp add: async_def)
          with cancelled w d(2) show ?thesis
            by (auto simp: fetch_result_ok_def waits_append intro!: exI [of _ "ds @ [TimerWait d]"])
        qed
      qed
    qed
  qed
qed

text \<open>
  From \<open>N\<close> calls on, the session is stopped or the network works.
\<close>

definition settles :: "network \<Rightarrow> nat \<Rightarrow> bool" where
  "settles net N \<longleftrightarrow>
     (\<forall>g. N \<le> length g \<longrightarrow> stop_seen net g)
     \<or> (\<forall>g. N \<le> length g \<longrightarrow> completes net g \<and> http_result (response_read net g) = 200)"

lemma run_calls_completes:
  assumes "\<forall>g. length h < length g \<longrightarrow> completes net g"
  shows "fst (run_calls net h cs)"
  using assms by (induction cs arbitrary: h) auto

lemma settled_get:
  assumes "\<forall>g. N \<le> length g \<longrightarrow> completes net g \<and> http_result (response_read net g) = 200" "N \<le> length h"
  shows "\<exists>body h'. http_get layer host port target net h = (Inr (Inr body), h')"
proof -
  have "fst (run_calls net h cs)" for cs using assms by (intro run_calls_completes) auto
  with assms show ?thesis
    by (cases rule: http_get_cases [of layer host port target net h]) auto
qed

lemma fetch_loop_ends:
  assumes "settles net N"
  shows "\<exists>r. fetch_loop layer spec net n h = Some r"
proof (induction "N - length h" arbitrary: n h rule: less_induct)
  case less
  show ?case
  proof (cases "stop_seen net h")
    case True
    then show ?thesis by (subst fetch_loop.simps) simp
  next
    case False
    show ?thesis
    proof (cases rule: http_get_cases [of layer "req_host spec" "req_port spec" "req_target spec" net h])
      case (body body g)
      with False show ?thesis by (subst fetch_loop.simps) simp
    next
      case (failed ds es)
      then have early: "length h < N"
        using assms False settled_get [of N net h layer "req_host spec" "req_port spec" "req_target spec"]
        by (force simp: settles_def not_less)
      obtain r' h'' where b: "backoff n net (h @ ds) = (r', h'')" "length h < length h''"
        by (simp add: backoff_def async_def Let_def)
      then obtain r where "fetch_loop layer spec net (n + 1) h'' = Some r"
        using less [of h'' "n + 1"] early by force
      with False failed(1) b show ?thesis by (subst fetch_loop.simps) (simp split: sum.split)
    qed
  qed
qed

text \<open>
  C14. The fetch of a snapshot ends as soon as it can, and delivers only what it fetched. If from some
  point on the network works or the session is stopped, the retries end (they would go on for ever
  only on a network that fails for ever). The i-th retry waits as long as the backoff prescribes. A
  snapshot is delivered only as the feed's reading of the body of a response with status 200 to the
  feed's request for this symbol; a fetch ends without a response only when the session was seen
  stopping or the wait was cancelled.
\<close>

theorem snapshot_fetch_ends:
  fixes feed :: "'v feed"
  assumes "settles net N" "\<forall>b g. 0 \<le> b \<longrightarrow> 0 \<le> jitter net b g \<and> jitter net b g \<le> b"
    and "snapshot_request feed = Some request" "parse_response feed = Some parse"
  shows "\<exists>response r h'. fetch_snapshot api layer feed symbol net h = Some (response, h')
    \<and> fetch_loop layer (request symbol) net 0 h = Some (r, h')
    \<and> fetch_result_ok layer (request symbol) net 0 h r h'
    \<and> (\<forall>snapshot. response = Some snapshot \<longleftrightarrow> (\<exists>body. r = FetchedBody body \<and> parse api symbol body = Inr snapshot))"
proof -
  obtain r h' where r: "fetch_loop layer (request symbol) net 0 h = Some (r, h')"
    using fetch_loop_ends [OF assms(1)] by fastforce
  moreover have "fetch_result_ok layer (request symbol) net 0 h r h'" using fetch_loop_safe [OF r] assms(2) by simp
  ultimately show ?thesis using assms(3,4)
    by (cases r) (auto simp: fetch_snapshot_def split: sum.split)
qed

theorem snapshot_fetch_ends_witness:
  "settles sample_network 0
   \<and> (\<exists>h'. fetch_loop (SslStream TcpStream) (binance_spot_snapshot_request ''BTCUSDT'') sample_network 0 []
        = Some (FetchedBody ''{}'', h'))"
proof -
  have s: "settles sample_network 0" by (simp add: settles_def sample_network_def)
  have j: "\<forall>b g. 0 \<le> b \<longrightarrow> 0 \<le> jitter sample_network b g \<and> jitter sample_network b g \<le> b"
    by (simp add: sample_network_def)
  have f: "snapshot_request (BinanceSpotFeed :: json feed) = Some binance_spot_snapshot_request"
    "parse_response (BinanceSpotFeed :: json feed) = Some parse_snapshot_response" by (simp_all add: BinanceSpotFeed_def)
  obtain r h' where r: "fetch_loop (SslStream TcpStream) (binance_spot_snapshot_request ''BTCUSDT'') sample_network 0 [] = Some (r, h')"
    "fetch_result_ok (SslStream TcpStream) (binance_spot_snapshot_request ''BTCUSDT'') sample_network 0 [] r h'"
    using snapshot_fetch_ends [OF s j f, of sample_api "SslStream TcpStream" "''BTCUSDT''" "[]"]
    by (elim exE conjE) (rule that)
  then have "r = FetchedBody ''{}''"
    by (cases r) (auto simp: fetch_result_ok_def sample_network_def)
  with s r show ?thesis by blast
qed

end
