(* ===== verification/Queue_Wakeup.thy ===== *)
theory Queue_Wakeup
  imports Subscriber_Queue
begin

text \<open>
  The condition variable of a \<^verbatim>\<open>SubscriberQueue\<close>: the handler thread in \<^verbatim>\<open>wait_and_drain\<close>, and any number
  of publishers, each of which pushes under the queue's mutex and calls \<^verbatim>\<open>notify()\<close> later, after it has
  released the locks it held (\<^verbatim>\<open>Fanout::broadcast\<close>, \<^verbatim>\<open>NotifyList\<close>, \<^verbatim>\<open>notify_all\<close>). The methods under
  the mutex are those of \<open>Subscriber_Queue\<close>.
\<close>

section \<open>The code\<close>

text \<open>
  Where the handler thread stands: outside, in \<^verbatim>\<open>wait_for\<close> with the mutex held and its predicate
  found false, blocked, or awake again and about to take the mutex.
\<close>

datatype drainer = Outside | AboutToBlock | Asleep | Awake

text \<open>\<open>mb_notifies\<close> counts the pushes whose \<^verbatim>\<open>notify()\<close> is still to come; \<open>mb_returned\<close> is what the
  calls of \<^verbatim>\<open>wait_and_drain\<close> have returned, the last one first.\<close>

record 'a mailbox =
  mb_queue :: "'a subscriber_queue"
  mb_drainer :: drainer
  mb_notifies :: nat
  mb_returned :: "(drain_result \<times> 'a list) list"

definition new_mailbox :: "nat \<Rightarrow> overflow_policy \<Rightarrow> 'a mailbox" where
  "new_mailbox capacity policy =
     \<lparr>mb_queue = new_queue capacity policy, mb_drainer = Outside, mb_notifies = 0, mb_returned = []\<rparr>"

text \<open>The predicate of the wait.\<close>

definition ready :: "'a subscriber_queue \<Rightarrow> bool" where
  "ready q \<longleftrightarrow> q_entries q \<noteq> [] \<or> q_closed q"

text \<open>The part of \<^verbatim>\<open>wait_and_drain\<close> after the wait.\<close>

definition drained :: "'a mailbox \<Rightarrow> 'a mailbox" where
  "drained m =
     (let (result, out, q) = wait_and_drain (mb_queue m)
      in m\<lparr>mb_queue := q, mb_drainer := Outside, mb_returned := (result, out) # mb_returned m\<rparr>)"

definition mutex_free :: "'a mailbox \<Rightarrow> bool" where
  "mutex_free m \<longleftrightarrow> mb_drainer m \<noteq> AboutToBlock"

definition pushed :: "'a \<Rightarrow> 'a mailbox \<Rightarrow> 'a mailbox" where
  "pushed update m =
     (let (result, q) = push_or_close update (mb_queue m)
      in m\<lparr>mb_queue := q, mb_notifies := (if result \<noteq> AlreadyClosed then mb_notifies m + 1 else mb_notifies m)\<rparr>)"

inductive drainer_step :: "'a mailbox \<Rightarrow> 'a mailbox \<Rightarrow> bool" where
  found_ready: "mb_drainer m \<in> {Outside, Awake} \<Longrightarrow> ready (mb_queue m) \<Longrightarrow> drainer_step m (drained m)"
| found_nothing: "mb_drainer m \<in> {Outside, Awake} \<Longrightarrow> \<not> ready (mb_queue m) \<Longrightarrow>
    drainer_step m (m\<lparr>mb_drainer := AboutToBlock\<rparr>)"
| blocks: "mb_drainer m = AboutToBlock \<Longrightarrow> drainer_step m (m\<lparr>mb_drainer := Asleep\<rparr>)"

inductive publisher_step :: "'a mailbox \<Rightarrow> 'a mailbox \<Rightarrow> bool" where
  push: "mutex_free m \<Longrightarrow> publisher_step m (pushed update m)"
| notify: "mb_notifies m = Suc n \<Longrightarrow>
    publisher_step m (m\<lparr>mb_notifies := n, mb_drainer := (if mb_drainer m = Asleep then Awake else mb_drainer m)\<rparr>)"

text \<open>What happens without a push: the timeout of the wait, a wakeup without a reason, and the
  first write of the handler, which ends the bootstrap.\<close>

inductive other_event :: "'a mailbox \<Rightarrow> 'a mailbox \<Rightarrow> bool" where
  timeout: "mb_drainer m \<in> {Asleep, Awake} \<Longrightarrow> other_event m (drained m)"
| spurious: "mb_drainer m = Asleep \<Longrightarrow> other_event m (m\<lparr>mb_drainer := Awake\<rparr>)"
| bootstrapped: "mb_drainer m = Outside \<Longrightarrow> other_event m (m\<lparr>mb_queue := end_bootstrap (mb_queue m)\<rparr>)"

inductive mailbox_reaches :: "'a mailbox \<Rightarrow> 'a mailbox \<Rightarrow> bool" for m0 where
  init: "mailbox_reaches m0 m0"
| drainer: "mailbox_reaches m0 m \<Longrightarrow> drainer_step m m' \<Longrightarrow> mailbox_reaches m0 m'"
| publisher: "mailbox_reaches m0 m \<Longrightarrow> publisher_step m m' \<Longrightarrow> mailbox_reaches m0 m'"
| other: "mailbox_reaches m0 m \<Longrightarrow> other_event m m' \<Longrightarrow> mailbox_reaches m0 m'"

section \<open>The invariant\<close>

definition wake_inv :: "'a mailbox \<Rightarrow> bool" where
  "wake_inv m \<longleftrightarrow>
     (mb_drainer m = AboutToBlock \<longrightarrow> \<not> ready (mb_queue m))
     \<and> (mb_drainer m = Asleep \<and> ready (mb_queue m) \<longrightarrow> 0 < mb_notifies m)
     \<and> queue_ok (mb_queue m)"

lemma drained_inv: "queue_ok (mb_queue m) \<Longrightarrow> wake_inv (drained m)"
  by (auto simp: drained_def wake_inv_def wait_and_drain_def queue_ok_def)

lemma pushed_ready: "fst (push_or_close x q) = AlreadyClosed \<Longrightarrow> snd (push_or_close x q) = q"
  by (auto simp: push_or_close_def split: if_splits)

lemma pushed_inv: "wake_inv m \<Longrightarrow> mutex_free m \<Longrightarrow> wake_inv (pushed x m)"
  using push_queue_ok [of "mb_queue m" x] pushed_ready [of x "mb_queue m"]
  by (auto simp: wake_inv_def pushed_def mutex_free_def split: prod.split)

lemma mailbox_reaches_inv: "mailbox_reaches m0 m \<Longrightarrow> wake_inv m0 \<Longrightarrow> wake_inv m"
proof (induction rule: mailbox_reaches.induct)
  case (drainer m m')
  from drainer(2) drainer(3) [OF drainer(4)] show ?case
  proof (induction rule: drainer_step.induct)
    case (found_ready m)
    then show ?case by (simp add: drained_inv wake_inv_def [of m])
  qed (auto simp: wake_inv_def)
next
  case (publisher m m')
  from publisher(2) publisher(3) [OF publisher(4)] show ?case
    by (induction rule: publisher_step.induct) (auto simp: pushed_inv, auto simp: wake_inv_def)
next
  case (other m m')
  from other(2) other(3) [OF other(4)] show ?case
  proof (induction rule: other_event.induct)
    case (timeout m)
    then show ?case by (simp add: drained_inv wake_inv_def [of m])
  qed (auto simp: wake_inv_def end_bootstrap_def queue_ok_def ready_def)
qed simp

lemma new_mailbox_inv: "0 < capacity \<Longrightarrow> wake_inv (new_mailbox capacity policy)"
  by (simp add: wake_inv_def new_mailbox_def queue_ok_def new_queue_def)

section \<open>The property\<close>

text \<open>What a ready queue gives, all of it, in one call.\<close>

lemma drained_ready:
  assumes "ready (mb_queue m)"
  shows "hd (mb_returned (drained m)) = (if q_closed (mb_queue m) then (Closed, []) else (Drained, q_entries (mb_queue m)))"
    and "mb_drainer (drained m) = Outside"
    and "q_entries (mb_queue (drained m)) = (if q_closed (mb_queue m) then q_entries (mb_queue m) else [])"
  using assms by (auto simp: drained_def wait_and_drain_def ready_def)

text \<open>A notify and one more step of the handler thread.\<close>

definition woken :: "'a mailbox \<Rightarrow> 'a mailbox" where
  "woken m = m\<lparr>mb_notifies := mb_notifies m - 1, mb_drainer := Awake\<rparr>"

lemma woken_reached:
  assumes "mb_drainer m = Asleep" "ready (mb_queue m)" "0 < mb_notifies m"
  shows "publisher_step m (woken m) \<and> drainer_step (woken m) (drained (woken m))"
proof
  from assms(3) obtain n where "mb_notifies m = Suc n" by (cases "mb_notifies m") auto
  then show "publisher_step m (woken m)" using publisher_step.notify [of m n] assms(1) by (simp add: woken_def)
  show "drainer_step (woken m) (drained (woken m))"
    by (rule drainer_step.found_ready) (use assms in \<open>simp_all add: woken_def\<close>)
qed

text \<open>
  C22. No wakeup of a subscriber is lost. Whenever the handler thread sleeps in \<^verbatim>\<open>wait_for\<close> while its queue
  holds updates or is closed, a \<^verbatim>\<open>notify()\<close> for it is still to come, so once every publisher has notified it
  sleeps on an empty, open queue only. That \<^verbatim>\<open>notify()\<close> and one step of the thread end the wait, without
  its timeout: the call returns every queued update in order, or that the queue was closed.
\<close>

theorem no_wakeup_is_lost:
  assumes "0 < capacity" and "mailbox_reaches (new_mailbox capacity policy) m" and "mb_drainer m = Asleep"
  shows "(mb_notifies m = 0 \<longrightarrow> q_entries (mb_queue m) = [] \<and> \<not> q_closed (mb_queue m))
    \<and> (ready (mb_queue m) \<longrightarrow>
      (\<exists>m' m''. publisher_step m m' \<and> drainer_step m' m'' \<and> mb_drainer m'' = Outside
        \<and> hd (mb_returned m'') = (if q_closed (mb_queue m) then (Closed, []) else (Drained, q_entries (mb_queue m)))))"
proof (rule conjI, goal_cases)
  have inv: "wake_inv m" by (rule mailbox_reaches_inv [OF assms(2) new_mailbox_inv [OF assms(1)]])
  {
    case 1
    show ?case using inv assms(3) by (auto simp: wake_inv_def ready_def)
  next
    case 2
    show ?case
    proof
      assume r: "ready (mb_queue m)"
      with inv assms(3) have "0 < mb_notifies m" by (simp add: wake_inv_def)
      note steps = woken_reached [OF assms(3) r this]
      have "ready (mb_queue (woken m))" using r by (simp add: woken_def)
      from drained_ready(1,2) [OF this] steps
      show "\<exists>m' m''. publisher_step m m' \<and> drainer_step m' m'' \<and> mb_drainer m'' = Outside
          \<and> hd (mb_returned m'') = (if q_closed (mb_queue m) then (Closed, []) else (Drained, q_entries (mb_queue m)))"
        by (intro exI [of _ "woken m"] exI [of _ "drained (woken m)"]) (simp add: woken_def)
    qed
  }
qed

text \<open>The handler thread sleeps on its new queue, then two updates are pushed.\<close>

definition sample_asleep :: "nat mailbox" where
  "sample_asleep = (new_mailbox 8 Close)\<lparr>mb_drainer := Asleep\<rparr>"

lemma sample_asleep_reached: "mailbox_reaches (new_mailbox 8 Close) sample_asleep"
proof -
  have "drainer_step (new_mailbox 8 Close :: nat mailbox) ((new_mailbox 8 Close)\<lparr>mb_drainer := AboutToBlock\<rparr>)"
    by (rule drainer_step.found_nothing) (simp_all add: new_mailbox_def ready_def new_queue_def)
  moreover have "drainer_step ((new_mailbox 8 Close)\<lparr>mb_drainer := AboutToBlock\<rparr>) sample_asleep"
    using drainer_step.blocks [of "(new_mailbox 8 Close)\<lparr>mb_drainer := AboutToBlock\<rparr>"] by (simp add: sample_asleep_def)
  ultimately show ?thesis by (meson mailbox_reaches.init mailbox_reaches.drainer)
qed

lemma sample_pushed_reached: "mailbox_reaches (new_mailbox 8 Close) (pushed 8 (pushed 7 sample_asleep))"
  by (intro mailbox_reaches.publisher [OF _ publisher_step.push] sample_asleep_reached)
     (simp_all add: mutex_free_def sample_asleep_def pushed_def new_mailbox_def new_queue_def push_or_close_def effective_capacity_def)

theorem no_wakeup_is_lost_witness:
  "\<exists>m' m''. publisher_step (pushed 8 (pushed 7 sample_asleep)) m' \<and> drainer_step m' m''
     \<and> hd (mb_returned m'') = (Drained, [7, 8])"
proof -
  have "mb_drainer (pushed 8 (pushed 7 sample_asleep)) = Asleep" "ready (mb_queue (pushed 8 (pushed 7 sample_asleep)))"
    "q_entries (mb_queue (pushed 8 (pushed 7 sample_asleep))) = [7, 8]" "\<not> q_closed (mb_queue (pushed 8 (pushed 7 sample_asleep)))"
    by (simp_all add: sample_asleep_def pushed_def new_mailbox_def new_queue_def push_or_close_def
        effective_capacity_def ready_def kBootstrapCapacityMultiplier_def)
  with no_wakeup_is_lost [OF _ sample_pushed_reached] show ?thesis by auto
qed

end
