(* ===== verification/Spec2Isabelle.thy ===== *)
theory Spec2Isabelle
  imports Client_Main Client_Life Server_Main Session_Wire Queue_Wakeup
begin

text \<open>
  \<^bold>\<open>A verification library for the hermeneutic order-book aggregator.\<close>

  The program subscribes to the order-book streams of up to six venues (Binance, Bybit and OKX,
  spot and perpetual), keeps for every configured instrument the sum of the venues' books, and
  republishes that book over two gRPC streams: an incremental one (a snapshot followed by diffs
  with contiguous sequence numbers) and one of best prices. A client rebuilds the book from the
  incremental stream and prints depth and average-price bands of it.

  \<^bold>\<open>How the parts work together.\<close> A message of a venue is parsed by its feed and handed to the
  \<^verbatim>\<open>SymbolSync\<close> of its symbol, a state machine that buffers updates until a snapshot bridges
  them, and answers with a list of actions. The \<^verbatim>\<open>VenueSession\<close> carries these actions out on
  the \<^verbatim>\<open>SymbolBook\<close> the symbol is registered to. The book is an
  \<^verbatim>\<open>AggregateOrderBook\<close>, which maintains the sum over the venues by deltas, plus a sequence
  number and the queues of its subscribers. A change of the aggregate becomes one revision: one diff
  to every subscriber of the incremental stream and, when the top moved, one best-price message.
  The gRPC handlers drain the queues to the wire; the client applies what it reads.

  \<^bold>\<open>The theories, bottom up.\<close>

  \<^item> \<open>Prelude\<close>: error codes, the two views of machine integers, association lists, runs, strings; the
    locale \<open>finishing\<close>, that a system with a decreasing measure reaches its goal, is interpreted on the
    delivery of a stream, on a stopping session and on the end of the server.
  \<^item> \<open>Rounding\<close>, \<open>Fixed_Point\<close>, \<open>Decimal_Parse\<close>: \<^verbatim>\<open>core/rounding.hpp\<close>,
    \<^verbatim>\<open>core/fixed_point.hpp\<close>, \<^verbatim>\<open>core/notional.hpp\<close>. A fixed-point value is its raw
    integer. The rounding division is the nearest integer, ties away from zero; the 128-bit
    intermediates never overflow; the parser accepts exactly the decimals and rounds them to the
    nearest value.
  \<^item> \<open>Ordered_Map\<close>: \<^verbatim>\<open>std::map\<close> as the list of its entries; the locale \<open>key_order\<close> is what a
    comparator promises, interpreted on both comparators of the books.
  \<^item> \<open>Symbol\<close>: \<^verbatim>\<open>symbol/symbol.hpp\<close>. Book ids parse and print inversely; venue names are
    distinct.
  \<^item> \<open>Aggregate_Book\<close>: \<^verbatim>\<open>book/l2_order_book.hpp\<close> and
    \<^verbatim>\<open>book/aggregate_order_book.hpp\<close>. After any history the aggregate is the sum of the venues,
    a rejected call changes nothing, and the sinks are told exactly what changed. The locale
    \<open>book_side\<close> proves each lemma once for both sides.
  \<^item> \<open>Price_Bands\<close>, \<open>Volume_Bands\<close>: \<^verbatim>\<open>book/price_bands.hpp\<close> and
    \<^verbatim>\<open>book/volume_bands.hpp\<close>. Each single pass equals a reference definition over rationals,
    on every branch; the locale \<open>band_policy\<close> is what a side promises to the pass.
  \<^item> \<open>Symbol_Sync\<close>, \<open>Sync_Refinement\<close>: \<^verbatim>\<open>book/symbol_sync.hpp\<close> and the four sequence
    policies under \<^verbatim>\<open>exchange/\<close>. The exchange is a function from update ids to books; the locale
    \<open>policy_laws\<close> states what a policy's three predicates have to guarantee, and all four policies
    satisfy it. No list of actions shows a book the exchange never had, and a snapshot that the buffer
    bridges takes the symbol live.
  \<^item> \<open>Subscriber_Queue\<close>, \<open>Symbol_Book\<close>: \<^verbatim>\<open>SubscriberQueue\<close>, \<^verbatim>\<open>Fanout\<close> and
    \<^verbatim>\<open>SymbolBook\<close> of \<^verbatim>\<open>apps/aggregator/aggregator_service.hpp\<close>. Queues are bounded, a
    queue of the incremental stream loses nothing or closes, and every operation is one revision.
  \<^item> \<open>Queue_Wakeup\<close>: the condition variable of a queue, with publishers that notify after they have
    released their locks, timeouts and spurious wakeups. No wakeup is lost: a handler thread never needs
    the timeout to see an update or a close.
  \<^item> \<open>Client_Book\<close>, \<open>Stream_Replica\<close>: \<^verbatim>\<open>apps/aggregator/client_book.hpp\<close>, the read loop of
    \<^verbatim>\<open>client_main.cpp\<close>, and the handler \<^verbatim>\<open>SubscribeL2Diff\<close>, as one step relation over all
    interleavings of ingestion, handler and client. The client shows a book the server had, never
    sees a gap, and has the server's own book once what was on its way is delivered, which takes at most
    two steps per message.
  \<^item> \<open>Bbo_Stream\<close>: the handler \<^verbatim>\<open>SubscribeBbo\<close>, with each of its returns, and the \<^verbatim>\<open>DropOldest\<close> queue.
  \<^item> \<open>Venue_Session\<close>: \<^verbatim>\<open>ingestion/venue_session.hpp\<close>. The locale \<open>book_target\<close> is the
    contract of the template parameter \<^verbatim>\<open>Book\<close>, interpreted on \<^verbatim>\<open>AggregateOrderBook\<close> and
    on \<^verbatim>\<open>SymbolBook\<close>. While a symbol is live its venue's book in the aggregate is the exchange's book.
  \<^item> \<open>Market\<close>: all sessions on shared books, as \<^verbatim>\<open>server_main.cpp\<close> wires them. After
    every sequence of whole session steps each book is the sum of the exchange books of the live
    symbols, and a stopped venue stays withdrawn. A snapshot with an invalid level, which the faithful
    runs exclude, can leave a partial book.
  \<^item> \<open>Session_Run\<close>: \<^verbatim>\<open>start\<close>, \<^verbatim>\<open>stop\<close> and \<^verbatim>\<open>run\<close> of \<^verbatim>\<open>VenueSession\<close>, a step relation
    over the suspension points of the coroutine. A session that finished is withdrawn from every book,
    a stopping session finishes, and the delays between reconnects back off.
  \<^item> \<open>Ingestion_Runner\<close>: \<^verbatim>\<open>ingestion/ingestion_runner.hpp\<close>. The one-shot barrier reports that
    all sessions drained exactly once, and only then.
  \<^item> \<open>Aggregator_Service\<close>: \<^verbatim>\<open>apps/aggregator/book_id.hpp\<close> and \<^verbatim>\<open>AggregatorService\<close>. Every
    request is routed to its book or refused without a change.
  \<^item> \<open>Json_Api\<close>, \<open>Feeds\<close>: the operations of the JSON library the code calls, a record of functions;
    what its documentation promises of them, on documents it can read, is the locale \<open>json_view\<close>,
    interpreted on JSON trees. Keys are looked up in any order, as the tests of the feeds require.
    Over it \<^verbatim>\<open>exchange/feed_wire.hpp\<close> and the five feed classes, which read exactly the messages
    of their exchange.
  \<^item> \<open>Book_Subscription\<close>: \<^verbatim>\<open>ingestion/book_subscription.hpp\<close> and
    \<^verbatim>\<open>ingestion/idle_timeout.hpp\<close>. An accepted configuration is well-formed, whatever the JSON
    library does.
  \<^item> \<open>Double_Format\<close>, \<open>Band_Config\<close>: the text of a fixed-point value, printed through a
    \<^verbatim>\<open>double\<close>, and \<^verbatim>\<open>apps/aggregator/band_config.hpp\<close>: labels, threshold lists and flags.
    Printed figures are exact below \<open>2 ^ 52\<close> raw units; the flags accept exactly what the band
    functions accept.
  \<^item> \<open>Server_Wiring\<close>: the startup of \<^verbatim>\<open>apps/aggregator/server_main.cpp\<close>. A server that starts
    satisfies what \<open>Market\<close>, \<open>Ingestion_Runner\<close> and \<open>Aggregator_Service\<close> assume of the wiring.
  \<^item> \<open>Net_Client\<close>: \<^verbatim>\<open>net/net_traits.hpp\<close>, \<^verbatim>\<open>net/http_client.hpp\<close> and
    \<^verbatim>\<open>net/websocket_connection.hpp\<close>, as the sequences of library calls they make on an arbitrary
    network. The GET throws nothing and gives a body exactly for a complete exchange with status 200.
  \<^item> \<open>Session_Wire\<close>: the use a session makes of them and of its feed. Connecting, reading and
    fetching on any network are steps of \<open>Session_Run\<close>; the retries of a fetch end once the network
    works or the session stops.
  \<^item> \<open>Server_Shutdown\<close>, \<open>Server_Main\<close>: \<^verbatim>\<open>main\<close> of the server from the first signal to its return, with the
    threads it joins. It returns only when they have ended and, unless the watchdog had to stop the
    event loop, every session has finished; and it always can return. Around that, the arguments,
    the configuration file and every line \<^verbatim>\<open>main\<close> prints.
  \<^item> \<open>Client_Output\<close>, \<open>Client_Main\<close>: the publishers, the list query and \<^verbatim>\<open>main\<close> of
    \<^verbatim>\<open>apps/aggregator/client_main.cpp\<close>. Every printed line shows a book the server had; the program
    runs exactly on the argument lists it documents.
  \<^item> \<open>Client_Shutdown\<close>: \<^verbatim>\<open>StreamCanceller\<close>, its registry and \<^verbatim>\<open>ShutdownSignalWatcher\<close>, a step
    relation down to the mutex and the condition variable. A stop reaches every stream registered
    before it.
  \<^item> \<open>Client_Life\<close>: the end of the client's \<^verbatim>\<open>main\<close>, its duration, the joining of the publishers and the
    destructor of the watcher, composed with the steps of \<open>Client_Shutdown\<close>. When it returns nothing of it
    is left running; it makes finitely many steps between two events from outside; and a stop can miss
    a stream that registers after the sweep, which leaves the client waiting.

  \<^bold>\<open>Integers.\<close> \<^verbatim>\<open>std::int64_t\<close> values are \<open>int\<close> with the narrowing cast \<open>wrap64\<close> written where
  the code has it; \<^verbatim>\<open>std::uint64_t\<close> sequence numbers and update ids are \<open>64 word\<close>, so the stream
  theorems hold across their wrap-around. Assertions are compiled out, as in a release build, but
  for that of \<^verbatim>\<open>WebSocketConnection::connect\<close>, which is shown never to fail. Where a theorem needs that a sum does not wrap it says so: a venue's size at one price is at most a sixth
  of the range (there are six venues); the bands need the total size of a side, and each level's
  notional, to be representable.

  \<^bold>\<open>Loops.\<close> Every bounded loop of the modelled code is a total function by structural recursion or a
  measure; no fuel is used. The unbounded loops (the read loops, the handlers, the threads) are step
  relations, or folds over the events they receive. The retries of a snapshot fetch, which may go on
  for ever, are a partial function into \<open>option\<close>, with a theorem on when they end.

  \<^bold>\<open>Outside the model.\<close> The JSON library (simdjson) and the network libraries (Boost.Asio, Boost.Beast,
  OpenSSL) are parameters; gRPC and protobuf are libraries whose results are the inputs of the steps,
  and how the gRPC server is configured is not modelled. What an exchange sends is assumed to describe
  its own books, in the sense of \<open>faithful\<close>; no assumption is made on loss, order or repetition. One
  numbering of books serves a whole run: an exchange that restarts its sequence and reuses ids for
  other books is not covered. A failing \<^verbatim>\<open>sigwait\<close> (impossible for the fixed set of signals) is left
  out, and \<^verbatim>\<open>Finish\<close> of a call that was cancelled or ended is taken to return.
  Threads are interleaved at the points where they block or take a lock; data races below that,
  allocation failure, the text of log lines on the standard error stream of the server, and time other
  than in the backoff and the timeouts passed on are not modelled.

  \<^bold>\<open>Not modelled, part by part.\<close> Every component has its state and all its operations in the model.
  What remains of their files is what has no behaviour of its own there: the templates' constraints
  and aliases, hash functions, logging, the reading of the clock, the options of the gRPC server, the
  construction of sockets and TLS contexts, and an exception that leaves the setup of a session.
\<close>

end
